(* ===== verification/Prelude.thy ===== *)
theory Prelude
  imports Main "HOL-Library.Word"
begin

text \<open>
  Prelude of the xv6 development.

  \<^item> Names for the C integer types of \<^verbatim>\<open>types.h\<close> (\<^verbatim>\<open>uchar\<close>, \<^verbatim>\<open>ushort\<close>, \<^verbatim>\<open>uint\<close>).
  \<^item> The result of a piece of kernel code (\<open>outcome\<close>) and the state-passing combinators the
    model is written with. Kernel code either returns (\<open>Ok\<close>), stops the machine
    (\<open>Panic\<close>), hands the CPU to the scheduler by \<^verbatim>\<open>swtch\<close> (\<open>Swtch\<close>), or loops forever
    while no other CPU acts (\<open>Spin\<close>). Every \<^verbatim>\<open>panic\<close> of the source is a \<open>Panic\<close> here.
  \<^item> Memory as byte functions: blocks and pages, little-endian loads and stores, and the
    block copy of \<^verbatim>\<open>memmove\<close>.
  \<^item> Generic lemmas on words and lists that the components share.
\<close>

unbundle bit_operations_syntax

section \<open>C integer types\<close>

type_synonym u8 = "8 word"
type_synonym u16 = "16 word"
type_synonym u32 = "32 word"

section \<open>Outcomes of kernel code\<close>

datatype ('a, 's) outcome = Ok 'a 's | Panic string | Swtch 's | Spin

type_synonym ('s, 'a) kern = "'s \<Rightarrow> ('a, 's) outcome"

named_theorems kern_defs \<open>definitions of the combinators\<close>
named_theorems kern_elims \<open>inversion of successful runs\<close>

definition retk :: "'a \<Rightarrow> ('s, 'a) kern" where
  [kern_defs]: "retk x s = Ok x s"

definition bindk :: "('s, 'a) kern \<Rightarrow> ('a \<Rightarrow> ('s, 'b) kern) \<Rightarrow> ('s, 'b) kern" where
  "bindk m f s =
     (case m s of Ok x t \<Rightarrow> f x t | Panic e \<Rightarrow> Panic e | Swtch t \<Rightarrow> Swtch t | Spin \<Rightarrow> Spin)"

text \<open>Sequencing of a statement that returns nothing.\<close>

definition thenk :: "('s, unit) kern \<Rightarrow> ('s, 'b) kern \<Rightarrow> ('s, 'b) kern" where
  [kern_defs]: "thenk m n = bindk m (\<lambda>_. n)"

definition readk :: "('s \<Rightarrow> 'a) \<Rightarrow> ('s, 'a) kern" where
  [kern_defs]: "readk f s = Ok (f s) s"

definition modk :: "('s \<Rightarrow> 's) \<Rightarrow> ('s, unit) kern" where
  [kern_defs]: "modk f s = Ok () (f s)"

definition panic :: "string \<Rightarrow> ('s, 'a) kern" where
  [kern_defs]: "panic msg s = Panic msg"

definition spink :: "('s, 'a) kern" where
  [kern_defs]: "spink s = Spin"

definition whenk :: "bool \<Rightarrow> ('s, unit) kern \<Rightarrow> ('s, unit) kern" where
  [kern_defs]: "whenk b m = (if b then m else retk ())"

text \<open>\<open>for(x in xs) body\<close>, for a loop whose bounds the body does not change.\<close>

fun foreach :: "'x list \<Rightarrow> ('x \<Rightarrow> ('s, unit) kern) \<Rightarrow> ('s, unit) kern" where
  "foreach [] f = retk ()"
| "foreach (x # xs) f = thenk (f x) (foreach xs f)"

lemma bindk_simps [simp]:
  "m s = Ok x t \<Longrightarrow> bindk m f s = f x t"
  "m s = Panic e \<Longrightarrow> bindk m f s = Panic e"
  "m s = Swtch t \<Longrightarrow> bindk m f s = Swtch t"
  "m s = Spin \<Longrightarrow> bindk m f s = Spin"
  by (simp_all add: bindk_def)

lemma bindk_runs [simp]:
  "bindk (retk x) f s = f x s"
  "bindk (readk g) f s = f (g s) s"
  "bindk (modk h) k s = k () (h s)"
  "bindk (panic e) f s = Panic e"
  "bindk spink f s = Spin"
  by (simp_all add: kern_defs)

lemma thenk_runs [simp]:
  "m s = Ok u t \<Longrightarrow> thenk m n s = n t"
  "thenk (modk h) n s = n (h s)"
  "thenk (retk u) n s = n s"
  "thenk (panic e) n s = Panic e"
  by (simp_all add: kern_defs)

lemma run_simps [simp]:
  "retk x s = Ok x s"
  "readk g s = Ok (g s) s"
  "modk h s = Ok () (h s)"
  "panic e s = Panic e"
  "spink s = Spin"
  "whenk True m = m"
  "whenk False m = retk ()"
  by (simp_all add: kern_defs)

lemma bindk_assoc: "bindk (bindk m f) g = bindk m (\<lambda>x. bindk (f x) g)"
  by (rule ext) (simp add: bindk_def split: outcome.split)

lemma bindk_OkE [elim!, kern_elims]:
  assumes "bindk m f s = Ok r t"
  obtains x u where "m s = Ok x u" and "f x u = Ok r t"
  using assms by (auto simp: bindk_def split: outcome.splits)

lemma thenk_OkE [elim!, kern_elims]:
  assumes "thenk m n s = Ok r t"
  obtains u where "m s = Ok () u" and "n u = Ok r t"
  using assms by (auto simp: thenk_def)

lemma whenk_OkE [kern_elims]:
  assumes "whenk b m s = Ok r t"
  obtains "b" and "m s = Ok r t" | "\<not> b" and "t = s"
  using assms by (cases b) auto

lemma foreach_append:
  "foreach (xs @ ys) f = thenk (foreach xs f) (foreach ys f)"
proof (induction xs)
  case Nil
  show ?case by (rule ext) simp
next
  case (Cons x xs)
  then show ?case by (simp add: thenk_def bindk_assoc)
qed

text \<open>A loop keeps whatever its body keeps.\<close>

lemma foreach_inv:
  assumes "foreach xs f s = Ok r t" and "I s"
    and "\<And>x u v. x \<in> set xs \<Longrightarrow> I u \<Longrightarrow> f x u = Ok () v \<Longrightarrow> I v"
  shows "I t"
  using assms
proof (induction xs arbitrary: s)
  case Nil
  then show ?case by simp
next
  case (Cons x xs)
  from Cons.prems(1) obtain u where "f x s = Ok () u" and "foreach xs f u = Ok r t"
    by auto
  moreover have "I u"
    using Cons.prems(2,3) \<open>f x s = Ok () u\<close> by (meson list.set_intros(1))
  ultimately show ?case
    using Cons.prems(3) by (meson Cons.IH list.set_intros(2))
qed

text \<open>
  Total correctness: \<open>runs m s Q\<close> says that \<open>m\<close> returns from \<open>s\<close>, with a result and a state that
  satisfy \<open>Q\<close>.
\<close>

definition runs :: "('s, 'a) kern \<Rightarrow> 's \<Rightarrow> ('a \<Rightarrow> 's \<Rightarrow> bool) \<Rightarrow> bool" where
  "runs m s Q \<longleftrightarrow> (\<exists>x t. m s = Ok x t \<and> Q x t)"

lemma runsI: "m s = Ok x t \<Longrightarrow> Q x t \<Longrightarrow> runs m s Q"
  by (auto simp: runs_def)

lemma runsE:
  assumes "runs m s Q"
  obtains x t where "m s = Ok x t" and "Q x t"
  using assms by (auto simp: runs_def)

lemma runs_simps [simp]:
  "runs (retk x) s Q = Q x s"
  "runs (Ok x) s Q = Q x s"
  "runs Swtch s Q = False"
  "runs (readk g) s Q = Q (g s) s"
  "runs (panic e) s Q = False"
  "runs spink s Q = False"
  "runs (modk h) s U = U () (h s)"
  by (auto simp: runs_def)

lemma runs_bindk [simp]: "runs (bindk m f) s Q = runs m s (\<lambda>x t. runs (f x) t Q)"
  by (auto simp: runs_def bindk_def split: outcome.splits)

lemma runs_thenk [simp]: "runs (thenk m n) s Q = runs m s (\<lambda>_ t. runs n t Q)"
  by (simp add: thenk_def)

lemmas runs_vc = runs_simps runs_bindk runs_thenk prod.case

lemma runs_whenk: "runs (whenk b m) s Q = (if b then runs m s Q else Q () s)"
  by simp

lemma runs_mono: "runs m s P \<Longrightarrow> (\<And>x t. P x t \<Longrightarrow> Q x t) \<Longrightarrow> runs m s Q"
  by (auto simp: runs_def)

lemma runs_Ok: "m s = Ok x t \<Longrightarrow> runs m s Q = Q x t"
  by (simp add: runs_def)

text \<open>A loop over a list, with an invariant indexed by the part done.\<close>

lemma runs_foreach:
  assumes "I [] s"
    and "\<And>ys x zs u. xs = ys @ x # zs \<Longrightarrow> I ys u \<Longrightarrow> runs (f x) u (\<lambda>_ v. I (ys @ [x]) v)"
  shows "runs (foreach xs f) s (\<lambda>_ t. I xs t)"
proof -
  have "\<forall>ys u. xs = ys @ zs \<longrightarrow> I ys u \<longrightarrow> runs (foreach zs f) u (\<lambda>_ t. I xs t)" for zs
  proof (induction zs)
    case Nil
    then show ?case by simp
  next
    case (Cons z zs)
    show ?case
    proof (intro allI impI)
      fix ys u
      assume "xs = ys @ z # zs" "I ys u"
      then have "runs (f z) u (\<lambda>_ v. I (ys @ [z]) v)" by (rule assms(2))
      then show "runs (foreach (z # zs) f) u (\<lambda>_ t. I xs t)"
        using Cons \<open>xs = ys @ z # zs\<close> by (auto elim!: runs_mono)
    qed
  qed
  with assms(1) show ?thesis by blast
qed

section \<open>Bytes\<close>

text \<open>
  A region of memory (a disk block, a page, a \<^verbatim>\<open>char\<close> array) is a function from offsets to
  bytes; which offsets exist is part of the code that uses it.
\<close>

type_synonym bytes = "nat \<Rightarrow> u8"

text \<open>\<open>memmove(dst + doff, src + soff, n)\<close> between two different objects.\<close>

definition blit :: "bytes \<Rightarrow> nat \<Rightarrow> bytes \<Rightarrow> nat \<Rightarrow> nat \<Rightarrow> bytes" where
  "blit dst doff src soff n =
     (\<lambda>i. if doff \<le> i \<and> i < doff + n then src (soff + (i - doff)) else dst i)"

text \<open>Little-endian fields of a struct stored at offset \<open>p\<close>.\<close>

definition get16 :: "bytes \<Rightarrow> nat \<Rightarrow> u16" where
  "get16 d p = ucast (d p) OR push_bit 8 (ucast (d (p + 1)))"

definition get32 :: "bytes \<Rightarrow> nat \<Rightarrow> u32" where
  "get32 d p = ucast (d p) OR push_bit 8 (ucast (d (p + 1)))
     OR push_bit 16 (ucast (d (p + 2))) OR push_bit 24 (ucast (d (p + 3)))"

definition put16 :: "bytes \<Rightarrow> nat \<Rightarrow> u16 \<Rightarrow> bytes" where
  "put16 d p w = d(p := ucast w, p + 1 := ucast (drop_bit 8 w))"

definition put32 :: "bytes \<Rightarrow> nat \<Rightarrow> u32 \<Rightarrow> bytes" where
  "put32 d p w = d(p := ucast w, p + 1 := ucast (drop_bit 8 w),
     p + 2 := ucast (drop_bit 16 w), p + 3 := ucast (drop_bit 24 w))"

lemma get16_put16 [simp]: "get16 (put16 d p w) p = w"
  by (rule bit_word_eqI)
    (auto simp: get16_def put16_def bit_or_iff bit_push_bit_iff bit_ucast_iff bit_drop_bit_eq)

lemma get32_put32 [simp]: "get32 (put32 d p w) p = w"
proof (rule bit_word_eqI)
  fix n
  assume "n < LENGTH(32)"
  then consider "n < 8" | "8 \<le> n" "n < 16" | "16 \<le> n" "n < 24" | "24 \<le> n" "n < 32"
    by fastforce
  then show "bit (get32 (put32 d p w) p) n = bit w n"
    by cases
      (auto simp: get32_def put32_def bit_or_iff bit_push_bit_iff bit_ucast_iff bit_drop_bit_eq)
qed

lemma put16_other: "i < p \<or> p + 2 \<le> i \<Longrightarrow> put16 d p w i = d i"
  by (auto simp: put16_def)

lemma put32_other: "i < p \<or> p + 4 \<le> i \<Longrightarrow> put32 d p w i = d i"
  by (auto simp: put32_def)

lemma get16_put16_other: "q + 2 \<le> p \<or> p + 2 \<le> q \<Longrightarrow> get16 (put16 d p w) q = get16 d q"
  by (auto simp: get16_def put16_def)

lemma get16_put32_other: "q + 2 \<le> p \<or> p + 4 \<le> q \<Longrightarrow> get16 (put32 d p w) q = get16 d q"
  by (auto simp: get16_def put32_def)

lemma get32_put16_other: "q + 4 \<le> p \<or> p + 2 \<le> q \<Longrightarrow> get32 (put16 d p w) q = get32 d q"
  by (auto simp: get32_def put16_def)

lemma get32_put32_other: "q + 4 \<le> p \<or> p + 4 \<le> q \<Longrightarrow> get32 (put32 d p w) q = get32 d q"
  by (auto simp: get32_def put32_def)

lemmas get_put_other = get16_put16_other get16_put32_other get32_put16_other get32_put32_other

lemma get16_cong: "d p = e q \<Longrightarrow> d (p + 1) = e (q + 1) \<Longrightarrow> get16 d p = get16 e q"
  by (simp add: get16_def)

lemma get32_cong:
  "(\<And>i. i < 4 \<Longrightarrow> d (p + i) = e (q + i)) \<Longrightarrow> get32 d p = get32 e q"
proof -
  assume *: "\<And>i. i < 4 \<Longrightarrow> d (p + i) = e (q + i)"
  show ?thesis using * [of 0] * [of 1] * [of 2] * [of 3] by (simp add: get32_def)
qed

lemma blit_in [simp]: "doff \<le> i \<Longrightarrow> i < doff + n \<Longrightarrow> blit dst doff src soff n i = src (soff + (i - doff))"
  by (simp add: blit_def)

lemma blit_out [simp]: "i < doff \<or> doff + n \<le> i \<Longrightarrow> blit dst doff src soff n i = dst i"
  by (auto simp: blit_def)

lemma blit_0 [simp]: "blit dst doff src soff 0 = dst"
  by (rule ext) (auto simp: blit_def)

section \<open>Words\<close>

lemma unat32_lt [simp]: "unat (w :: u32) < 4294967296"
  using unsigned_less [of w] by simp

lemma unat16_lt [simp]: "unat (w :: u16) < 65536"
  using unsigned_less [of w] by simp

lemma unat32_of_nat [simp]: "n < 4294967296 \<Longrightarrow> unat (of_nat n :: u32) = n"
  by (simp add: unsigned_of_nat take_bit_nat_eq_self)

text \<open>A C \<^verbatim>\<open>int\<close> in a 32-bit register.\<close>

lemma sint_unat:
  "sint (w :: u32) =
     (if unat w < 2147483648 then int (unat w) else int (unat w) - 4294967296)"
proof -
  define u where "u = uint w"
  have b: "0 \<le> u" "u < 4294967296" using uint_lt2p [of w] by (simp_all add: u_def)
  have "sint w = (u + 2147483648) mod 4294967296 - 2147483648"
    by (simp add: sint_uint signed_take_bit_eq_take_bit_shift take_bit_eq_mod u_def)
  moreover have "(u + 2147483648) mod 4294967296 = (if u < 2147483648 then u + 2147483648 else u - 2147483648)"
  proof (cases "u < 2147483648")
    case True
    then show ?thesis using b by simp
  next
    case False
    have "(u + 2147483648) mod 4294967296 = (u - 2147483648 + 4294967296) mod 4294967296" by (simp add: algebra_simps)
    also have "\<dots> = u - 2147483648" using False b by (simp only: mod_add_self2) (simp add: mod_pos_pos_trivial)
    finally show ?thesis using False by simp
  qed
  moreover have "int (unat w) = u" by (simp add: u_def)
  moreover have "unat w < 2147483648 \<longleftrightarrow> u < 2147483648" using \<open>int (unat w) = u\<close> by linarith
  ultimately show ?thesis by simp
qed

lemma sint_nonneg: "0 \<le> sint (w :: u32) \<longleftrightarrow> unat w < 2147483648"
  using uint_lt2p [of w] by (simp add: sint_unat)

section \<open>Lists\<close>

lemma find_SomeD: "find P xs = Some x \<Longrightarrow> x \<in> set xs \<and> P x"
  by (induction xs) (auto split: if_splits)

lemma find_upt_None: "find P [i..<n] = None \<Longrightarrow> i \<le> q \<Longrightarrow> q < n \<Longrightarrow> \<not> P q"
  by (auto simp: find_None_iff)

lemma find_upt_Some:
  assumes "find P [i..<n] = Some p"
  shows "P p \<and> i \<le> p \<and> p < n \<and> (\<forall>q. i \<le> q \<and> q < p \<longrightarrow> \<not> P q)"
proof -
  obtain k where k: "k < n - i" "P (i + k)" "p = i + k" "\<And>j. j < k \<Longrightarrow> \<not> P (i + j)"
    using assms by (auto simp: find_Some_iff)
  have "\<not> P q" if "i \<le> q" "q < p" for q using k(4) [of "q - i"] k(3) that by simp
  then show ?thesis using k by simp
qed

end
