(* ===== verification/Params.thy ===== *)
theory Params
  imports Prelude
begin

text \<open>
  The constants and layout macros of \<^verbatim>\<open>param.h\<close>, \<^verbatim>\<open>fs.h\<close>, \<^verbatim>\<open>stat.h\<close> and \<^verbatim>\<open>memlayout.h\<close>, with
  the C structs of the on-disk format: the super block, the disk inode and the
  directory entry. The sizes (\<^verbatim>\<open>sizeof\<close>) are those of the i386 ABI the kernel is built for.
\<close>

section \<open>param.h\<close>

definition NPROC :: nat where [simp]: "NPROC = 64"
definition KSTACKSIZE :: u32 where [simp]: "KSTACKSIZE = 4096"
definition NCPU :: nat where [simp]: "NCPU = 8"
definition NOFILE :: nat where [simp]: "NOFILE = 16"
definition NFILE :: nat where [simp]: "NFILE = 100"
definition NBUF :: nat where [simp]: "NBUF = 10"
definition NINODE :: nat where [simp]: "NINODE = 50"
definition NDEV :: int where [simp]: "NDEV = 10"
definition ROOTDEV :: u32 where [simp]: "ROOTDEV = 1"
definition MAXARG :: nat where [simp]: "MAXARG = 32"
definition LOGSIZE :: int where [simp]: "LOGSIZE = 10"

section \<open>fs.h\<close>

definition ROOTINO :: u32 where [simp]: "ROOTINO = 1"
definition BSIZE :: nat where [simp]: "BSIZE = 512"
definition NDIRECT :: nat where [simp]: "NDIRECT = 12"
definition NINDIRECT :: nat where [simp]: "NINDIRECT = BSIZE div 4"
definition MAXFILE :: nat where [simp]: "MAXFILE = NDIRECT + NINDIRECT"
definition DIRSIZ :: nat where [simp]: "DIRSIZ = 14"

text \<open>\<open>struct superblock\<close>: four \<^verbatim>\<open>uint\<close>s.\<close>

record superblock =
  sb_size :: u32
  sb_nblocks :: u32
  sb_ninodes :: u32
  sb_nlog :: u32

text \<open>\<open>struct dinode\<close>: four \<^verbatim>\<open>short\<close>s, a size and \<^verbatim>\<open>NDIRECT + 1\<close> addresses, 64 bytes.\<close>

record dinode =
  di_type :: u16
  di_major :: u16
  di_minor :: u16
  di_nlink :: u16
  di_size :: u32
  di_addrs :: "nat \<Rightarrow> u32"

definition dinode_size :: nat where [simp]: "dinode_size = 64"

definition IPB :: nat where [simp]: "IPB = BSIZE div dinode_size"
definition BPB :: nat where [simp]: "BPB = BSIZE * 8"

definition IBLOCK :: "u32 \<Rightarrow> u32" where
  "IBLOCK i = i div of_nat IPB + 2"

definition BBLOCK :: "u32 \<Rightarrow> u32 \<Rightarrow> u32" where
  "BBLOCK b ninodes = b div of_nat BPB + ninodes div of_nat IPB + 3"

text \<open>\<open>struct dirent\<close>: a 2-byte inode number and 14 name bytes, 16 bytes.\<close>

record dirent =
  de_inum :: u16
  de_name :: bytes

definition dirent_size :: nat where [simp]: "dirent_size = 16"

section \<open>stat.h\<close>

definition T_DIR :: u16 where [simp]: "T_DIR = 1"
definition T_FILE :: u16 where [simp]: "T_FILE = 2"
definition T_DEV :: u16 where [simp]: "T_DEV = 3"

section \<open>memlayout.h and the page macros of mmu.h\<close>

definition EXTMEM :: u32 where [simp]: "EXTMEM = 0x100000"
definition PHYSTOP :: u32 where [simp]: "PHYSTOP = 0xE000000"
definition DEVSPACE :: u32 where [simp]: "DEVSPACE = 0xFE000000"
definition KERNBASE :: u32 where [simp]: "KERNBASE = 0x80000000"
definition KERNLINK :: u32 where [simp]: "KERNLINK = KERNBASE + EXTMEM"
definition PGSIZE :: u32 where [simp]: "PGSIZE = 4096"

definition v2p :: "u32 \<Rightarrow> u32" where "v2p a = a - KERNBASE"
definition p2v :: "u32 \<Rightarrow> u32" where "p2v a = a + KERNBASE"

definition PGROUNDUP :: "u32 \<Rightarrow> u32" where
  "PGROUNDUP sz = (sz + PGSIZE - 1) AND NOT (PGSIZE - 1)"

definition PGROUNDDOWN :: "u32 \<Rightarrow> u32" where
  "PGROUNDDOWN a = a AND NOT (PGSIZE - 1)"

text \<open>\<^verbatim>\<open>fcntl.h\<close>.\<close>

definition O_RDONLY :: u32 where [simp]: "O_RDONLY = 0"
definition O_WRONLY :: u32 where [simp]: "O_WRONLY = 1"
definition O_RDWR :: u32 where [simp]: "O_RDWR = 2"
definition O_CREATE :: u32 where [simp]: "O_CREATE = 0x200"

lemma p2v_v2p [simp]: "p2v (v2p a) = a" "v2p (p2v a) = a"
  by (simp_all add: p2v_def v2p_def)

lemma PGROUNDDOWN_mask: "PGROUNDDOWN a = a AND NOT (mask 12)"
  by (simp add: PGROUNDDOWN_def mask_eq_exp_minus_1)

lemma PGROUNDUP_DOWN: "PGROUNDUP a = PGROUNDDOWN (a + 4095)"
  by (simp add: PGROUNDUP_def PGROUNDDOWN_def add.commute)

lemma PGROUNDDOWN_unat: "unat (PGROUNDDOWN a) = 4096 * (unat a div 4096)"
proof -
  have "PGROUNDDOWN a = push_bit 12 (drop_bit 12 a)"
    unfolding PGROUNDDOWN_mask
    by (rule bit_word_eqI) (auto simp: bit_and_iff bit_not_iff bit_push_bit_iff
      bit_drop_bit_eq bit_mask_iff)
  then have "PGROUNDDOWN a = 4096 * (a div 4096)"
    by (simp add: push_bit_eq_mult drop_bit_eq_div mult.commute)
  moreover have "4096 * (unat a div 4096) < 4294967296"
    using unat32_lt [of a] by linarith
  ultimately show ?thesis
    by (simp add: unat_word_ariths)
qed

lemma PGROUNDUP_unat:
  assumes "unat a \<le> 4294963200"
  shows "unat (PGROUNDUP a) = 4096 * ((unat a + 4095) div 4096)"
proof -
  have "unat (a + 4095) = unat a + 4095"
    using assms by (simp add: unat_word_ariths)
  then show ?thesis by (simp add: PGROUNDUP_DOWN PGROUNDDOWN_unat)
qed

end
