(* ===== verification/Spinlock.thy ===== *)
theory Spinlock
  imports Params
begin

text \<open>
  \<^verbatim>\<open>spinlock.c\<close>: mutual exclusion locks and the nested disabling of interrupts.

  The state of the locks and of the CPUs is one record, \<open>lkstate\<close>: the per-CPU fields of
  \<^verbatim>\<open>struct cpu\<close> that the code reads (\<^verbatim>\<open>ncli\<close>, \<^verbatim>\<open>intena\<close>, the current process), the interrupt flag
  of EFLAGS, and every \<^verbatim>\<open>struct spinlock\<close> of the kernel by name. It is the first field of the
  kernel state \<open>mach\<close>, which the other components extend. The array \<^verbatim>\<open>pcs\<close> of a lock is a
  debugging trace that no code reads; it is left out.

  The operations are composed of the atomic steps that other CPUs can observe, so that the
  same definitions serve the sequential model of the kernel and the interleaving of
  several CPUs, for which mutual exclusion is proved.
\<close>

section \<open>State\<close>

datatype lock =
    PtableLock | BcacheLock | LogLock | IcacheLock | FtableLock | KmemLock | IdeLock
  | TicksLock | ConsLock | InputLock | PipeLock u32

record spinlock =
  locked :: u32
  lcpu :: "nat option"

record cpu =
  ncli :: int
  intena :: bool
  iflag :: bool
  cproc :: "nat option"

record lkstate =
  cpus :: "nat \<Rightarrow> cpu"
  me :: nat
  locks :: "lock \<Rightarrow> spinlock"

record mach =
  lk :: lkstate

abbreviation mycpu :: "'z mach_scheme \<Rightarrow> cpu" where
  "mycpu s \<equiv> cpus (lk s) (me (lk s))"

definition set_cpu :: "(cpu \<Rightarrow> cpu) \<Rightarrow> lkstate \<Rightarrow> lkstate" where
  "set_cpu f k = k\<lparr>cpus := (cpus k)(me k := f (cpus k (me k)))\<rparr>"

definition set_lock :: "lock \<Rightarrow> (spinlock \<Rightarrow> spinlock) \<Rightarrow> lkstate \<Rightarrow> lkstate" where
  "set_lock l f k = k\<lparr>locks := (locks k)(l := f (locks k l))\<rparr>"

definition free_lock :: spinlock where
  "free_lock = \<lparr>locked = 0, lcpu = None\<rparr>"

section \<open>Operations\<close>

definition initlock :: "lock \<Rightarrow> ('z mach_scheme, unit) kern" where
  "initlock l = modk (\<lambda>s. s\<lparr>lk := set_lock l (\<lambda>_. free_lock) (lk s)\<rparr>)"

definition holding :: "lock \<Rightarrow> ('z mach_scheme, bool) kern" where
  "holding l = readk (\<lambda>s. locked (locks (lk s) l) \<noteq> 0 \<and> lcpu (locks (lk s) l) = Some (me (lk s)))"

definition pushcli :: "('z mach_scheme, unit) kern" where
  "pushcli =
     bindk (readk (\<lambda>s. iflag (mycpu s))) (\<lambda>eflags.
     thenk (modk (\<lambda>s. s\<lparr>lk := set_cpu (\<lambda>c. c\<lparr>iflag := False\<rparr>) (lk s)\<rparr>))
     (modk (\<lambda>s. s\<lparr>lk := set_cpu (\<lambda>c. if ncli c = 0
         then c\<lparr>ncli := ncli c + 1, intena := eflags\<rparr>
         else c\<lparr>ncli := ncli c + 1\<rparr>) (lk s)\<rparr>)))"

definition popcli :: "('z mach_scheme, unit) kern" where
  "popcli =
     bindk (readk (\<lambda>s. iflag (mycpu s))) (\<lambda>eflags.
     if eflags then panic ''popcli - interruptible'' else
     thenk (modk (\<lambda>s. s\<lparr>lk := set_cpu (\<lambda>c. c\<lparr>ncli := ncli c - 1\<rparr>) (lk s)\<rparr>))
     (bindk (readk (\<lambda>s. mycpu s)) (\<lambda>c.
      if ncli c < 0 then panic ''popcli'' else
      whenk (ncli c = 0 \<and> intena c)
        (modk (\<lambda>s. s\<lparr>lk := set_cpu (\<lambda>c. c\<lparr>iflag := True\<rparr>) (lk s)\<rparr>)))))"

text \<open>The three parts of \<open>acquire\<close>: disable interrupts and refuse a lock this CPU already
  holds; one atomic exchange (the loop spins while it returns a non-zero value); record
  the holder.\<close>

definition acq_enter :: "lock \<Rightarrow> ('z mach_scheme, unit) kern" where
  "acq_enter l =
     thenk pushcli (bindk (holding l) (\<lambda>h. if h then panic ''acquire'' else retk ()))"

definition acq_xchg :: "lock \<Rightarrow> ('z mach_scheme, unit) kern" where
  "acq_xchg l =
     bindk (readk (\<lambda>s. locked (locks (lk s) l))) (\<lambda>old.
     if old \<noteq> 0 then spink
     else modk (\<lambda>s. s\<lparr>lk := set_lock l (\<lambda>x. x\<lparr>locked := 1\<rparr>) (lk s)\<rparr>))"

definition acq_record :: "lock \<Rightarrow> ('z mach_scheme, unit) kern" where
  "acq_record l = modk (\<lambda>s. s\<lparr>lk := set_lock l (\<lambda>x. x\<lparr>lcpu := Some (me (lk s))\<rparr>) (lk s)\<rparr>)"

definition acquire :: "lock \<Rightarrow> ('z mach_scheme, unit) kern" where
  "acquire l = thenk (acq_enter l) (thenk (acq_xchg l) (acq_record l))"

text \<open>The two parts of \<open>release\<close>: check and clear the holder; exchange in 0 and re-enable
  interrupts.\<close>

definition rel_clear :: "lock \<Rightarrow> ('z mach_scheme, unit) kern" where
  "rel_clear l =
     bindk (holding l) (\<lambda>h. if \<not> h then panic ''release'' else
     modk (\<lambda>s. s\<lparr>lk := set_lock l (\<lambda>x. x\<lparr>lcpu := None\<rparr>) (lk s)\<rparr>))"

definition rel_xchg :: "lock \<Rightarrow> ('z mach_scheme, unit) kern" where
  "rel_xchg l =
     thenk (modk (\<lambda>s. s\<lparr>lk := set_lock l (\<lambda>x. x\<lparr>locked := 0\<rparr>) (lk s)\<rparr>)) popcli"

definition release :: "lock \<Rightarrow> ('z mach_scheme, unit) kern" where
  "release l = thenk (rel_clear l) (rel_xchg l)"

section \<open>Closed forms\<close>

text \<open>What a successful \<open>acquire\<close> and \<open>release\<close> do to \<open>lkstate\<close>.\<close>

definition lk_acq :: "lock \<Rightarrow> lkstate \<Rightarrow> lkstate" where
  "lk_acq l k = set_lock l (\<lambda>_. \<lparr>locked = 1, lcpu = Some (me k)\<rparr>)
     (set_cpu (\<lambda>c. c\<lparr>iflag := False, ncli := ncli c + 1,
        intena := (if ncli c = 0 then iflag c else intena c)\<rparr>) k)"

definition lk_rel :: "lock \<Rightarrow> lkstate \<Rightarrow> lkstate" where
  "lk_rel l k = set_lock l (\<lambda>_. free_lock)
     (set_cpu (\<lambda>c. c\<lparr>ncli := ncli c - 1, iflag := (ncli c = 1 \<and> intena c)\<rparr>) k)"

text \<open>\<open>unl l k\<close>: nobody holds \<open>l\<close>. \<open>wf_cli k\<close>: what \<open>pushcli\<close> and \<open>popcli\<close> keep of
  the current CPU: the nesting depth is not negative, interrupts are off inside a nest, and
  outside one the saved flag is the current one.\<close>

definition unl :: "lock \<Rightarrow> lkstate \<Rightarrow> bool" where
  "unl l k \<longleftrightarrow> locks k l = free_lock"

definition heldme :: "lock \<Rightarrow> lkstate \<Rightarrow> bool" where
  "heldme l k \<longleftrightarrow> locks k l = \<lparr>locked = 1, lcpu = Some (me k)\<rparr>"

definition wf_cli :: "lkstate \<Rightarrow> bool" where
  "wf_cli k \<longleftrightarrow> (let c = cpus k (me k) in
     0 \<le> ncli c \<and> (ncli c = 0 \<longrightarrow> intena c = iflag c) \<and> (0 < ncli c \<longrightarrow> \<not> iflag c))"

text \<open>The normal situation of kernel code between critical sections: no spinlock is held.\<close>

definition quiet :: "'z mach_scheme \<Rightarrow> bool" where
  "quiet s \<longleftrightarrow> wf_cli (lk s) \<and> (\<forall>l. unl l (lk s))"

text \<open>Reads and updates of the two halves of \<open>lkstate\<close>; updates of a CPU move inwards.\<close>

lemma set_cpu_simps [simp]:
  "cpus (set_cpu f k) c = (if c = me k then f (cpus k c) else cpus k c)"
  "me (set_cpu f k) = me k"
  "locks (set_cpu f k) = locks k"
  "set_cpu f (set_cpu g k) = set_cpu (\<lambda>c. f (g c)) k"
  by (simp_all add: set_cpu_def)

lemma set_lock_simps [simp]:
  "cpus (set_lock l f k) = cpus k"
  "me (set_lock l f k) = me k"
  "locks (set_lock l f k) l' = (if l' = l then f (locks k l) else locks k l')"
  "set_lock l f (set_lock l g k) = set_lock l (\<lambda>x. f (g x)) k"
  "set_cpu h (set_lock l f k) = set_lock l f (set_cpu h k)"
  by (simp_all add: set_lock_def set_cpu_def)

lemma set_cpu_cong: "f (cpus k (me k)) = g (cpus k (me k)) \<Longrightarrow> set_cpu f k = set_cpu g k"
  by (simp add: set_cpu_def)

lemma set_lock_cong: "f (locks k l) = g (locks k l) \<Longrightarrow> set_lock l f k = set_lock l g k"
  by (simp add: set_lock_def)

lemma set_cpu_id: "f (cpus k (me k)) = cpus k (me k) \<Longrightarrow> set_cpu f k = k"
  by (simp add: set_cpu_def fun_upd_idem)

lemma set_lock_id: "f (locks k l) = locks k l \<Longrightarrow> set_lock l f k = k"
  by (simp add: set_lock_def fun_upd_idem)

lemma lk_update_cong: "k = k' \<Longrightarrow> s\<lparr>lk := k\<rparr> = s\<lparr>lk := k'\<rparr>"
  by simp

lemma pushcli_run:
  "pushcli s = Ok () (s\<lparr>lk := set_cpu (\<lambda>c. c\<lparr>iflag := False, ncli := ncli c + 1,
     intena := (if ncli c = 0 then iflag c else intena c)\<rparr>) (lk s)\<rparr>)"
  by (simp add: pushcli_def) (intro lk_update_cong set_cpu_cong, simp)

lemma acquire_ok: "unl l (lk s) \<Longrightarrow> acquire l s = Ok () (s\<lparr>lk := lk_acq l (lk s)\<rparr>)"
  by (simp add: acquire_def acq_enter_def acq_xchg_def acq_record_def pushcli_run unl_def
    holding_def free_lock_def lk_acq_def) (intro lk_update_cong set_lock_cong, simp)

lemma popcli_run:
  assumes "\<not> iflag (mycpu s)" and "0 < ncli (mycpu s)"
  shows "popcli s = Ok () (s\<lparr>lk := set_cpu (\<lambda>c. c\<lparr>ncli := ncli c - 1,
     iflag := (ncli c = 1 \<and> intena c)\<rparr>) (lk s)\<rparr>)"
proof (cases "ncli (mycpu s) = 1 \<and> intena (mycpu s)")
  case True
  with assms show ?thesis
    by (simp add: popcli_def) (intro lk_update_cong set_cpu_cong, simp)
next
  case False
  then have "(ncli (mycpu s) = 1 \<and> intena (mycpu s)) = False" by blast
  with assms show ?thesis
    by (simp add: popcli_def whenk_def del: de_Morgan_conj)
      (intro lk_update_cong set_cpu_cong, simp)
qed

lemma release_ok:
  assumes "heldme l (lk s)" and "wf_cli (lk s)" and "0 < ncli (mycpu s)"
  shows "release l s = Ok () (s\<lparr>lk := lk_rel l (lk s)\<rparr>)"
proof -
  from assms have "\<not> iflag (mycpu s)" by (simp add: wf_cli_def Let_def)
  with assms show ?thesis
    by (simp add: release_def rel_clear_def rel_xchg_def holding_def heldme_def popcli_run
      lk_rel_def) (intro lk_update_cong set_lock_cong, simp add: free_lock_def)
qed

lemma lk_acq_simps [simp]:
  "heldme l (lk_acq l k)"
  "me (lk_acq l k) = me k"
  "unl l' (lk_acq l k) \<longleftrightarrow> l' \<noteq> l \<and> unl l' k"
  "l' \<noteq> l \<Longrightarrow> heldme l' (lk_acq l k) = heldme l' k"
  "cproc (cpus (lk_acq l k) c) = cproc (cpus k c)"
  by (simp_all add: lk_acq_def heldme_def unl_def free_lock_def)

lemma lk_acq_wf [simp]:
  "wf_cli k \<Longrightarrow> wf_cli (lk_acq l k)"
  "wf_cli k \<Longrightarrow> c = me k \<Longrightarrow> 0 < ncli (cpus (lk_acq l k) c)"
  by (simp_all add: lk_acq_def wf_cli_def Let_def)

text \<open>Taking a free lock and giving it back leaves the locks and the CPU as they were.\<close>

lemma lk_rel_acq [simp]:
  assumes "unl l k" and "wf_cli k"
  shows "lk_rel l (lk_acq l k) = k"
proof -
  let ?f = "\<lambda>c :: cpu. c\<lparr>iflag := (ncli c = 0 \<and> (if ncli c = 0 then iflag c else intena c)),
      intena := (if ncli c = 0 then iflag c else intena c)\<rparr>"
  have "lk_rel l (lk_acq l k) = set_lock l (\<lambda>_. free_lock) (set_cpu ?f k)"
    unfolding lk_rel_def lk_acq_def set_lock_simps set_cpu_simps
    by (intro arg_cong [where f = "set_lock l _"] set_cpu_cong) simp
  also have "set_cpu ?f k = k"
    using assms(2) by (intro set_cpu_id) (auto simp: wf_cli_def Let_def)
  also have "set_lock l (\<lambda>_. free_lock) k = k"
    using assms(1) by (intro set_lock_id) (simp add: unl_def)
  finally show ?thesis .
qed

text \<open>Taking one lock and giving back another.\<close>

lemma lk_rel_swap:
  assumes "unl l k" "wf_cli k" "l' \<noteq> l"
  shows "lk_rel l (lk_acq l' (lk_acq l k)) = lk_acq l' k"
proof -
  have "locks k l = free_lock" using assms(1) by (simp add: unl_def)
  then show ?thesis
    using assms(2,3)
    by (auto simp: lk_rel_def lk_acq_def set_lock_def set_cpu_def wf_cli_def Let_def fun_eq_iff intro!: lkstate.equality)
qed

lemma release_acq:
  assumes "lk s = lk_acq l k" and "unl l k" and "wf_cli k"
  shows "release l s = Ok () (s\<lparr>lk := k\<rparr>)"
  using assms by (simp add: release_ok)

lemma quiet_unl [simp]: "quiet s \<Longrightarrow> unl l (lk s)"
  by (simp add: quiet_def)

lemma quiet_wf_cli [simp]: "quiet s \<Longrightarrow> wf_cli (lk s)"
  by (simp add: quiet_def)

lemma quiet_cong: "lk s = lk t \<Longrightarrow> quiet s = quiet t"
  unfolding quiet_def by simp

section \<open>The contract of a lock\<close>

text \<open>
  What a client of a lock relies on: taking a free lock succeeds, and giving it back undoes
  what taking it did. A critical section whose body does not look at the lock then runs as
  its body alone.
\<close>

locale lock_discipline =
  fixes acq :: "'l \<Rightarrow> ('s, unit) kern"
    and rel :: "'l \<Rightarrow> ('s, unit) kern"
    and free :: "'l \<Rightarrow> 's \<Rightarrow> bool"
    and enter :: "'l \<Rightarrow> 's \<Rightarrow> 's"
  assumes acq_free: "free l s \<Longrightarrow> acq l s = Ok () (enter l s)"
    and rel_enter: "free l s \<Longrightarrow> rel l (enter l s) = Ok () s"
begin

lemma critical_section:
  assumes "free l s" and "free l t" and "m (enter l s) = Ok r (enter l t)"
  shows "thenk (acq l) (bindk m (\<lambda>x. thenk (rel l) (retk x))) s = Ok r t"
  using assms by (simp add: acq_free rel_enter)

lemma critical_update:
  assumes "free l s" and "free l (f s)" and "f (enter l s) = enter l (f s)"
  shows "thenk (acq l) (thenk (modk f) (rel l)) s = Ok () (f s)"
  using assms by (simp add: acq_free rel_enter)

end

definition lk_free :: "lock \<Rightarrow> 'z mach_scheme \<Rightarrow> bool" where
  "lk_free l s \<longleftrightarrow> unl l (lk s) \<and> wf_cli (lk s)"

definition lk_enter :: "lock \<Rightarrow> 'z mach_scheme \<Rightarrow> 'z mach_scheme" where
  "lk_enter l s = s\<lparr>lk := lk_acq l (lk s)\<rparr>"

interpretation spin: lock_discipline acquire release lk_free lk_enter
  by unfold_locales (simp_all add: lk_free_def lk_enter_def acquire_ok release_ok)

section \<open>Several CPUs\<close>

text \<open>
  Each CPU is at a point of \<open>acquire\<close> or \<open>release\<close>, or outside both. \<open>owns c\<close> is the set
  of locks whose exchange in \<open>acquire\<close> the CPU \<open>c\<close> has won and whose exchange in
  \<open>release\<close> it has not yet made. A step is one atomic part of an operation, run by one CPU.
\<close>

datatype phase = Running | Spinning lock | Taken lock | Clearing lock

record smp = mach +
  phase :: "nat \<Rightarrow> phase"
  owns :: "nat \<Rightarrow> lock set"

definition on_cpu :: "nat \<Rightarrow> 'z mach_scheme \<Rightarrow> 'z mach_scheme" where
  "on_cpu c s = s\<lparr>lk := (lk s)\<lparr>me := c\<rparr>\<rparr>"

inductive smp_step :: "smp \<Rightarrow> smp \<Rightarrow> bool" where
  enter: "phase s c = Running \<Longrightarrow> acq_enter l (on_cpu c s) = Ok () t \<Longrightarrow>
    smp_step s (t\<lparr>phase := (phase t)(c := Spinning l)\<rparr>)"
| spin: "phase s c = Spinning l \<Longrightarrow> acq_xchg l (on_cpu c s) = Spin \<Longrightarrow> smp_step s s"
| take: "phase s c = Spinning l \<Longrightarrow> acq_xchg l (on_cpu c s) = Ok () t \<Longrightarrow>
    smp_step s (t\<lparr>phase := (phase t)(c := Taken l), owns := (owns t)(c := insert l (owns t c))\<rparr>)"
| holder: "phase s c = Taken l \<Longrightarrow> acq_record l (on_cpu c s) = Ok () t \<Longrightarrow>
    smp_step s (t\<lparr>phase := (phase t)(c := Running)\<rparr>)"
| clear: "phase s c = Running \<Longrightarrow> rel_clear l (on_cpu c s) = Ok () t \<Longrightarrow>
    smp_step s (t\<lparr>phase := (phase t)(c := Clearing l)\<rparr>)"
| give: "phase s c = Clearing l \<Longrightarrow> rel_xchg l (on_cpu c s) = Ok () t \<Longrightarrow>
    smp_step s (t\<lparr>phase := (phase t)(c := Running), owns := (owns t)(c := owns t c - {l})\<rparr>)"

definition smp_init :: "smp \<Rightarrow> bool" where
  "smp_init s \<longleftrightarrow> (\<forall>l. unl l (lk s)) \<and> (\<forall>c. phase s c = Running \<and> owns s c = {})"

inductive smp_reach :: "smp \<Rightarrow> bool" where
  init: "smp_init s \<Longrightarrow> smp_reach s"
| step: "smp_reach s \<Longrightarrow> smp_step s t \<Longrightarrow> smp_reach t"

text \<open>The invariant: the word \<^verbatim>\<open>locked\<close> says whether the lock has an owner, there is at most
  one, and \<^verbatim>\<open>lk->cpu\<close> names it except inside the two windows where it is not yet or no
  longer recorded.\<close>

definition owner_inv ::
  "(lock \<Rightarrow> spinlock) \<Rightarrow> (nat \<Rightarrow> phase) \<Rightarrow> (nat \<Rightarrow> lock set) \<Rightarrow> bool" where
  "owner_inv L P W \<longleftrightarrow>
     (\<forall>l. (locked (L l) = 0) = (\<forall>c. l \<notin> W c)) \<and>
     (\<forall>l c d. l \<in> W c \<longrightarrow> l \<in> W d \<longrightarrow> c = d) \<and>
     (\<forall>l c. (lcpu (L l) = Some c) = (l \<in> W c \<and> P c \<noteq> Taken l \<and> P c \<noteq> Clearing l)) \<and>
     (\<forall>l c. P c = Taken l \<or> P c = Clearing l \<longrightarrow> l \<in> W c)"

lemma owner_invD:
  assumes "owner_inv L P W"
  shows "(locked (L l) = 0) = (\<forall>c. l \<notin> W c)"
    and "l \<in> W c \<Longrightarrow> l \<in> W d \<Longrightarrow> c = d"
    and "(lcpu (L l) = Some c) = (l \<in> W c \<and> P c \<noteq> Taken l \<and> P c \<noteq> Clearing l)"
  using assms unfolding owner_inv_def by blast+

definition smp_inv :: "smp \<Rightarrow> bool" where
  "smp_inv s \<longleftrightarrow> owner_inv (locks (lk s)) (phase s) (owns s)"

text \<open>What each atomic part does to the locks; it touches neither \<open>phase\<close> nor \<open>owns\<close>.\<close>

lemmas smp_part_defs = acq_enter_def acq_xchg_def acq_record_def rel_clear_def rel_xchg_def
  holding_def pushcli_run on_cpu_def

lemma acq_enter_effect:
  fixes s :: smp
  assumes "acq_enter l (on_cpu c s) = Ok () t"
  shows "locks (lk t) = locks (lk s)" and "phase t = phase s" and "owns t = owns s"
  using assms by (simp_all add: smp_part_defs split: if_splits) auto

lemma acq_xchg_effect:
  fixes s :: smp
  assumes "acq_xchg l (on_cpu c s) = Ok () t"
  shows "locked (locks (lk s) l) = 0"
    and "locks (lk t) = (locks (lk s))(l := (locks (lk s) l)\<lparr>locked := 1\<rparr>)"
    and "phase t = phase s" and "owns t = owns s"
  using assms by (auto simp: smp_part_defs set_lock_def split: if_splits)

lemma acq_record_effect:
  fixes s :: smp
  assumes "acq_record l (on_cpu c s) = Ok () t"
  shows "locks (lk t) = (locks (lk s))(l := (locks (lk s) l)\<lparr>lcpu := Some c\<rparr>)"
    and "phase t = phase s" and "owns t = owns s"
  using assms by (auto simp: smp_part_defs set_lock_def split: if_splits)

lemma rel_clear_effect:
  fixes s :: smp
  assumes "rel_clear l (on_cpu c s) = Ok () t"
  shows "locked (locks (lk s) l) \<noteq> 0" and "lcpu (locks (lk s) l) = Some c"
    and "locks (lk t) = (locks (lk s))(l := (locks (lk s) l)\<lparr>lcpu := None\<rparr>)"
    and "phase t = phase s" and "owns t = owns s"
  using assms by (auto simp: smp_part_defs set_lock_def split: if_splits)

lemma rel_xchg_effect:
  fixes s :: smp
  assumes "rel_xchg l (on_cpu c s) = Ok () t"
  shows "locks (lk t) = (locks (lk s))(l := (locks (lk s) l)\<lparr>locked := 0\<rparr>)"
    and "phase t = phase s" and "owns t = owns s"
  using assms by (auto simp: smp_part_defs popcli_def whenk_def set_lock_def split: if_splits)

text \<open>The invariant under each of these changes.\<close>

lemma owner_inv_take:
  "owner_inv L P W \<Longrightarrow> locked (L l) = 0 \<Longrightarrow> P c = Spinning l \<Longrightarrow>
   owner_inv (L(l := (L l)\<lparr>locked := 1\<rparr>)) (P(c := Taken l)) (W(c := insert l (W c)))"
  unfolding owner_inv_def by (simp split: if_splits) blast

lemma owner_inv_holder:
  "owner_inv L P W \<Longrightarrow> P c = Taken l \<Longrightarrow>
   owner_inv (L(l := (L l)\<lparr>lcpu := Some c\<rparr>)) (P(c := Running)) W"
  unfolding owner_inv_def by (simp split: if_splits) blast

lemma owner_inv_clear:
  "owner_inv L P W \<Longrightarrow> P c = Running \<Longrightarrow> lcpu (L l) = Some c \<Longrightarrow>
   owner_inv (L(l := (L l)\<lparr>lcpu := None\<rparr>)) (P(c := Clearing l)) W"
  unfolding owner_inv_def by (simp split: if_splits)

lemma owner_inv_give:
  "owner_inv L P W \<Longrightarrow> P c = Clearing l \<Longrightarrow>
   owner_inv (L(l := (L l)\<lparr>locked := 0\<rparr>)) (P(c := Running)) (W(c := W c - {l}))"
  unfolding owner_inv_def by (auto split: if_splits)

lemma owner_inv_enter:
  "owner_inv L P W \<Longrightarrow> P c = Running \<Longrightarrow> owner_inv L (P(c := Spinning l)) W"
  unfolding owner_inv_def by (simp split: if_splits)

lemma smp_inv_init: "smp_init s \<Longrightarrow> smp_inv s"
  by (simp add: smp_init_def smp_inv_def owner_inv_def unl_def free_lock_def)

lemma smp_inv_step: "smp_step s t \<Longrightarrow> smp_inv s \<Longrightarrow> smp_inv t"
proof (induction rule: smp_step.induct)
  case (enter s c l t)
  then show ?case
    by (simp add: smp_inv_def acq_enter_effect [OF enter(2)] owner_inv_enter)
next
  case (spin s c l)
  then show ?case by simp
next
  case (take s c l t)
  then show ?case
    by (simp add: smp_inv_def acq_xchg_effect [OF take(2)] owner_inv_take)
next
  case (holder s c l t)
  then show ?case
    by (simp add: smp_inv_def acq_record_effect [OF holder(2)] owner_inv_holder)
next
  case (clear s c l t)
  then show ?case
    by (simp add: smp_inv_def rel_clear_effect [OF clear(2)] owner_inv_clear)
next
  case (give s c l t)
  then show ?case
    by (simp add: smp_inv_def rel_xchg_effect [OF give(2)] owner_inv_give)
qed

lemma smp_reach_inv: "smp_reach s \<Longrightarrow> smp_inv s"
  by (induction rule: smp_reach.induct) (auto intro: smp_inv_init smp_inv_step)

section \<open>Properties\<close>

definition owners :: "smp \<Rightarrow> lock \<Rightarrow> nat set" where
  "owners s l = {c. l \<in> owns s c}"

text \<open>C8: In every reachable state of any number of CPUs interleaving the steps of \<open>acquire\<close>
  and \<open>release\<close>, a lock is either free and owned by nobody, or taken and owned by exactly
  one CPU. Outside the two functions, \<open>release\<close> passes its check exactly on the owner (any
  other CPU panics), and a second \<open>acquire\<close> panics exactly on the owner.\<close>

theorem spinlock_mutual_exclusion:
  assumes "smp_reach s" and "phase s c = Running"
  shows "((locked (locks (lk s) l) = 0 \<and> owners s l = {})
      \<or> (locked (locks (lk s) l) \<noteq> 0 \<and> (\<exists>d. owners s l = {d})))
    \<and> (rel_clear l (on_cpu c s) = Panic ''release'' \<longleftrightarrow> c \<notin> owners s l)
    \<and> (acq_enter l (on_cpu c s) = Panic ''acquire'' \<longleftrightarrow> c \<in> owners s l)"
proof -
  note inv = smp_reach_inv [OF assms(1), unfolded smp_inv_def]
  have free: "locked (locks (lk s) l) = 0 \<longleftrightarrow> owners s l = {}"
    using owner_invD(1) [OF inv, of l] by (auto simp: owners_def)
  have one: "owners s l \<noteq> {} \<Longrightarrow> \<exists>d. owners s l = {d}"
    using owner_invD(2) [OF inv, of l] by (auto simp: owners_def)
  have "lcpu (locks (lk s) l) = Some c \<longleftrightarrow> c \<in> owners s l"
    using owner_invD(3) [OF inv, of l c] assms(2) by (simp add: owners_def)
  moreover from this free have "lcpu (locks (lk s) l) = Some c \<Longrightarrow> locked (locks (lk s) l) \<noteq> 0"
    by auto
  ultimately show ?thesis
    using free one by (auto simp: smp_part_defs)
qed

text \<open>A machine with interrupts on and every lock free.\<close>

definition lk0 :: lkstate where
  "lk0 = \<lparr>cpus = (\<lambda>_. \<lparr>ncli = 0, intena = True, iflag = True, cproc = Some 0\<rparr>), me = 0,
     locks = (\<lambda>_. free_lock)\<rparr>"

lemma lk0_simps [simp]:
  "unl l lk0" "wf_cli lk0" "locks lk0 l = free_lock" "me lk0 = 0" "cproc (cpus lk0 c) = Some 0"
  by (simp_all add: lk0_def unl_def wf_cli_def)

lemma quiet_lk0: "lk s = lk0 \<Longrightarrow> quiet s"
  unfolding quiet_def by simp

definition smp0 :: smp where
  "smp0 = \<lparr>lk = lk0, phase = (\<lambda>_. Running), owns = (\<lambda>_. {})\<rparr>"

lemma smp0_takes: "\<exists>s. smp_reach s \<and> phase s 1 = Running \<and> owners s BcacheLock = {0}"
proof -
  have "smp_reach smp0"
    by (intro smp_reach.init) (simp add: smp_init_def smp0_def unl_def)
  moreover obtain t where t: "acq_enter BcacheLock (on_cpu 0 smp0) = Ok () t"
    by (simp add: smp_part_defs smp0_def free_lock_def)
  moreover have "phase smp0 0 = Running" by (simp add: smp0_def)
  ultimately have "smp_reach (t\<lparr>phase := (phase t)(0 := Spinning BcacheLock)\<rparr>)" (is "smp_reach ?t")
    by (blast intro: smp_reach.step smp_step.enter)
  moreover have "locked (locks (lk ?t) BcacheLock) = 0"
    by (simp add: acq_enter_effect [OF t] smp0_def free_lock_def)
  then obtain u where u: "acq_xchg BcacheLock (on_cpu 0 ?t) = Ok () u"
    by (simp add: smp_part_defs)
  moreover have "phase ?t 0 = Spinning BcacheLock" by simp
  ultimately have "smp_reach (u\<lparr>phase := (phase u)(0 := Taken BcacheLock),
      owns := (owns u)(0 := insert BcacheLock (owns u 0))\<rparr>)" (is "smp_reach ?u")
    by (blast intro: smp_reach.step smp_step.take)
  moreover have "phase ?u 1 = Running" "owners ?u BcacheLock = {0}"
    using acq_xchg_effect(3,4) [OF u]
    by (simp_all add: owners_def acq_enter_effect [OF t] smp0_def)
  ultimately show ?thesis by blast
qed

theorem spinlock_mutual_exclusion_witness:
  "\<exists>s. smp_reach s \<and> phase s 1 = Running \<and> owners s BcacheLock = {0}
     \<and> rel_clear BcacheLock (on_cpu 1 s) = Panic ''release''"
proof -
  obtain s where s: "smp_reach s" "phase s 1 = Running" "owners s BcacheLock = {0}"
    using smp0_takes by blast
  then have "rel_clear BcacheLock (on_cpu 1 s) = Panic ''release''"
    using spinlock_mutual_exclusion [OF s(1,2), of BcacheLock] by simp
  with s show ?thesis by blast
qed



end
