(* ===== verification/Kalloc.thy ===== *)
theory Kalloc
  imports Spinlock
begin

text \<open>
  \<^verbatim>\<open>kalloc.c\<close>: the physical page allocator. Physical memory is a byte function on kernel
  virtual addresses; the free list is threaded through the free pages themselves, as in the
  code: the first word of a free page is the address of the next one.
\<close>

section \<open>Memory\<close>

definition mload32 :: "(u32 \<Rightarrow> u8) \<Rightarrow> u32 \<Rightarrow> u32" where
  "mload32 m a = get32 (\<lambda>i. m (a + of_nat i)) 0"

definition mstore32 :: "(u32 \<Rightarrow> u8) \<Rightarrow> u32 \<Rightarrow> u32 \<Rightarrow> (u32 \<Rightarrow> u8)" where
  "mstore32 m a w = m(a := ucast w, a + 1 := ucast (drop_bit 8 w),
     a + 2 := ucast (drop_bit 16 w), a + 3 := ucast (drop_bit 24 w))"

text \<open>\<open>memset(a, c, n)\<close> on physical memory.\<close>

definition mset_mem :: "(u32 \<Rightarrow> u8) \<Rightarrow> u32 \<Rightarrow> u8 \<Rightarrow> nat \<Rightarrow> (u32 \<Rightarrow> u8)" where
  "mset_mem m a c n = (\<lambda>x. if unat (x - a) < n then c else m x)"

record kmach = mach +
  pmem :: "u32 \<Rightarrow> u8"
  use_lock :: bool
  freelist :: u32
  kend :: u32

section \<open>Operations\<close>

definition kfree :: "u32 \<Rightarrow> ('z kmach_scheme, unit) kern" where
  "kfree v =
     bindk (readk kend) (\<lambda>e.
     if v mod PGSIZE \<noteq> 0 \<or> v < e \<or> PHYSTOP \<le> v2p v then panic ''kfree'' else
     thenk (modk (\<lambda>s. s\<lparr>pmem := mset_mem (pmem s) v 1 4096\<rparr>))
     (bindk (readk use_lock) (\<lambda>ul.
     thenk (whenk ul (acquire KmemLock))
     (thenk (modk (\<lambda>s. s\<lparr>pmem := mstore32 (pmem s) v (freelist s)\<rparr>))
     (thenk (modk (\<lambda>s. s\<lparr>freelist := v\<rparr>))
     (whenk ul (release KmemLock)))))))"

definition kalloc :: "('z kmach_scheme, u32) kern" where
  "kalloc =
     bindk (readk use_lock) (\<lambda>ul.
     thenk (whenk ul (acquire KmemLock))
     (bindk (readk freelist) (\<lambda>r.
     thenk (whenk (r \<noteq> 0) (modk (\<lambda>s. s\<lparr>freelist := mload32 (pmem s) r\<rparr>)))
     (thenk (whenk ul (release KmemLock))
     (retk r)))))"

text \<open>The loop of \<open>freerange\<close>. A 32-bit pointer stepping by a page comes back to its start
  after \<open>2 ^ 20\<close> rounds, so more rounds than that never end.\<close>

fun freerange_loop :: "nat \<Rightarrow> u32 \<Rightarrow> u32 \<Rightarrow> ('z kmach_scheme, unit) kern" where
  "freerange_loop 0 p vend = spink"
| "freerange_loop (Suc fuel) p vend =
     (if p + PGSIZE \<le> vend
      then thenk (kfree p) (freerange_loop fuel (p + PGSIZE) vend)
      else retk ())"

definition freerange :: "u32 \<Rightarrow> u32 \<Rightarrow> ('z kmach_scheme, unit) kern" where
  "freerange vstart vend = freerange_loop (2 ^ 20 + 1) (PGROUNDUP vstart) vend"

definition kinit1 :: "u32 \<Rightarrow> u32 \<Rightarrow> ('z kmach_scheme, unit) kern" where
  "kinit1 vstart vend =
     thenk (initlock KmemLock)
     (thenk (modk (\<lambda>s. s\<lparr>use_lock := False\<rparr>))
     (freerange vstart vend))"

definition kinit2 :: "u32 \<Rightarrow> u32 \<Rightarrow> ('z kmach_scheme, unit) kern" where
  "kinit2 vstart vend =
     thenk (freerange vstart vend) (modk (\<lambda>s. s\<lparr>use_lock := True\<rparr>))"

section \<open>The free list as a list of pages\<close>

fun flist :: "(u32 \<Rightarrow> u8) \<Rightarrow> u32 \<Rightarrow> u32 list \<Rightarrow> bool" where
  "flist m r [] = (r = 0)"
| "flist m r (p # ps) = (r = p \<and> p \<noteq> 0 \<and> flist m (mload32 m p) ps)"

text \<open>What \<open>kfree\<close> accepts.\<close>

definition page_ok :: "'z kmach_scheme \<Rightarrow> u32 \<Rightarrow> bool" where
  "page_ok s p \<longleftrightarrow> p mod PGSIZE = 0 \<and> kend s \<le> p \<and> v2p p < PHYSTOP"

definition kmem_inv :: "'z kmach_scheme \<Rightarrow> u32 list \<Rightarrow> bool" where
  "kmem_inv s ps \<longleftrightarrow> flist (pmem s) (freelist s) ps \<and> distinct ps \<and> (\<forall>p \<in> set ps. page_ok s p)"

lemma page_ok_nz: "page_ok s p \<Longrightarrow> p \<noteq> 0"
  by (auto simp: page_ok_def v2p_def)

lemma mload32_mstore32 [simp]: "mload32 (mstore32 m a w) a = w"
  using get32_put32 [of "\<lambda>_. 0" 0 w]
  by (simp add: mload32_def mstore32_def get32_def put32_def)

text \<open>Two different page addresses are at least a page apart.\<close>

lemma page_apart:
  fixes p v :: u32
  assumes "p mod PGSIZE = 0" and "v mod PGSIZE = 0" and "p \<noteq> v" and "i < 4096"
  shows "4096 \<le> unat (p + of_nat i - v)"
proof -
  obtain a where a: "unat p = 4096 * a"
    using assms(1) by (auto simp: mod_eq_0_iff_dvd dvd_def unat_mod simp flip: unat_eq_0)
  obtain b where b: "unat v = 4096 * b"
    using assms(2) by (auto simp: mod_eq_0_iff_dvd dvd_def unat_mod simp flip: unat_eq_0)
  have "a \<noteq> b" using a b assms(3) by (metis word_unat_eq_iff)
  have "4096 * a < 2 ^ 32" "4096 * b < 2 ^ 32"
    using unat32_lt [of p] unat32_lt [of v] a b by simp_all
  have ui: "unat (of_nat i :: u32) = i" using assms(4) by simp
  have s: "unat (p + of_nat i) = 4096 * a + i"
    using \<open>4096 * a < 2 ^ 32\<close> assms(4) a ui by (simp add: unat_word_ariths)
  show ?thesis
    using s b \<open>a \<noteq> b\<close> \<open>4096 * a < 2 ^ 32\<close> \<open>4096 * b < 2 ^ 32\<close> assms(4)
    by (simp add: unat_sub_if') linarith
qed

lemma mset_mem_other: "n \<le> unat (x - a) \<Longrightarrow> mset_mem m a c n x = m x"
  by (simp add: mset_mem_def)

lemma mstore32_other: "4 \<le> unat (x - a) \<Longrightarrow> mstore32 m a w x = m x"
  by (auto simp: mstore32_def)

lemma mload32_cong:
  "(\<And>i. i < 4 \<Longrightarrow> m (a + of_nat i) = m' (a + of_nat i)) \<Longrightarrow> mload32 m a = mload32 m' a"
  unfolding mload32_def by (rule get32_cong) simp

text \<open>Freeing a page leaves every other page as it was.\<close>

lemma freed_other:
  assumes "p mod PGSIZE = 0" and "v mod PGSIZE = 0" and "p \<noteq> v" and "i < 4096"
  shows "mstore32 (mset_mem m v c 4096) v w (p + of_nat i) = m (p + of_nat i)"
proof -
  have "4096 \<le> unat (p + of_nat i - v)" using assms by (rule page_apart)
  then show ?thesis by (simp add: mstore32_other mset_mem_other)
qed

lemma flist_freed:
  assumes "flist m r ps" and "\<forall>p \<in> set ps. p mod PGSIZE = 0" and "v mod PGSIZE = 0" and "v \<notin> set ps"
  shows "flist (mstore32 (mset_mem m v c 4096) v w) r ps"
  using assms
proof (induction ps arbitrary: r)
  case Nil
  then show ?case by simp
next
  case (Cons p ps)
  have "mload32 (mstore32 (mset_mem m v c 4096) v w) p = mload32 m p"
    using Cons.prems by (intro mload32_cong freed_other) auto
  with Cons show ?case by simp
qed

section \<open>The contract of a page allocator\<close>

text \<open>
  A client of the allocator relies on a stack of free pages: freeing pushes a page, allocating
  pops one or returns 0, and neither touches the bytes of a page that is in use.
\<close>

locale page_allocator =
  fixes alloc :: "('s, u32) kern"
    and free :: "u32 \<Rightarrow> ('s, unit) kern"
    and inv :: "'s \<Rightarrow> u32 list \<Rightarrow> bool"
    and usable :: "'s \<Rightarrow> u32 \<Rightarrow> bool"
    and mem :: "'s \<Rightarrow> u32 \<Rightarrow> u8"
  assumes alloc_nil: "inv s [] \<Longrightarrow> alloc s = Ok 0 s"
    and alloc_cons: "inv s (p # ps) \<Longrightarrow> \<exists>t. alloc s = Ok p t \<and> inv t ps \<and> mem t = mem s"
    and free_ok: "inv s ps \<Longrightarrow> usable s v \<Longrightarrow> v \<notin> set ps \<Longrightarrow>
      \<exists>t. free v s = Ok () t \<and> inv t (v # ps)
        \<and> (\<forall>p i. usable s p \<longrightarrow> p \<noteq> v \<longrightarrow> i < 4096 \<longrightarrow> mem t (p + of_nat i) = mem s (p + of_nat i))"
    and inv_usable: "inv s ps \<Longrightarrow> p \<in> set ps \<Longrightarrow> usable s p"
    and inv_distinct: "inv s ps \<Longrightarrow> distinct ps"
begin

lemma alloc_not_free:
  assumes "inv s ps" and "alloc s = Ok p t" and "p \<noteq> 0"
  shows "usable s p \<and> inv t (tl ps) \<and> p \<notin> set (tl ps) \<and> p \<in> set ps"
proof (cases ps)
  case Nil
  with assms alloc_nil show ?thesis by fastforce
next
  case (Cons q qs)
  with assms alloc_cons [of s q qs] have "q = p" "inv t qs" by auto
  with Cons assms(1) inv_usable [of s ps p] inv_distinct [of s ps] show ?thesis by auto
qed

lemma free_alloc:
  assumes "inv s ps" and "usable s v" and "v \<notin> set ps"
  shows "\<exists>t. bindk (bindk (free v) (\<lambda>_. alloc)) retk s = Ok v t \<and> inv t ps"
proof -
  obtain t where t: "free v s = Ok () t" "inv t (v # ps)"
    using free_ok [OF assms] by blast
  from alloc_cons [OF t(2)] obtain u where "alloc t = Ok v u" "inv u ps" by blast
  with t show ?thesis by simp
qed

end

definition kmem_quiet :: "'z kmach_scheme \<Rightarrow> u32 list \<Rightarrow> bool" where
  "kmem_quiet s ps \<longleftrightarrow> quiet s \<and> kmem_inv s ps"

lemma kalloc_run:
  assumes "quiet s"
  shows "kalloc s = Ok (freelist s)
    (if freelist s = 0 then s else s\<lparr>freelist := mload32 (pmem s) (freelist s)\<rparr>)"
  using assms
  by (cases "use_lock s"; cases "freelist s = 0")
    (simp_all add: kalloc_def acquire_ok release_acq)

lemma kfree_guard: "(v mod PGSIZE \<noteq> 0 \<or> v < kend s \<or> PHYSTOP \<le> v2p v) = (\<not> page_ok s v)"
  unfolding page_ok_def by (simp add: not_less not_le)

lemma kfree_run:
  assumes "quiet s" and "page_ok s v"
  shows "kfree v s = Ok ()
    (s\<lparr>pmem := mstore32 (mset_mem (pmem s) v 1 4096) v (freelist s), freelist := v\<rparr>)"
  using assms unfolding kfree_def bindk_runs kfree_guard
  by (cases "use_lock s") (simp_all add: acquire_ok release_acq)

lemma kfree_panics: "\<not> page_ok s v \<Longrightarrow> kfree v s = Panic ''kfree''"
  unfolding kfree_def bindk_runs kfree_guard by simp

interpretation kalloc: page_allocator kalloc kfree kmem_quiet page_ok pmem
proof unfold_locales
  fix s :: "'z kmach_scheme" and p ps v
  show "kmem_quiet s [] \<Longrightarrow> kalloc s = Ok 0 s"
    by (simp add: kmem_quiet_def kmem_inv_def kalloc_run)
  show "kmem_quiet s (p # ps) \<Longrightarrow> \<exists>t. kalloc s = Ok p t \<and> kmem_quiet t ps \<and> pmem t = pmem s"
    by (auto simp: kmem_quiet_def kmem_inv_def kalloc_run page_ok_def cong: quiet_cong)
  assume "kmem_quiet s ps" "page_ok s v" "v \<notin> set ps"
  then show "\<exists>t. kfree v s = Ok () t \<and> kmem_quiet t (v # ps) \<and>
      (\<forall>p i. page_ok s p \<longrightarrow> p \<noteq> v \<longrightarrow> i < 4096 \<longrightarrow> pmem t (p + of_nat i) = pmem s (p + of_nat i))"
    by (auto simp: kmem_quiet_def kmem_inv_def kfree_run page_ok_nz flist_freed freed_other
      cong: quiet_cong) (auto simp: page_ok_def flist_freed freed_other)
next
  show "kmem_quiet s ps \<Longrightarrow> p \<in> set ps \<Longrightarrow> page_ok s p" for s :: "'z kmach_scheme" and ps p
    by (simp add: kmem_quiet_def kmem_inv_def)
  show "kmem_quiet s ps \<Longrightarrow> distinct ps" for s :: "'z kmach_scheme" and ps
    by (simp add: kmem_quiet_def kmem_inv_def)
qed

section \<open>Filling the free list\<close>

text \<open>The \<open>n\<close> pages from \<open>p\<close> on, last one first: the order in which \<open>freerange\<close> leaves them.\<close>

fun pages_from :: "u32 \<Rightarrow> nat \<Rightarrow> u32 list" where
  "pages_from p 0 = []"
| "pages_from p (Suc n) = pages_from (p + PGSIZE) n @ [p]"

lemma page_at:
  assumes "unat p = 4096 * a" and "kend s \<le> p" and "unat p < unat KERNBASE + unat PHYSTOP"
    and "KERNBASE \<le> kend s"
  shows "page_ok s p"
proof -
  have "KERNBASE \<le> p" using assms(2,4) by simp
  then have "unat (v2p p) = unat p - unat KERNBASE"
    unfolding v2p_def by (rule unat_sub)
  then have "v2p p < PHYSTOP"
    using assms(3) by (simp add: word_less_nat_alt)
  moreover have "p mod PGSIZE = 0"
    using assms(1) by (simp add: unat_mod flip: unat_eq_0)
  ultimately show ?thesis using assms(2) by (simp add: page_ok_def)
qed

lemma freerange_loop_ok:
  assumes "kmem_quiet s ps" and "unat p = 4096 * a"
    and "4096 * (a + n) \<le> unat vend" and "unat vend < 4096 * (a + n + 1)" and "n < fuel"
    and "KERNBASE \<le> kend s" and "kend s \<le> p" and "unat vend \<le> unat KERNBASE + unat PHYSTOP"
    and "\<forall>q \<in> set ps. q < p"
  shows "\<exists>t. freerange_loop fuel p vend s = Ok () t \<and> kmem_quiet t (pages_from p n @ ps)
    \<and> kend t = kend s"
  using assms
proof (induction n arbitrary: s ps p a fuel)
  case 0
  then obtain f where f: "fuel = Suc f" by (cases fuel) auto
  from 0 have "unat (p + PGSIZE) = 4096 * a + 4096" by (simp add: unat_word_ariths)
  then have "\<not> p + PGSIZE \<le> vend" using 0 by (simp add: word_le_nat_alt)
  then show ?case using 0 f by simp
next
  case (Suc n)
  then obtain f where f: "fuel = Suc f" "n < f" by (cases fuel) auto
  have up: "unat (p + PGSIZE) = 4096 * (a + 1)"
    using Suc.prems(2,3,8) by (simp add: unat_word_ariths)
  then have le: "p + PGSIZE \<le> vend" and lt: "p < p + PGSIZE"
    using Suc.prems(2,3) by (simp_all add: word_le_nat_alt word_less_nat_alt)
  have "unat p < unat KERNBASE + unat PHYSTOP" using Suc.prems(2,3,8) by simp
  then have "page_ok s p" using Suc.prems by (intro page_at)
  moreover have "p \<notin> set ps" using Suc.prems(9) by auto
  ultimately obtain t where t: "kfree p s = Ok () t" "kmem_quiet t (p # ps)"
    using kalloc.free_ok [OF Suc.prems(1)] by blast
  then have kt: "kend t = kend s"
    using kfree_run [of s p] \<open>page_ok s p\<close> Suc.prems(1) by (auto simp: kmem_quiet_def)
  have "\<exists>u. freerange_loop f (p + PGSIZE) vend t = Ok () u
      \<and> kmem_quiet u (pages_from (p + PGSIZE) n @ p # ps) \<and> kend u = kend t"
  proof (rule Suc.IH [of t "p # ps" "p + PGSIZE" "a + 1" f])
    show "\<forall>q \<in> set (p # ps). q < p + PGSIZE" using Suc.prems(9) lt by fastforce
    show "kend t \<le> p + PGSIZE" using kt Suc.prems(7) lt by (metis order.strict_implies_order order.trans)
  qed (use Suc.prems t up f kt in simp_all)
  then show ?case using f le t kt by auto
qed

section \<open>Properties\<close>

text \<open>C11: The allocator is a stack of distinct, page-aligned physical pages between the end of
  the kernel and \<^verbatim>\<open>PHYSTOP\<close>. \<open>kalloc\<close> pops the top page, or returns 0 when there is none, and
  changes no memory; \<open>kfree\<close> pushes any valid page that is not free already and changes no
  byte of another page; every other argument of \<open>kfree\<close> panics.\<close>

theorem kalloc_kfree_stack:
  assumes "kmem_quiet s ps"
  shows "(case ps of [] \<Rightarrow> kalloc s = Ok 0 s
      | p # qs \<Rightarrow> \<exists>t. kalloc s = Ok p t \<and> kmem_quiet t qs \<and> pmem t = pmem s)
    \<and> (\<forall>v. page_ok s v \<longrightarrow> v \<notin> set ps \<longrightarrow>
        (\<exists>t. kfree v s = Ok () t \<and> kmem_quiet t (v # ps)
          \<and> (\<forall>p i. page_ok s p \<longrightarrow> p \<noteq> v \<longrightarrow> i < 4096 \<longrightarrow>
               pmem t (p + of_nat i) = pmem s (p + of_nat i))))
    \<and> (\<forall>v. \<not> page_ok s v \<longrightarrow> kfree v s = Panic ''kfree'')"
  using assms kalloc.alloc_nil [of s] kalloc.alloc_cons [of s] kalloc.free_ok [of s ps]
    kfree_panics [of s]
  by (auto split: list.split)

definition kmach0 :: kmach where
  "kmach0 = \<lparr>lk = lk0, pmem = (\<lambda>_. 0), use_lock = True, freelist = 0, kend = 0x80108000\<rparr>"

lemma kmach0_ok: "kmem_quiet kmach0 []"
  by (simp add: kmem_quiet_def kmem_inv_def kmach0_def quiet_lk0)

theorem kalloc_kfree_stack_witness:
  "(\<exists>t. kfree 0x80109000 kmach0 = Ok () t \<and> kmem_quiet t [0x80109000])
     \<and> kfree 0x80109004 kmach0 = Panic ''kfree''"
proof -
  have v: "page_ok kmach0 0x80109000" "\<not> page_ok kmach0 0x80109004"
    by (simp_all add: page_ok_def kmach0_def v2p_def)
  note c = kalloc_kfree_stack [OF kmach0_ok, THEN conjunct2]
  show ?thesis
    using c [THEN conjunct1, rule_format, OF v(1)] c [THEN conjunct2, rule_format, OF v(2)]
    by auto
qed

text \<open>C30: \<open>freerange\<close> ends, without a panic, for any range between the end of the kernel and the
  top of physical memory, and the free list then holds exactly the whole pages of the
  range, on top of what it held below the range.\<close>

theorem freerange_frees_range:
  assumes "kmem_quiet s ps" and "\<forall>q \<in> set ps. q < vstart"
    and "KERNBASE \<le> kend s" and "kend s \<le> vstart" and "vstart \<le> vend"
    and "vend \<le> KERNBASE + PHYSTOP"
  shows "\<exists>t. freerange vstart vend s = Ok () t
    \<and> kmem_quiet t (pages_from (PGROUNDUP vstart)
         ((unat vend - unat (PGROUNDUP vstart)) div 4096) @ ps)"
proof -
  let ?p = "PGROUNDUP vstart" and ?n = "(unat vend - unat (PGROUNDUP vstart)) div 4096"
  have b: "unat vstart \<le> unat vend" "unat vend \<le> 2382364672"
    using assms(5,6) by (simp_all add: word_le_nat_alt)
  then have p: "unat ?p = 4096 * ((unat vstart + 4095) div 4096)"
    by (simp add: PGROUNDUP_unat)
  have ge: "vstart \<le> ?p" using p by (simp add: word_le_nat_alt)
  have ps: "\<forall>q \<in> set ps. q < ?p" using assms(2) ge by fastforce
  have kp: "kend s \<le> ?p" using assms(4) ge by (rule order_trans)
  have top: "unat vend \<le> unat KERNBASE + unat PHYSTOP" using b(2) by simp
  show ?thesis
  proof (cases "unat ?p \<le> unat vend")
    case True
    then have n: "4096 * ((unat vstart + 4095) div 4096 + ?n) \<le> unat vend"
      "unat vend < 4096 * ((unat vstart + 4095) div 4096 + ?n + 1)"
      using p by auto
    have "?n < 2 ^ 20 + 1" using b by simp
    from freerange_loop_ok [OF assms(1) p n this assms(3) kp top ps]
    show ?thesis unfolding freerange_def by blast
  next
    case False
    then have "\<not> ?p + PGSIZE \<le> vend"
      using p b by (auto simp: word_le_nat_alt unat_word_ariths)
    then have "freerange_loop (Suc (2 ^ 20)) ?p vend s = Ok () s"
      unfolding freerange_loop.simps by simp
    moreover have "?n = 0" using False by simp
    ultimately show ?thesis using assms(1) unfolding freerange_def Suc_eq_plus1 by auto
  qed
qed

theorem freerange_frees_range_witness:
  "\<exists>t. freerange 0x80108001 0x8010B800 kmach0 = Ok () t
    \<and> kmem_quiet t [0x8010A000, 0x80109000]"
proof -
  have pg: "PGROUNDUP 0x80108001 = 0x80109000" by (simp add: PGROUNDUP_def)
  have n: "(unat (0x8010B800 :: u32) - unat (0x80109000 :: u32)) div 4096 = Suc (Suc 0)" by simp
  have "\<exists>t. freerange 0x80108001 0x8010B800 kmach0 = Ok () t
    \<and> kmem_quiet t (pages_from 0x80109000 (Suc (Suc 0)) @ [])"
    using freerange_frees_range [OF kmach0_ok, of "0x80108001" "0x8010B800"]
    unfolding pg n by (simp add: kmach0_def)
  then show ?thesis by simp
qed

end
