(* ===== verification/CString.thy ===== *)
theory CString
  imports Kalloc
begin

text \<open>
  \<^verbatim>\<open>string.c\<close> (kernel) and the string routines of \<^verbatim>\<open>ulib.c\<close> (user programs), on a byte
  memory addressed by 32-bit pointers; pointer arithmetic wraps. Names of \<^verbatim>\<open>ulib.c\<close> that also
  exist in \<^verbatim>\<open>string.c\<close> have the prefix \<open>u_\<close>.

  A loop bounded by a counter is a recursion on the counter. A loop that stops at a NUL byte
  only is a \<open>partial_function\<close> in the option monad: on a memory without NUL it does
  not return. A \<^verbatim>\<open>char\<close> is a byte; where the code compares characters as signed numbers the
  model does so too.
\<close>

type_synonym mem = "u32 \<Rightarrow> u8"

section \<open>Memory routines\<close>

text \<open>\<open>rep stosb\<close> and \<open>rep stosl\<close>.\<close>

fun stosb :: "mem \<Rightarrow> u32 \<Rightarrow> u8 \<Rightarrow> nat \<Rightarrow> mem" where
  "stosb m addr data 0 = m"
| "stosb m addr data (Suc cnt) = stosb (m(addr := data)) (addr + 1) data cnt"

fun stosl :: "mem \<Rightarrow> u32 \<Rightarrow> u32 \<Rightarrow> nat \<Rightarrow> mem" where
  "stosl m addr data 0 = m"
| "stosl m addr data (Suc cnt) = stosl (mstore32 m addr data) (addr + 4) data cnt"

definition memset :: "mem \<Rightarrow> u32 \<Rightarrow> u32 \<Rightarrow> u32 \<Rightarrow> mem" where
  "memset m dst c n =
     (if dst mod 4 = 0 \<and> n mod 4 = 0 then
        let c = c AND 0xFF in
        stosl m dst (push_bit 24 c OR push_bit 16 c OR push_bit 8 c OR c) (unat (n div 4))
      else stosb m dst (ucast c) (unat n))"

fun memcmp_loop :: "mem \<Rightarrow> u32 \<Rightarrow> u32 \<Rightarrow> nat \<Rightarrow> int" where
  "memcmp_loop m s1 s2 0 = 0"
| "memcmp_loop m s1 s2 (Suc n) =
     (if m s1 \<noteq> m s2 then uint (m s1) - uint (m s2)
      else memcmp_loop m (s1 + 1) (s2 + 1) n)"

definition memcmp :: "mem \<Rightarrow> u32 \<Rightarrow> u32 \<Rightarrow> u32 \<Rightarrow> int" where
  "memcmp m v1 v2 n = memcmp_loop m v1 v2 (unat n)"

text \<open>The two loops of \<open>memmove\<close>: from the end downwards, and upwards.\<close>

fun copy_down :: "mem \<Rightarrow> u32 \<Rightarrow> u32 \<Rightarrow> nat \<Rightarrow> mem" where
  "copy_down m d s 0 = m"
| "copy_down m d s (Suc n) = copy_down (m(d - 1 := m (s - 1))) (d - 1) (s - 1) n"

fun copy_up :: "mem \<Rightarrow> u32 \<Rightarrow> u32 \<Rightarrow> nat \<Rightarrow> mem" where
  "copy_up m d s 0 = m"
| "copy_up m d s (Suc n) = copy_up (m(d := m s)) (d + 1) (s + 1) n"

definition memmove :: "mem \<Rightarrow> u32 \<Rightarrow> u32 \<Rightarrow> u32 \<Rightarrow> mem" where
  "memmove m dst src n =
     (if src < dst \<and> src + n > dst then copy_down m (dst + n) (src + n) (unat n)
      else copy_up m dst src (unat n))"

definition memcpy :: "mem \<Rightarrow> u32 \<Rightarrow> u32 \<Rightarrow> u32 \<Rightarrow> mem" where
  "memcpy m dst src n = memmove m dst src n"

section \<open>String routines\<close>

fun strncmp_loop :: "mem \<Rightarrow> u32 \<Rightarrow> u32 \<Rightarrow> nat \<Rightarrow> int" where
  "strncmp_loop m p q 0 = 0"
| "strncmp_loop m p q (Suc n) =
     (if m p \<noteq> 0 \<and> m p = m q then strncmp_loop m (p + 1) (q + 1) n
      else uint (m p) - uint (m q))"

definition strncmp :: "mem \<Rightarrow> u32 \<Rightarrow> u32 \<Rightarrow> u32 \<Rightarrow> int" where
  "strncmp m p q n = strncmp_loop m p q (unat n)"

text \<open>\<open>strncpy\<close>: copy up to and including a NUL, then fill with NULs. The loop test of the first
  loop decrements \<open>n\<close> before it is false, so a copy that stops at a NUL after \<open>k\<close> bytes leaves
  \<open>n - k\<close> bytes to fill.\<close>

fun strncpy_loop :: "mem \<Rightarrow> u32 \<Rightarrow> u32 \<Rightarrow> nat \<Rightarrow> mem" where
  "strncpy_loop m s t 0 = m"
| "strncpy_loop m s t (Suc n) =
     (let c = m t; m' = m(s := c) in
      if c \<noteq> 0 then strncpy_loop m' (s + 1) (t + 1) n
      else stosb m' (s + 1) 0 n)"

definition strncpy :: "mem \<Rightarrow> u32 \<Rightarrow> u32 \<Rightarrow> int \<Rightarrow> mem" where
  "strncpy m s t n = strncpy_loop m s t (nat n)"

fun safestrcpy_loop :: "mem \<Rightarrow> u32 \<Rightarrow> u32 \<Rightarrow> nat \<Rightarrow> mem" where
  "safestrcpy_loop m s t 0 = m(s := 0)"
| "safestrcpy_loop m s t (Suc n) =
     (let c = m t; m' = m(s := c) in
      if c \<noteq> 0 then safestrcpy_loop m' (s + 1) (t + 1) n
      else m'(s + 1 := 0))"

definition safestrcpy :: "mem \<Rightarrow> u32 \<Rightarrow> u32 \<Rightarrow> int \<Rightarrow> mem" where
  "safestrcpy m s t n = (if n \<le> 0 then m else safestrcpy_loop m s t (nat (n - 1)))"

text \<open>Loops that only a NUL stops. \<open>strlen\<close> counts in an \<^verbatim>\<open>int\<close>, as 32 bits.\<close>

partial_function (option) strlen_loop :: "mem \<Rightarrow> u32 \<Rightarrow> u32 \<Rightarrow> u32 option" where
  "strlen_loop m s n = (if m (s + n) \<noteq> 0 then strlen_loop m s (n + 1) else Some n)"

definition strlen :: "mem \<Rightarrow> u32 \<Rightarrow> u32 option" where
  "strlen m s = strlen_loop m s 0"

partial_function (option) u_strcpy :: "mem \<Rightarrow> u32 \<Rightarrow> u32 \<Rightarrow> mem option" where
  "u_strcpy m s t =
     (let c = m t; m' = m(s := c) in
      if c \<noteq> 0 then u_strcpy m' (s + 1) (t + 1) else Some m')"

partial_function (option) u_strcmp :: "mem \<Rightarrow> u32 \<Rightarrow> u32 \<Rightarrow> int option" where
  "u_strcmp m p q =
     (if m p \<noteq> 0 \<and> m p = m q then u_strcmp m (p + 1) (q + 1)
      else Some (uint (m p) - uint (m q)))"

definition u_strlen :: "mem \<Rightarrow> u32 \<Rightarrow> u32 option" where
  "u_strlen m s = strlen_loop m s 0"

definition u_memset :: "mem \<Rightarrow> u32 \<Rightarrow> u32 \<Rightarrow> u32 \<Rightarrow> mem" where
  "u_memset m dst c n = stosb m dst (ucast c) (unat n)"

partial_function (option) u_strchr :: "mem \<Rightarrow> u32 \<Rightarrow> u8 \<Rightarrow> u32 option" where
  "u_strchr m s c =
     (if m s \<noteq> 0 then (if m s = c then Some s else u_strchr m (s + 1) c)
      else Some 0)"

partial_function (option) u_atoi_loop :: "mem \<Rightarrow> u32 \<Rightarrow> u32 \<Rightarrow> u32 option" where
  "u_atoi_loop m s n =
     (if 48 \<le> sint (m s) \<and> sint (m s) \<le> 57
      then u_atoi_loop m (s + 1) (n * 10 + scast (m s) - 48) else Some n)"

definition u_atoi :: "mem \<Rightarrow> u32 \<Rightarrow> u32 option" where
  "u_atoi m s = u_atoi_loop m s 0"

definition u_memmove :: "mem \<Rightarrow> u32 \<Rightarrow> u32 \<Rightarrow> int \<Rightarrow> mem" where
  "u_memmove m vdst vsrc n = copy_up m vdst vsrc (nat n)"

section \<open>Fills and copies\<close>

lemma unat_Suc_pred: "w \<noteq> 0 \<Longrightarrow> unat (w :: u32) = Suc (unat (w - 1))"
  by (simp add: unat_minus_one unat_gt_0)

lemma unat32_minus_1 [simp]: "unat (- 1 :: u32) = 4294967295"
  by (simp add: unsigned_minus_1_eq_mask mask_eq_exp_minus_1)

lemma unat_diff_Suc: "x \<noteq> a \<Longrightarrow> unat (x - a) = Suc (unat (x - (a + 1)))" for x a :: u32
  using unat_Suc_pred [of "x - a"] by (simp add: diff_diff_add)

lemma stosb_fill: "stosb m a c n = mset_mem m a c n" if "n \<le> 4294967296"
  using that
proof (induction n arbitrary: m a)
  case 0
  then show ?case by (simp add: mset_mem_def)
next
  case (Suc n)
  have "mset_mem (m(a := c)) (a + 1) c n x = mset_mem m a c (Suc n) x" for x
  proof (cases "x = a")
    case True
    with Suc.prems show ?thesis by (simp add: mset_mem_def)
  next
    case False
    then show ?thesis by (simp add: mset_mem_def unat_diff_Suc)
  qed
  with Suc show ?case by auto
qed

text \<open>The word \<open>c | c << 8 | c << 16 | c << 24\<close> has the byte \<open>c\<close> four times.\<close>

lemma splat_bytes:
  fixes c :: u32
  defines "w \<equiv> push_bit 24 (c AND 0xFF) OR push_bit 16 (c AND 0xFF) OR push_bit 8 (c AND 0xFF) OR (c AND 0xFF)"
  shows "(ucast w :: u8) = ucast c" "(ucast (drop_bit 8 w) :: u8) = ucast c"
    "(ucast (drop_bit 16 w) :: u8) = ucast c" "(ucast (drop_bit 24 w) :: u8) = ucast c"
proof -
  have ff: "(0xFF :: u32) = mask 8" by (simp add: mask_eq_exp_minus_1)
  show "(ucast w :: u8) = ucast c" "(ucast (drop_bit 8 w) :: u8) = ucast c"
    "(ucast (drop_bit 16 w) :: u8) = ucast c" "(ucast (drop_bit 24 w) :: u8) = ucast c"
    unfolding w_def ff
    by (rule bit_word_eqI; auto simp: bit_simps)+
qed

lemma stosl_fill:
  assumes "(ucast w :: u8) = c" "(ucast (drop_bit 8 w) :: u8) = c"
    "(ucast (drop_bit 16 w) :: u8) = c" "(ucast (drop_bit 24 w) :: u8) = c"
  shows "stosl m a w n = stosb m a c (4 * n)"
proof (induction n arbitrary: m a)
  case (Suc n)
  have "4 * Suc n = Suc (Suc (Suc (Suc (4 * n))))" by simp
  moreover have "mstore32 m a w = m(a := c, a + 1 := c, a + 2 := c, a + 3 := c)"
    unfolding mstore32_def using assms by simp
  moreover have "a + 1 + 1 = a + 2" "a + 2 + 1 = a + 3" "a + 3 + 1 = a + 4" by simp_all
  ultimately show ?case by (simp only: Suc stosl.simps stosb.simps)
qed simp

lemma copy_numeral:
  "copy_up m d s (numeral k) = copy_up (m(d := m s)) (d + 1) (s + 1) (pred_numeral k)"
  "copy_down m d s (numeral k) = copy_down (m(d - 1 := m (s - 1))) (d - 1) (s - 1) (pred_numeral k)"
  by (simp_all add: numeral_eq_Suc)

lemma copy_up_spec:
  assumes "n \<le> 4294967296"
    and "\<And>i j. j < i \<Longrightarrow> i < n \<Longrightarrow> d + of_nat j \<noteq> s + of_nat i"
  shows "copy_up m d s n = (\<lambda>x. if unat (x - d) < n then m (s + (x - d)) else m x)"
  using assms
proof (induction n arbitrary: m d s)
  case 0
  then show ?case by simp
next
  case (Suc n)
  have "d + 1 + of_nat j \<noteq> s + 1 + of_nat i" if "j < i" "i < n" for i j
    using Suc.prems(2) [of "Suc j" "Suc i"] that by (simp add: algebra_simps)
  then have IH: "copy_up m' (d + 1) (s + 1) n =
      (\<lambda>x. if unat (x - (d + 1)) < n then m' (s + 1 + (x - (d + 1))) else m' x)" for m'
    using Suc.IH Suc.prems(1) by simp
  show ?case
  proof
    fix x
    show "copy_up m d s (Suc n) x = (if unat (x - d) < Suc n then m (s + (x - d)) else m x)"
    proof (cases "x = d")
      case True
      with Suc.prems(1) show ?thesis by (simp add: IH)
    next
      case False
      have "s + (x - d) \<noteq> d" if "unat (x - d) < Suc n"
        using Suc.prems(2) [of 0 "unat (x - d)"] that False by (auto simp: unat_gt_0)
      with False show ?thesis by (auto simp: IH unat_diff_Suc)
    qed
  qed
qed

lemma copy_down_spec:
  assumes "n \<le> 4294967296"
    and "\<And>i j. i < j \<Longrightarrow> j < n \<Longrightarrow> d + of_nat j \<noteq> s + of_nat i"
  shows "copy_down m (d + of_nat n) (s + of_nat n) n =
    (\<lambda>x. if unat (x - d) < n then m (s + (x - d)) else m x)"
  using assms
proof (induction n arbitrary: m)
  case 0
  then show ?case by simp
next
  case (Suc n)
  have IH: "copy_down m' (d + of_nat n) (s + of_nat n) n =
      (\<lambda>x. if unat (x - d) < n then m' (s + (x - d)) else m' x)" for m'
    using Suc by simp
  show ?case
  proof
    fix x
    have x: "x = d + of_nat (unat (x - d))" by simp
    have "s + (x - d) \<noteq> d + of_nat n" if "unat (x - d) < n"
      using Suc.prems(2) [of "unat (x - d)" n] that by (auto simp: algebra_simps)
    moreover have "unat (d + of_nat n - d) = n" using Suc.prems(1) by simp
    ultimately show "copy_down m (d + of_nat (Suc n)) (s + of_nat (Suc n)) (Suc n) x =
        (if unat (x - d) < Suc n then m (s + (x - d)) else m x)"
      using x by (auto simp: IH less_Suc_eq)
  qed
qed

lemma memset_fill: "memset m dst c n = mset_mem m dst (ucast c) (unat n)"
proof -
  have fill: "stosb m dst (ucast c) (unat n) = mset_mem m dst (ucast c) (unat n)"
    by (rule stosb_fill) (rule less_imp_le, rule unat32_lt)
  have "4 * unat (n div 4) = unat n" if "n mod 4 = 0"
  proof -
    have "unat n mod 4 = 0" using arg_cong [OF that, of unat] by (simp add: unat_mod)
    then have "4 * (unat n div 4) = unat n" by presburger
    then show ?thesis by (simp add: unat_div)
  qed
  then show ?thesis
    unfolding memset_def Let_def stosl_fill [OF splat_bytes] using fill by simp
qed

lemma u_memset_memset: "u_memset m dst c n = memset m dst c n"
  by (simp add: memset_fill u_memset_def stosb_fill less_imp_le)

lemma word_add_neqI:
  fixes d s :: u32
  assumes "unat d + i \<noteq> unat s + j" "unat d + i < 4294967296" "unat s + j < 4294967296"
  shows "d + of_nat i \<noteq> s + of_nat j"
proof
  assume eq: "d + of_nat i = s + of_nat j"
  have "of_nat (unat d + i) = (of_nat (unat s + j) :: u32)" using eq by simp
  then have "unat (of_nat (unat d + i) :: u32) = unat (of_nat (unat s + j) :: u32)" by simp
  then show False using assms by (simp only: unat32_of_nat)
qed

lemma memmove_spec:
  assumes "unat src + unat n < 4294967296" and "unat dst + unat n \<le> 4294967296"
  shows "memmove m dst src n = (\<lambda>x. if unat (x - dst) < unat n then m (src + (x - dst)) else m x)"
proof -
  have n: "unat n \<le> 4294967296" by (rule less_imp_le, rule unat32_lt)
  have end_src: "unat (src + n) = unat src + unat n"
    using assms(1) by (simp add: unat_plus_if_size word_size)
  show ?thesis
  proof (cases "src < dst \<and> src + n > dst")
    case True
    then have "unat src < unat dst" by (simp add: word_less_nat_alt)
    then have "dst + of_nat j \<noteq> src + of_nat i" if "i < j" "j < unat n" for i j
      using that assms by (intro word_add_neqI) auto
    from copy_down_spec [OF n this] True show ?thesis by (simp add: memmove_def)
  next
    case False
    then have "unat dst \<le> unat src \<or> unat src + unat n \<le> unat dst"
      by (auto simp: word_less_nat_alt end_src)
    then have "dst + of_nat j \<noteq> src + of_nat i" if "j < i" "i < unat n" for i j
      using that assms by (intro word_add_neqI) auto
    from copy_up_spec [OF n this] False show ?thesis by (simp only: memmove_def if_False)
  qed
qed

text \<open>C27: \<open>memmove\<close> and \<open>memcpy\<close> copy the \<open>n\<close> bytes the source held on entry, in every case of
  overlap, and change nothing else, when neither region runs past the end of memory.\<close>

theorem memmove_copies:
  assumes "unat src + unat n < 4294967296" and "unat dst + unat n \<le> 4294967296"
  shows "memmove m dst src n = (\<lambda>x. if unat (x - dst) < unat n then m (src + (x - dst)) else m x)
    \<and> memcpy m dst src n = memmove m dst src n"
  using memmove_spec [OF assms] by (simp add: memcpy_def)

theorem memmove_copies_witness:
  "memmove (\<lambda>x. ucast x) 5 3 4 = (\<lambda>x. if unat (x - 5) < 4 then ucast (3 + (x - 5)) else ucast x)"
  using memmove_copies [of 3 4 5 "\<lambda>x. ucast x"] by simp

text \<open>The user-level \<open>memmove\<close> always copies upwards: it is right for regions that do not overlap,
  and for a destination below the source.\<close>

lemma u_memmove_disjoint:
  assumes "unat src + nat n \<le> 4294967296" and "unat dst + nat n \<le> 4294967296"
    and "unat dst \<le> unat src \<or> unat src + nat n \<le> unat dst"
  shows "u_memmove m dst src n = (\<lambda>x. if unat (x - dst) < nat n then m (src + (x - dst)) else m x)"
proof -
  have "dst + of_nat j \<noteq> src + of_nat i" if "j < i" "i < nat n" for i j
    using that assms by (intro word_add_neqI) auto
  moreover have "nat n \<le> 4294967296" using assms by simp
  ultimately show ?thesis by (simp add: u_memmove_def copy_up_spec)
qed

text \<open>With the destination inside the source it repeats the first bytes: three bytes 1, 2, 3 moved
  up by one give 1, 1, 1 instead of 1, 2, 3.\<close>

lemma u_memmove_overlap_smears:
  "let m = (\<lambda>x. ucast x) in
     u_memmove m 2 1 3 4 = 1 \<and> memmove m 2 1 3 4 = 3"
  by (simp add: u_memmove_def memmove_def copy_numeral)

section \<open>Strings\<close>

text \<open>A NUL-terminated string in memory.\<close>

fun cstr :: "mem \<Rightarrow> u32 \<Rightarrow> u8 list \<Rightarrow> bool" where
  "cstr m s [] = (m s = 0)"
| "cstr m s (x # xs) = (x \<noteq> 0 \<and> m s = x \<and> cstr m (s + 1) xs)"

lemma cstr_cong:
  assumes "cstr m s xs" and "\<And>i. i \<le> length xs \<Longrightarrow> m' (s + of_nat i) = m (s + of_nat i)"
  shows "cstr m' s xs"
  using assms
proof (induction xs arbitrary: s)
  case Nil
  then show ?case by force
next
  case (Cons x xs)
  have "m' (s + 1 + of_nat i) = m (s + 1 + of_nat i)" if "i \<le> length xs" for i
    using Cons.prems(2) [of "Suc i"] that by (simp add: algebra_simps)
  then show ?case using Cons.IH Cons.prems(1) Cons.prems(2) [of 0] by simp
qed

lemma strlen_loop_cstr:
  "cstr m (s + n) xs \<Longrightarrow> strlen_loop m s n = Some (n + of_nat (length xs))"
proof (induction xs arbitrary: n)
  case Nil
  then show ?case by (simp add: strlen_loop.simps [of m s n])
next
  case (Cons x xs)
  then show ?case using Cons.IH [of "n + 1"]
    by (simp add: strlen_loop.simps [of m s n] algebra_simps)
qed

lemma uint_gt_0_iff: "0 < uint (w :: u8) \<longleftrightarrow> w \<noteq> 0"
  using uint_0_iff [of w] unsigned_greater_eq [of w] by (simp add: less_le)

lemma u_strcmp_cstr:
  "cstr m p xs \<Longrightarrow> cstr m q ys \<Longrightarrow>
     \<exists>d. u_strcmp m p q = Some d \<and> (d = 0 \<longleftrightarrow> xs = ys) \<and> (d < 0 \<longleftrightarrow> (xs, ys) \<in> lexord {(a, b). a < b})"
proof (induction xs arbitrary: p q ys)
  case Nil
  then show ?case
    by (cases ys) (auto simp: u_strcmp.simps [of m p q] word_less_def uint_0_iff uint_gt_0_iff)
next
  case (Cons x xs)
  show ?case
  proof (cases ys)
    case Nil
    then show ?thesis using Cons.prems
      by (auto simp: u_strcmp.simps [of m p q] uint_0_iff order.asym)
  next
    case (Cons y zs)
    then show ?thesis using Cons.prems Cons.IH [of "p + 1" "q + 1" zs]
      by (cases "x = y")
        (auto simp: u_strcmp.simps [of m p q] word_less_def dest: unsigned_word_eqI)
  qed
qed

lemma cstr_nonzero: "cstr m s xs \<Longrightarrow> 0 \<notin> set xs"
  by (induction xs arbitrary: s) auto

lemma u_strchr_cstr:
  "cstr m s xs \<Longrightarrow> u_strchr m s c =
     Some (if c \<in> set xs then s + of_nat (length (takeWhile (\<lambda>x. x \<noteq> c) xs)) else 0)"
  by (induction xs arbitrary: s) (auto simp: u_strchr.simps [of m _ c] algebra_simps)

text \<open>A byte outside the part a loop writes is unchanged, and so is a string that does not
  overlap it.\<close>

lemma cstr_upd:
  assumes "cstr m t xs" and "\<And>i. i \<le> length xs \<Longrightarrow> t + of_nat i \<noteq> s"
  shows "cstr (m(s := c)) t xs"
  using assms by (auto intro: cstr_cong)

text \<open>The source string and the \<open>k\<close> bytes of the destination do not overlap.\<close>

definition apart :: "u32 \<Rightarrow> u8 list \<Rightarrow> u32 \<Rightarrow> nat \<Rightarrow> bool" where
  "apart t xs s k \<longleftrightarrow> (\<forall>i \<le> length xs. \<forall>j < k. t + of_nat i \<noteq> s + of_nat j)"

lemma apart_Cons:
  assumes "apart t (x # xs) s (Suc k)" and "cstr m t (x # xs)"
  shows "apart (t + 1) xs (s + 1) k" and "cstr (m(s := c)) (t + 1) xs"
proof -
  have far: "t + 1 + of_nat i \<noteq> s + of_nat j" if "i \<le> length xs" "j < Suc k" for i j
    using assms(1) that unfolding apart_def
    by (metis Suc_le_mono add.assoc length_Cons of_nat_Suc)
  show "apart (t + 1) xs (s + 1) k"
    unfolding apart_def
  proof (intro allI impI)
    fix i j
    assume "i \<le> length xs" "j < k"
    then show "t + 1 + of_nat i \<noteq> s + 1 + of_nat j"
      using far [of i "Suc j"] by (simp add: add.assoc)
  qed
  have "t + 1 + of_nat i \<noteq> s" if "i \<le> length xs" for i
    using far [of i 0] that by simp
  then show "cstr (m(s := c)) (t + 1) xs"
    using assms(2) by (intro cstr_upd) auto
qed

lemma safestrcpy_loop_spec:
  "cstr m t xs \<Longrightarrow> apart t xs s (Suc k) \<Longrightarrow> k < 4294967295 \<Longrightarrow>
     cstr (safestrcpy_loop m s t k) s (take k xs) \<and>
     (\<forall>x. k < unat (x - s) \<longrightarrow> safestrcpy_loop m s t k x = m x)"
proof (induction k arbitrary: m s t xs)
  case 0
  then show ?case by auto
next
  case (Suc k)
  show ?case
  proof (cases xs)
    case Nil
    then show ?thesis using Suc.prems by (auto simp: Let_def)
  next
    case (Cons c cs)
    with Suc.prems have ap: "apart t (c # cs) s (Suc (Suc k))" "cstr m t (c # cs)" by auto
    have IH: "cstr (safestrcpy_loop (m(s := c)) (s + 1) (t + 1) k) (s + 1) (take k cs)"
      "k < unat (x - (s + 1)) \<Longrightarrow> safestrcpy_loop (m(s := c)) (s + 1) (t + 1) k x = (m(s := c)) x" for x
      using Suc.IH [of "m(s := c)" "t + 1" cs "s + 1"] apart_Cons(1) [OF ap] apart_Cons(2) [OF ap, where c = c]
        Suc.prems(3) by (auto simp del: fun_upd_apply)
    have "safestrcpy_loop (m(s := c)) (s + 1) (t + 1) k s = c"
      using IH(2) [of s] Suc.prems(3) by simp
    moreover have "safestrcpy_loop (m(s := c)) (s + 1) (t + 1) k x = m x" if "Suc k < unat (x - s)" for x
    proof -
      from that have "x \<noteq> s" by auto
      then show ?thesis using IH(2) [of x] that by (simp add: unat_diff_Suc)
    qed
    ultimately show ?thesis using IH(1) Suc.prems(1) Cons by (auto simp: Let_def)
  qed
qed

text \<open>C31: \<open>safestrcpy\<close> leaves at the destination a NUL-terminated string, the source cut to
  \<open>n - 1\<close> characters, and writes no byte outside the \<open>n\<close> bytes of the destination.\<close>

theorem safestrcpy_bounded:
  assumes "cstr m t xs" and "apart t xs s (nat n)" and "0 < n" and "n < 4294967296"
  shows "cstr (safestrcpy m s t n) s (take (nat n - 1) xs) \<and>
    (\<forall>x. nat n \<le> unat (x - s) \<longrightarrow> safestrcpy m s t n x = m x)"
proof -
  have "Suc (nat (n - 1)) = nat n" "nat n - 1 = nat (n - 1)" using assms(3) by auto
  moreover have "nat (n - 1) < 4294967295" using assms(3,4) by simp
  ultimately show ?thesis
    using safestrcpy_loop_spec [of m t xs s "nat (n - 1)"] assms
    by (auto simp: safestrcpy_def)
qed

theorem safestrcpy_bounded_witness:
  "cstr (safestrcpy (\<lambda>x. if x < 5 then 97 else 0) 16 0 4) 16 [97, 97, 97]"
proof -
  have "cstr (\<lambda>x. if x < 5 then 97 else 0) 0 [97, 97, 97, 97, 97]" by simp
  moreover have "apart 0 [97, 97, 97, 97, 97] 16 (nat 4)"
    unfolding apart_def by (intro allI impI word_add_neqI) auto
  ultimately show ?thesis
    using safestrcpy_bounded [of "\<lambda>x. if x < 5 then 97 else 0" 0 "[97, 97, 97, 97, 97]" 16 4] by simp
qed

lemma strncpy_loop_spec:
  "cstr m t xs \<Longrightarrow> apart t xs s n \<Longrightarrow> n < 4294967296 \<Longrightarrow>
     (\<forall>x. strncpy_loop m s t n x =
        (if unat (x - s) < n then (xs @ replicate n 0) ! unat (x - s) else m x))"
proof (induction n arbitrary: m s t xs)
  case 0
  then show ?case by simp
next
  case (Suc n)
  show ?case
  proof (cases xs)
    case Nil
    have "strncpy_loop m s t (Suc n) = mset_mem (m(s := 0)) (s + 1) 0 n"
      using Suc.prems Nil by (simp add: stosb_fill)
    then show ?thesis using Nil Suc.prems(3)
      by (auto simp: mset_mem_def unat_diff_Suc nth_Cons split: nat.split)
  next
    case (Cons c cs)
    with Suc.prems have ap: "apart t (c # cs) s (Suc n)" "cstr m t (c # cs)" by auto
    have IH: "strncpy_loop (m(s := c)) (s + 1) (t + 1) n x =
        (if unat (x - (s + 1)) < n then (cs @ replicate n 0) ! unat (x - (s + 1)) else (m(s := c)) x)" for x
      using Suc.IH [of "m(s := c)" "t + 1" cs "s + 1"] apart_Cons(1) [OF ap] apart_Cons(2) [OF ap, where c = c]
        Suc.prems(3) by (auto simp del: fun_upd_apply)
    have eq: "strncpy_loop m s t (Suc n) = strncpy_loop (m(s := c)) (s + 1) (t + 1) n"
      using ap by simp
    have more: "(cs @ replicate (Suc n) 0) ! i = (cs @ replicate n 0) ! i" if "i < n" for i
      using that by (auto simp: nth_append nth_Cons split: nat.split)
    show ?thesis
    proof
      fix x
      show "strncpy_loop m s t (Suc n) x =
          (if unat (x - s) < Suc n then (xs @ replicate (Suc n) 0) ! unat (x - s) else m x)"
        unfolding eq IH using Suc.prems(3) Cons more
        by (cases "x = s") (simp_all add: unat_diff_Suc)
    qed
  qed
qed

text \<open>\<open>strncpy\<close> writes exactly \<open>n\<close> bytes: the string cut to \<open>n\<close> characters, padded with NULs.\<close>

lemma strncpy_pads:
  assumes "cstr m t xs" and "apart t xs s (nat n)" and "n < 4294967296"
  shows "strncpy m s t n =
    (\<lambda>x. if unat (x - s) < nat n then (xs @ replicate (nat n) 0) ! unat (x - s) else m x)"
  using strncpy_loop_spec [OF assms(1,2)] assms(3) by (auto simp: strncpy_def)

lemma u_strcpy_cstr:
  "cstr m t xs \<Longrightarrow> apart t xs s (Suc (length xs)) \<Longrightarrow> length xs < 4294967295 \<Longrightarrow>
     \<exists>m'. u_strcpy m s t = Some m' \<and> cstr m' s xs \<and> (\<forall>x. length xs < unat (x - s) \<longrightarrow> m' x = m x)"
proof (induction xs arbitrary: m s t)
  case Nil
  then show ?case by (auto simp: u_strcpy.simps [of m s t] Let_def)
next
  case (Cons c cs)
  then have ap: "apart t (c # cs) s (Suc (Suc (length cs)))" by simp
  obtain m' where m': "u_strcpy (m(s := c)) (s + 1) (t + 1) = Some m'" "cstr m' (s + 1) cs"
    and out: "\<And>x. length cs < unat (x - (s + 1)) \<Longrightarrow> m' x = (m(s := c)) x"
    using Cons.IH [of "m(s := c)" "t + 1" "s + 1"] apart_Cons(1) [OF ap Cons.prems(1)]
      apart_Cons(2) [OF ap Cons.prems(1), where c = c] Cons.prems(3)
    by (auto simp del: fun_upd_apply)
  have "m' s = c" using out [of s] Cons.prems(3) by simp
  moreover have "m' x = m x" if "length (c # cs) < unat (x - s)" for x
  proof -
    from that have "x \<noteq> s" by auto
    then show ?thesis using out [of x] that by (simp add: unat_diff_Suc)
  qed
  ultimately show ?case using m' Cons.prems(1)
    by (auto simp: u_strcpy.simps [of m s t] Let_def)
qed

text \<open>C32: The user-level string routines return on every NUL-terminated string: \<open>strlen\<close> its
  length, \<open>strcmp\<close> a number whose sign is the lexicographic order of the strings as unsigned
  bytes, \<open>strchr\<close> the address of the first occurrence or 0, and \<open>strcpy\<close> a copy of the string
  that leaves all bytes after its NUL alone.\<close>

theorem user_strings_return:
  assumes "cstr m p xs" and "cstr m q ys" and "apart p xs r (Suc (length xs))" and "length xs < 4294967295"
  shows "u_strlen m p = Some (of_nat (length xs)) \<and> strlen m p = u_strlen m p \<and>
    (\<exists>d. u_strcmp m p q = Some d \<and> (d = 0 \<longleftrightarrow> xs = ys) \<and> (d < 0 \<longleftrightarrow> (xs, ys) \<in> lexord {(a, b). a < b})) \<and>
    u_strchr m p c = Some (if c \<in> set xs then p + of_nat (length (takeWhile (\<lambda>x. x \<noteq> c) xs)) else 0) \<and>
    (\<exists>m'. u_strcpy m r p = Some m' \<and> cstr m' r xs \<and> (\<forall>x. length xs < unat (x - r) \<longrightarrow> m' x = m x))"
  using assms strlen_loop_cstr [of m p 0 xs] u_strcmp_cstr [OF assms(1,2)]
    u_strchr_cstr [OF assms(1), of c] u_strcpy_cstr [OF assms(1,3,4)]
  by (simp add: u_strlen_def strlen_def)

theorem user_strings_return_witness:
  "let m = (\<lambda>x. if x = 0 then 97 else if x = 1 then 98 else if x = 4 then 97 else if x = 5 then 99 else 0) in
     u_strlen m 0 = Some 2 \<and> (\<exists>d. u_strcmp m 0 4 = Some d \<and> d < 0) \<and> u_strchr m 0 98 = Some 1"
proof -
  define m :: mem where
    "m = (\<lambda>x. if x = 0 then 97 else if x = 1 then 98 else if x = 4 then 97 else if x = 5 then 99 else 0)"
  have s: "cstr m 0 [97, 98]" "cstr m 4 [97, 99]" by (simp_all add: m_def)
  have "apart 0 [97, 98] 16 (Suc (length [97, 98 :: u8]))"
    unfolding apart_def by (intro allI impI word_add_neqI) auto
  from user_strings_return [OF s this, of 98] show ?thesis
    unfolding m_def [symmetric] Let_def by auto
qed

section \<open>Decimal numbers\<close>

text \<open>The value of a list of decimal digits, most significant first.\<close>

definition dec_val :: "nat list \<Rightarrow> nat" where
  "dec_val ds = foldl (\<lambda>n d. n * 10 + d) 0 ds"

fun digits_at :: "mem \<Rightarrow> u32 \<Rightarrow> nat list \<Rightarrow> bool" where
  "digits_at m s [] = (\<not> (48 \<le> sint (m s) \<and> sint (m s) \<le> 57))"
| "digits_at m s (d # ds) = (d < 10 \<and> m s = of_nat (48 + d) \<and> digits_at m (s + 1) ds)"

lemma digit_char:
  assumes "d < 10"
  shows "sint (of_nat (48 + d) :: u8) = 48 + int d" "(scast (of_nat (48 + d) :: u8) :: u32) = of_nat (48 + d)"
proof -
  have "d \<in> {0, 1, 2, 3, 4, 5, 6, 7, 8, 9}" using assms by auto
  then show "sint (of_nat (48 + d) :: u8) = 48 + int d"
    "(scast (of_nat (48 + d) :: u8) :: u32) = of_nat (48 + d)"
    by (elim insertE emptyE; simp)+
qed

lemma u_atoi_loop_digits:
  "digits_at m s ds \<Longrightarrow> u_atoi_loop m s (of_nat n) = Some (of_nat (foldl (\<lambda>n d. n * 10 + d) n ds))"
proof (induction ds arbitrary: s n)
  case Nil
  then show ?case by (auto simp: u_atoi_loop.simps [of m s])
next
  case (Cons d ds)
  then have "u_atoi_loop m s (of_nat n) = u_atoi_loop m (s + 1) (of_nat n * 10 + of_nat (48 + d) - 48)"
    using digit_char [of d] by (simp add: u_atoi_loop.simps [of m s])
  also have "(of_nat n * 10 + of_nat (48 + d) - 48 :: u32) = of_nat (n * 10 + d)" by simp
  finally show ?case using Cons.IH [of "s + 1" "n * 10 + d"] Cons.prems by simp
qed

lemma u_atoi_digits: "digits_at m s ds \<Longrightarrow> u_atoi m s = Some (of_nat (dec_val ds))"
  using u_atoi_loop_digits [of m s ds 0] by (simp add: u_atoi_def dec_val_def)

end
