(* ===== verification/Vm.thy ===== *)
theory Vm
  imports CString
begin

text \<open>
  \<^verbatim>\<open>vm.c\<close>: two-level x86 page tables in physical memory, and the operations that build, grow,
  copy and free the address space of a process.

  A page directory or page table is a page of 1024 words at a kernel virtual address; the words
  are loaded from and stored to the memory \<open>pmem\<close>, which is the one the allocator threads its
  free list through. The address \<open>data\<close> of the linker script \<^verbatim>\<open>kernel.ld\<close> is the field \<open>kdata\<close>.
  \<open>esp0\<close> is the kernel stack pointer \<^verbatim>\<open>ts.esp0\<close> and \<open>cr3\<close> the page-table register of this CPU.
  \<open>loaduvm\<close>, which reads a file, is in the theory \<^verbatim>\<open>Exec\<close>, \<open>switchuvm\<close> in \<^verbatim>\<open>Life\<close> and \<open>seginit\<close> in \<^verbatim>\<open>Boot\<close>.

  A loop over pages has fuel \<open>2 ^ 20 + 2\<close>: there are \<open>2 ^ 20\<close> page addresses, so a loop that
  makes more rounds (one more for a region that starts inside a page, and one for the last loop
  test) has met an address twice and never ends.
\<close>

record vmach = kmach +
  kdata :: u32
  kpgdir :: u32
  cr3 :: u32
  esp0 :: u32

section \<open>mmu.h\<close>

definition PTE_P :: u32 where [simp]: "PTE_P = 1"
definition PTE_W :: u32 where [simp]: "PTE_W = 2"
definition PTE_U :: u32 where [simp]: "PTE_U = 4"
definition NPTENTRIES :: u32 where [simp]: "NPTENTRIES = 1024"
definition NPDENTRIES :: nat where [simp]: "NPDENTRIES = 1024"

definition PDX :: "u32 \<Rightarrow> u32" where "PDX va = drop_bit 22 va AND 0x3FF"
definition PTX :: "u32 \<Rightarrow> u32" where "PTX va = drop_bit 12 va AND 0x3FF"
definition PTE_ADDR :: "u32 \<Rightarrow> u32" where "PTE_ADDR pte = pte AND NOT 0xFFF"
definition PTE_FLAGS :: "u32 \<Rightarrow> u32" where "PTE_FLAGS pte = pte AND 0xFFF"

section \<open>Operations\<close>

definition load32 :: "u32 \<Rightarrow> ('z kmach_scheme, u32) kern" where
  "load32 a = readk (\<lambda>s. mload32 (pmem s) a)"

definition store32 :: "u32 \<Rightarrow> u32 \<Rightarrow> ('z kmach_scheme, unit) kern" where
  "store32 a w = modk (\<lambda>s. s\<lparr>pmem := mstore32 (pmem s) a w\<rparr>)"

definition kmemset :: "u32 \<Rightarrow> u32 \<Rightarrow> u32 \<Rightarrow> ('z kmach_scheme, unit) kern" where
  "kmemset dst c n = modk (\<lambda>s. s\<lparr>pmem := memset (pmem s) dst c n\<rparr>)"

definition kmemmove :: "u32 \<Rightarrow> u32 \<Rightarrow> u32 \<Rightarrow> ('z kmach_scheme, unit) kern" where
  "kmemmove dst src n = modk (\<lambda>s. s\<lparr>pmem := memmove (pmem s) dst src n\<rparr>)"

definition walkpgdir :: "u32 \<Rightarrow> u32 \<Rightarrow> bool \<Rightarrow> ('z kmach_scheme, u32) kern" where
  "walkpgdir pgdir va alloc =
     bindk (load32 (pgdir + 4 * PDX va)) (\<lambda>pde.
     if pde AND PTE_P \<noteq> 0 then retk (p2v (PTE_ADDR pde) + 4 * PTX va) else
     if \<not> alloc then retk 0 else
     bindk kalloc (\<lambda>pgtab.
     if pgtab = 0 then retk 0 else
     thenk (kmemset pgtab 0 PGSIZE)
     (thenk (store32 (pgdir + 4 * PDX va) (v2p pgtab OR PTE_P OR PTE_W OR PTE_U))
     (retk (pgtab + 4 * PTX va)))))"

fun mappages_loop :: "nat \<Rightarrow> u32 \<Rightarrow> u32 \<Rightarrow> u32 \<Rightarrow> u32 \<Rightarrow> u32 \<Rightarrow> ('z kmach_scheme, int) kern" where
  "mappages_loop 0 pgdir a lst pa perm = spink"
| "mappages_loop (Suc fuel) pgdir a lst pa perm =
     bindk (walkpgdir pgdir a True) (\<lambda>pte.
     if pte = 0 then retk (-1) else
     bindk (load32 pte) (\<lambda>w.
     if w AND PTE_P \<noteq> 0 then panic ''remap'' else
     thenk (store32 pte (pa OR perm OR PTE_P))
     (if a = lst then retk 0
      else mappages_loop fuel pgdir (a + PGSIZE) lst (pa + PGSIZE) perm)))"

definition page_fuel :: nat where
  "page_fuel = 2 ^ 20 + 2"

definition mappages :: "u32 \<Rightarrow> u32 \<Rightarrow> u32 \<Rightarrow> u32 \<Rightarrow> u32 \<Rightarrow> ('z kmach_scheme, int) kern" where
  "mappages pgdir va sz pa perm =
     mappages_loop page_fuel pgdir (PGROUNDDOWN va) (PGROUNDDOWN (va + sz - 1)) pa perm"

text \<open>The table \<open>kmap\<close>: virtual address, physical start and end, permissions.\<close>

definition kmap :: "u32 \<Rightarrow> (u32 \<times> u32 \<times> u32 \<times> u32) list" where
  "kmap data =
     [(KERNBASE, 0, EXTMEM, PTE_W),
      (KERNLINK, v2p KERNLINK, v2p data, 0),
      (data, v2p data, PHYSTOP, PTE_W),
      (DEVSPACE, DEVSPACE, 0, PTE_W)]"

fun setupkvm_loop :: "(u32 \<times> u32 \<times> u32 \<times> u32) list \<Rightarrow> u32 \<Rightarrow> ('z kmach_scheme, u32) kern" where
  "setupkvm_loop [] pgdir = retk pgdir"
| "setupkvm_loop ((virt, pstart, pend, perm) # ks) pgdir =
     bindk (mappages pgdir virt (pend - pstart) pstart perm) (\<lambda>r.
     if r < 0 then retk 0 else setupkvm_loop ks pgdir)"

definition setupkvm :: "('z vmach_scheme, u32) kern" where
  "setupkvm =
     bindk kalloc (\<lambda>pgdir.
     if pgdir = 0 then retk 0 else
     thenk (kmemset pgdir 0 PGSIZE)
     (if p2v PHYSTOP > DEVSPACE then panic ''PHYSTOP too high'' else
     bindk (readk kdata) (\<lambda>data. setupkvm_loop (kmap data) pgdir)))"

definition lcr3 :: "u32 \<Rightarrow> ('z vmach_scheme, unit) kern" where
  "lcr3 a = modk (\<lambda>s. s\<lparr>cr3 := a\<rparr>)"

definition switchkvm :: "('z vmach_scheme, unit) kern" where
  "switchkvm = bindk (readk kpgdir) (\<lambda>d. lcr3 (v2p d))"

definition kvmalloc :: "('z vmach_scheme, unit) kern" where
  "kvmalloc =
     bindk setupkvm (\<lambda>d.
     thenk (modk (\<lambda>s. s\<lparr>kpgdir := d\<rparr>))
     switchkvm)"

definition inituvm :: "u32 \<Rightarrow> u32 \<Rightarrow> u32 \<Rightarrow> ('z kmach_scheme, unit) kern" where
  "inituvm pgdir init sz =
     (if PGSIZE \<le> sz then panic ''inituvm: more than a page'' else
      bindk kalloc (\<lambda>mem.
      thenk (kmemset mem 0 PGSIZE)
      (bindk (mappages pgdir 0 PGSIZE (v2p mem) (PTE_W OR PTE_U)) (\<lambda>_.
      kmemmove mem init sz))))"

fun deallocuvm_loop :: "nat \<Rightarrow> u32 \<Rightarrow> u32 \<Rightarrow> u32 \<Rightarrow> ('z kmach_scheme, unit) kern" where
  "deallocuvm_loop 0 pgdir a oldsz = spink"
| "deallocuvm_loop (Suc fuel) pgdir a oldsz =
     (if \<not> a < oldsz then retk () else
      bindk (walkpgdir pgdir a False) (\<lambda>pte.
      if pte = 0 then deallocuvm_loop fuel pgdir (a + (NPTENTRIES - 1) * PGSIZE + PGSIZE) oldsz else
      bindk (load32 pte) (\<lambda>w.
      if w AND PTE_P \<noteq> 0 then
        (if PTE_ADDR w = 0 then panic ''kfree'' else
         thenk (kfree (p2v (PTE_ADDR w)))
         (thenk (store32 pte 0)
         (deallocuvm_loop fuel pgdir (a + PGSIZE) oldsz)))
      else deallocuvm_loop fuel pgdir (a + PGSIZE) oldsz)))"

definition deallocuvm :: "u32 \<Rightarrow> u32 \<Rightarrow> u32 \<Rightarrow> ('z kmach_scheme, u32) kern" where
  "deallocuvm pgdir oldsz newsz =
     (if oldsz \<le> newsz then retk oldsz else
      thenk (deallocuvm_loop page_fuel pgdir (PGROUNDUP newsz) oldsz)
      (retk newsz))"

fun allocuvm_loop :: "nat \<Rightarrow> u32 \<Rightarrow> u32 \<Rightarrow> u32 \<Rightarrow> u32 \<Rightarrow> ('z kmach_scheme, u32) kern" where
  "allocuvm_loop 0 pgdir a oldsz newsz = spink"
| "allocuvm_loop (Suc fuel) pgdir a oldsz newsz =
     (if \<not> a < newsz then retk newsz else
      bindk kalloc (\<lambda>mem.
      if mem = 0 then bindk (deallocuvm pgdir newsz oldsz) (\<lambda>_. retk 0) else
      thenk (kmemset mem 0 PGSIZE)
      (bindk (mappages pgdir a PGSIZE (v2p mem) (PTE_W OR PTE_U)) (\<lambda>_.
      allocuvm_loop fuel pgdir (a + PGSIZE) oldsz newsz))))"

definition allocuvm :: "u32 \<Rightarrow> u32 \<Rightarrow> u32 \<Rightarrow> ('z kmach_scheme, u32) kern" where
  "allocuvm pgdir oldsz newsz =
     (if KERNBASE \<le> newsz then retk 0 else
      if newsz < oldsz then retk oldsz else
      allocuvm_loop page_fuel pgdir (PGROUNDUP oldsz) oldsz newsz)"

definition freevm_one :: "u32 \<Rightarrow> nat \<Rightarrow> ('z kmach_scheme, unit) kern" where
  "freevm_one pgdir i =
     bindk (load32 (pgdir + 4 * of_nat i)) (\<lambda>pde.
     whenk (pde AND PTE_P \<noteq> 0) (kfree (p2v (PTE_ADDR pde))))"

definition freevm :: "u32 \<Rightarrow> ('z kmach_scheme, unit) kern" where
  "freevm pgdir =
     (if pgdir = 0 then panic ''freevm: no pgdir'' else
      bindk (deallocuvm pgdir KERNBASE 0) (\<lambda>_.
      thenk (foreach [0..<NPDENTRIES] (freevm_one pgdir))
      (kfree pgdir)))"

definition clearpteu :: "u32 \<Rightarrow> u32 \<Rightarrow> ('z kmach_scheme, unit) kern" where
  "clearpteu pgdir uva =
     bindk (walkpgdir pgdir uva False) (\<lambda>pte.
     if pte = 0 then panic ''clearpteu'' else
     bindk (load32 pte) (\<lambda>w. store32 pte (w AND NOT PTE_U)))"

text \<open>The loop of \<open>copyuvm\<close>; \<open>False\<close> is the jump to \<open>bad\<close>.\<close>

fun copyuvm_loop :: "nat \<Rightarrow> u32 \<Rightarrow> u32 \<Rightarrow> u32 \<Rightarrow> u32 \<Rightarrow> ('z kmach_scheme, bool) kern" where
  "copyuvm_loop 0 pgdir d i sz = spink"
| "copyuvm_loop (Suc fuel) pgdir d i sz =
     (if \<not> i < sz then retk True else
      bindk (walkpgdir pgdir i False) (\<lambda>pte.
      if pte = 0 then panic ''copyuvm: pte should exist'' else
      bindk (load32 pte) (\<lambda>w.
      if w AND PTE_P = 0 then panic ''copyuvm: page not present'' else
      bindk kalloc (\<lambda>mem.
      if mem = 0 then retk False else
      thenk (kmemmove mem (p2v (PTE_ADDR w)) PGSIZE)
      (bindk (mappages d i PGSIZE (v2p mem) (PTE_FLAGS w)) (\<lambda>r.
      if r < 0 then retk False else copyuvm_loop fuel pgdir d (i + PGSIZE) sz))))))"

definition copyuvm :: "u32 \<Rightarrow> u32 \<Rightarrow> ('z vmach_scheme, u32) kern" where
  "copyuvm pgdir sz =
     bindk setupkvm (\<lambda>d.
     if d = 0 then retk 0 else
     bindk (copyuvm_loop page_fuel pgdir d 0 sz) (\<lambda>ok.
     if ok then retk d else thenk (freevm d) (retk 0)))"

text \<open>A virtual address through a page directory, as the hardware translates it for kernel code:
  the address of the byte in \<open>pmem\<close>, if the page is present.\<close>

definition translate :: "mem \<Rightarrow> u32 \<Rightarrow> u32 \<Rightarrow> u32 option" where
  "translate m pgdir va =
     (let pde = mload32 m (pgdir + 4 * PDX va) in
      if pde AND PTE_P = 0 then None else
      let pte = mload32 m (p2v (PTE_ADDR pde) + 4 * PTX va) in
      if pte AND PTE_P = 0 then None else Some (p2v (PTE_ADDR pte) + (va AND 0xFFF)))"

text \<open>A load of kernel code from a virtual address below \<^verbatim>\<open>KERNBASE\<close>, in the address space that is
  loaded in \<open>cr3\<close>. A fault in the kernel ends in the panic of \<open>trap\<close>.\<close>

definition vread8 :: "u32 \<Rightarrow> ('z vmach_scheme, u8) kern" where
  "vread8 va =
     bindk (readk (\<lambda>s. map_option (pmem s) (translate (pmem s) (p2v (cr3 s)) va))) (\<lambda>b.
     case b of None \<Rightarrow> panic ''trap'' | Some w \<Rightarrow> retk w)"

definition vread32 :: "u32 \<Rightarrow> ('z vmach_scheme, u32) kern" where
  "vread32 va =
     bindk (vread8 va) (\<lambda>b0. bindk (vread8 (va + 1)) (\<lambda>b1.
     bindk (vread8 (va + 2)) (\<lambda>b2. bindk (vread8 (va + 3)) (\<lambda>b3.
     retk (ucast b0 OR push_bit 8 (ucast b1) OR push_bit 16 (ucast b2) OR push_bit 24 (ucast b3))))))"

text \<open>\<open>uva2ka\<close> does not test the result of \<open>walkpgdir\<close>: without a page table it reads the word at
  virtual address 0 of the current address space.\<close>

definition uva2ka :: "u32 \<Rightarrow> u32 \<Rightarrow> ('z vmach_scheme, u32) kern" where
  "uva2ka pgdir uva =
     bindk (walkpgdir pgdir uva False) (\<lambda>pte.
     bindk (if pte = 0 then vread32 0 else load32 pte) (\<lambda>w.
     if w AND PTE_P = 0 then retk 0 else
     if w AND PTE_U = 0 then retk 0 else
     retk (p2v (PTE_ADDR w))))"

text \<open>\<open>copyout\<close>, with the kernel object at \<open>p\<close> as a byte function \<open>buf\<close> and the offset reached.\<close>

definition put_bytes :: "mem \<Rightarrow> u32 \<Rightarrow> bytes \<Rightarrow> nat \<Rightarrow> nat \<Rightarrow> mem" where
  "put_bytes m dst buf off n = (\<lambda>x. if unat (x - dst) < n then buf (off + unat (x - dst)) else m x)"

fun copyout_loop :: "nat \<Rightarrow> u32 \<Rightarrow> u32 \<Rightarrow> bytes \<Rightarrow> nat \<Rightarrow> u32 \<Rightarrow> ('z vmach_scheme, int) kern" where
  "copyout_loop 0 pgdir va buf off len = spink"
| "copyout_loop (Suc fuel) pgdir va buf off len =
     (if \<not> 0 < len then retk 0 else
      let va0 = PGROUNDDOWN va in
      bindk (uva2ka pgdir va0) (\<lambda>pa0.
      if pa0 = 0 then retk (-1) else
      let n = PGSIZE - (va - va0); n = (if n > len then len else n) in
      thenk (modk (\<lambda>s. s\<lparr>pmem := put_bytes (pmem s) (pa0 + (va - va0)) buf off (unat n)\<rparr>))
      (copyout_loop fuel pgdir (va0 + PGSIZE) buf (off + unat n) (len - n))))"

definition copyout :: "u32 \<Rightarrow> u32 \<Rightarrow> bytes \<Rightarrow> u32 \<Rightarrow> ('z vmach_scheme, int) kern" where
  "copyout pgdir va buf len = copyout_loop page_fuel pgdir va buf 0 len"

declare mappages_loop.simps(2) [simp del] deallocuvm_loop.simps(2) [simp del]
  allocuvm_loop.simps(2) [simp del] copyuvm_loop.simps(2) [simp del] copyout_loop.simps(2) [simp del]

section \<open>Words of pages\<close>

lemma page_unat:
  assumes "p mod PGSIZE = 0" obtains a where "unat p = 4096 * a" "a < 1048576"
proof -
  obtain a where a: "unat p = 4096 * a"
    using assms by (auto simp: mod_eq_0_iff_dvd dvd_def unat_mod simp flip: unat_eq_0)
  moreover have "a < 1048576" using a unat32_lt [of p] by simp
  ultimately show thesis by (rule that)
qed

lemma unat_slot:
  fixes p i :: u32
  assumes "unat p = 4096 * a" "i < 1024"
  shows "unat (p + 4 * i) = 4096 * a + 4 * unat i"
proof -
  have i: "unat i < 1024" using assms(2) by (simp add: word_less_nat_alt)
  then have "unat (4 * i) = 4 * unat i" by (simp add: unat_word_ariths)
  moreover have "4096 * a + 4 * unat i < 4294967296"
    using assms(1) unat32_lt [of p] i by simp
  ultimately show ?thesis using assms(1) by (simp add: unat_word_ariths)
qed

lemma slot_eq_iff:
  assumes "p mod PGSIZE = 0" "q mod PGSIZE = 0" "i < 1024" "j < 1024"
  shows "p + 4 * i = q + 4 * j \<longleftrightarrow> p = q \<and> i = j"
proof -
  obtain a where a: "unat p = 4096 * a" using assms(1) by (rule page_unat)
  obtain b where b: "unat q = 4096 * b" using assms(2) by (rule page_unat)
  have i: "unat i < 1024" "unat j < 1024" using assms(3,4) by (simp_all add: word_less_nat_alt)
  have "p = q \<and> i = j" if "p + 4 * i = q + 4 * j"
  proof -
    have "4096 * a + 4 * unat i = 4096 * b + 4 * unat j"
      using arg_cong [OF that, of unat] unat_slot [OF a assms(3)] unat_slot [OF b assms(4)] by simp
    then have ab: "a = b" using i by simp
    with \<open>4096 * a + 4 * unat i = 4096 * b + 4 * unat j\<close> have "unat i = unat j" by simp
    with ab show ?thesis using a b by (metis word_unat_eq_iff)
  qed
  then show ?thesis by auto
qed

lemma slot_apart:
  assumes "p mod PGSIZE = 0" "q mod PGSIZE = 0" "i < 1024" "j < 1024" "p + 4 * i \<noteq> q + 4 * j" "k < 4"
  shows "4 \<le> unat (q + 4 * j + of_nat k - (p + 4 * i))"
proof -
  obtain a where a: "unat p = 4096 * a" "a < 1048576" using assms(1) by (rule page_unat)
  obtain b where b: "unat q = 4096 * b" "b < 1048576" using assms(2) by (rule page_unat)
  have i: "unat i < 1024" "unat j < 1024" using assms(3,4) by (simp_all add: word_less_nat_alt)
  have P: "unat (p + 4 * i) = 4 * (1024 * a + unat i)" using unat_slot [OF a(1) assms(3)] by simp
  have Q: "unat (q + 4 * j) = 4 * (1024 * b + unat j)" using unat_slot [OF b(1) assms(4)] by simp
  have ne: "1024 * a + unat i \<noteq> 1024 * b + unat j"
    using assms(5) P Q by (metis word_unat_eq_iff)
  have le: "a \<le> 1048575" "b \<le> 1048575" "unat i \<le> 1023" "unat j \<le> 1023" using a b i by simp_all
  then have "4 * (1024 * b + unat j) + 3 < 4294967296" by simp
  then have "unat (q + 4 * j + of_nat k) = 4 * (1024 * b + unat j) + k"
    using Q assms(6) by (simp add: unat_word_ariths)
  then show ?thesis
    using P ne assms(6) le by (simp add: unat_sub_if') linarith
qed

text \<open>The \<open>i\<close>th word of the page at \<open>p\<close>.\<close>

definition slot :: "mem \<Rightarrow> u32 \<Rightarrow> u32 \<Rightarrow> u32" where
  "slot m p i = mload32 m (p + 4 * i)"

lemma slot_store:
  assumes "p mod PGSIZE = 0" "q mod PGSIZE = 0" "i < 1024" "j < 1024"
  shows "slot (mstore32 m (p + 4 * i) w) q j = (if p = q \<and> i = j then w else slot m q j)"
proof (cases "p + 4 * i = q + 4 * j")
  case True
  then show ?thesis using slot_eq_iff [OF assms] by (auto simp: slot_def)
next
  case False
  then have "mload32 (mstore32 m (p + 4 * i) w) (q + 4 * j) = mload32 m (q + 4 * j)"
    using slot_apart [OF assms] by (intro mload32_cong mstore32_other) auto
  then show ?thesis using False slot_eq_iff [OF assms] by (auto simp: slot_def)
qed

text \<open>A page whose bytes did not change.\<close>

definition same_page :: "mem \<Rightarrow> mem \<Rightarrow> u32 \<Rightarrow> bool" where
  "same_page m m' p \<longleftrightarrow> (\<forall>i < 4096. m' (p + of_nat i) = m (p + of_nat i))"

lemma same_page_refl [simp]: "same_page m m p"
  by (simp add: same_page_def)

lemma same_page_trans: "same_page m m' p \<Longrightarrow> same_page m' m'' p \<Longrightarrow> same_page m m'' p"
  by (simp add: same_page_def)

lemma same_page_slot:
  assumes "same_page m m' p" "i < 1024"
  shows "slot m' p i = slot m p i"
proof -
  have "m' (p + 4 * i + of_nat k) = m (p + 4 * i + of_nat k)" if "k < 4" for k
  proof -
    have i: "unat i < 1024" using assms(2) by (simp add: word_less_nat_alt)
    then have "4 * i + of_nat k = (of_nat (4 * unat i + k) :: u32)" by simp
    moreover have "4 * unat i + k < 4096" using i that by simp
    ultimately show ?thesis using assms(1) unfolding same_page_def by (metis add.assoc)
  qed
  then show ?thesis unfolding slot_def by (intro mload32_cong)
qed

lemma page_apart':
  assumes "p mod PGSIZE = 0" "q mod PGSIZE = 0" "p \<noteq> q" "i < 1024" "k < 4096"
  shows "4 \<le> unat (q + of_nat k - (p + 4 * i))"
proof -
  have i: "unat i < 1024" using assms(4) by (simp add: word_less_nat_alt)
  have "q + of_nat k - (p + 4 * i) = (q + of_nat k - p) - 4 * i" by simp
  moreover have "4096 \<le> unat (q + of_nat k - p)" using assms by (intro page_apart) auto
  moreover have "unat (4 * i) = 4 * unat i" using i by (simp add: unat_word_ariths)
  ultimately show ?thesis using i by (simp only: unat_sub_if') simp
qed

lemma store_same_page:
  assumes "p mod PGSIZE = 0" "q mod PGSIZE = 0" "p \<noteq> q" "i < 1024"
  shows "same_page m (mstore32 m (p + 4 * i) w) q"
  unfolding same_page_def using page_apart' [OF assms] mstore32_other by blast

lemma fill_same_page:
  assumes "p mod PGSIZE = 0" "q mod PGSIZE = 0" "p \<noteq> q"
  shows "same_page m (mset_mem m p c 4096) q"
  unfolding same_page_def using page_apart assms mset_mem_other by metis

lemma free_same_page:
  assumes "p mod PGSIZE = 0" "q mod PGSIZE = 0" "p \<noteq> q"
  shows "same_page m (mstore32 (mset_mem m p c 4096) p w) q"
  unfolding same_page_def using freed_other assms by metis

lemma fill_slot:
  assumes "i < 1024"
  shows "slot (mset_mem m p 0 4096) p i = 0"
proof -
  have "mset_mem m p 0 4096 (p + 4 * i + of_nat k) = 0" if "k < 4" for k
  proof -
    have i: "unat i < 1024" using assms by (simp add: word_less_nat_alt)
    then have "p + 4 * i + of_nat k - p = (of_nat (4 * unat i + k) :: u32)" by simp
    moreover have "4 * unat i + k < 4096" using i that by simp
    moreover from this have "unat (of_nat (4 * unat i + k) :: u32) < 4096"
      by (simp only: unat32_of_nat)
    ultimately show ?thesis unfolding mset_mem_def by (simp only: if_True)
  qed
  then have "mload32 (mset_mem m p 0 4096) (p + 4 * i) = mload32 (\<lambda>_. 0) (p + 4 * i)"
    by (intro mload32_cong)
  then show ?thesis by (simp add: slot_def mload32_def get32_def)
qed

section \<open>Page directories\<close>

text \<open>
  \<open>T\<close> gives the page table of each present directory entry. \<open>pgd_inv s ps d T\<close>: the directory at
  \<open>d\<close> has exactly these tables, and the pages of directory and tables are distinct from each
  other and from the free pages \<open>ps\<close>.
\<close>

type_synonym tables = "u32 \<rightharpoonup> u32"

definition tabs_ok :: "'z kmach_scheme \<Rightarrow> u32 list \<Rightarrow> u32 \<Rightarrow> tables \<Rightarrow> bool" where
  "tabs_ok s ps d T \<longleftrightarrow> page_ok s d \<and> d \<notin> set ps
     \<and> (\<forall>i p. T i = Some p \<longrightarrow> i < 1024 \<and> page_ok s p \<and> p \<noteq> d \<and> p \<notin> set ps)
     \<and> (\<forall>i j p. T i = Some p \<longrightarrow> T j = Some p \<longrightarrow> i = j)"

definition dir_maps :: "mem \<Rightarrow> u32 \<Rightarrow> tables \<Rightarrow> bool" where
  "dir_maps m d T \<longleftrightarrow> (\<forall>i < 1024. case T i of
       None \<Rightarrow> slot m d i AND 1 = 0
     | Some p \<Rightarrow> slot m d i AND 1 \<noteq> 0 \<and> p2v (PTE_ADDR (slot m d i)) = p)"

definition pgd_inv :: "'z kmach_scheme \<Rightarrow> u32 list \<Rightarrow> u32 \<Rightarrow> tables \<Rightarrow> bool" where
  "pgd_inv s ps d T \<longleftrightarrow> kmem_quiet s ps \<and> tabs_ok s ps d T \<and> dir_maps (pmem s) d T"

text \<open>The page-table entry of a virtual address; 0 when it has no page table.\<close>

definition pte_of :: "mem \<Rightarrow> tables \<Rightarrow> u32 \<Rightarrow> u32" where
  "pte_of m T va = (case T (PDX va) of None \<Rightarrow> 0 | Some p \<Rightarrow> slot m p (PTX va))"

text \<open>The operations change memory and the free list only.\<close>

definition vrest :: "'z kmach_scheme \<Rightarrow> 'z kmach_scheme" where
  "vrest s = s\<lparr>pmem := (\<lambda>_. 0), freelist := 0\<rparr>"

definition vframe :: "'z kmach_scheme \<Rightarrow> 'z kmach_scheme \<Rightarrow> bool" where
  "vframe s t \<longleftrightarrow> vrest t = vrest s"

lemma vrest_upd [simp]: "vrest (s\<lparr>pmem := m\<rparr>) = vrest s" "vrest (s\<lparr>freelist := f\<rparr>) = vrest s"
  by (simp_all add: vrest_def)

lemma vframe_upd [simp]:
  "vframe s (t\<lparr>pmem := m\<rparr>) = vframe s t" "vframe s (t\<lparr>freelist := f\<rparr>) = vframe s t"
  by (simp_all add: vframe_def)

lemma vframe_refl [simp]: "vframe s s"
  by (simp add: vframe_def)

lemma vframe_trans [trans]: "vframe s t \<Longrightarrow> vframe t u \<Longrightarrow> vframe s u"
  by (simp add: vframe_def)

lemma vrest_sel: "kend (vrest s) = kend s" "lk (vrest s) = lk s" "use_lock (vrest s) = use_lock s"
  "kmach.more (vrest s) = kmach.more s"
  by (simp_all add: vrest_def)

lemma vframe_simps:
  assumes "vframe s t"
  shows "kend t = kend s" "page_ok t = page_ok s" "lk t = lk s" "kmach.more t = kmach.more s"
proof -
  have "kend t = kend s \<and> lk t = lk s \<and> kmach.more t = kmach.more s"
    using assms vrest_sel [of s] vrest_sel [of t] by (simp add: vframe_def)
  then show "kend t = kend s" "page_ok t = page_ok s" "lk t = lk s" "kmach.more t = kmach.more s"
    by (simp_all add: page_ok_def fun_eq_iff)
qed

lemma page_ok_upd [simp]:
  "page_ok (s\<lparr>pmem := m\<rparr>) = page_ok s" "page_ok (s\<lparr>freelist := f\<rparr>) = page_ok s"
  by (simp_all add: page_ok_def fun_eq_iff)

lemma page_ok_mod: "page_ok s p \<Longrightarrow> p mod PGSIZE = 0"
  by (simp add: page_ok_def)

lemma tabs_ok_upd [simp]:
  "tabs_ok (s\<lparr>pmem := m\<rparr>) = tabs_ok s" "tabs_ok (s\<lparr>freelist := f\<rparr>) = tabs_ok s"
  by (simp_all add: tabs_ok_def fun_eq_iff)

lemma PDX_lt [simp]: "PDX va < 1024" and PTX_lt [simp]: "PTX va < 1024"
proof -
  have "x AND 0x3FF < 1024" for x :: u32
  proof -
    have "x AND 0x3FF = take_bit 10 x" by (simp add: take_bit_eq_mask mask_eq_exp_minus_1)
    then have "unat (x AND 0x3FF) < 1024"
      using take_bit_nat_less_exp [of 10 "unat x"] by (simp add: unsigned_take_bit_eq)
    then show ?thesis by (simp add: word_less_nat_alt)
  qed
  then show "PDX va < 1024" "PTX va < 1024" by (simp_all add: PDX_def PTX_def)
qed

lemma page_mask:
  assumes "p mod PGSIZE = 0"
  shows "v2p p AND NOT 0xFFF = v2p p"
proof -
  obtain a where a: "unat p = 4096 * a" "a < 1048576" using assms by (rule page_unat)
  have "v2p p = p + 0x80000000" by (simp add: v2p_def)
  then have "unat (v2p p) = (4096 * a + 2147483648) mod 4294967296"
    using a by (simp add: unat_word_ariths)
  moreover have "4096 dvd (4096 * a + 2147483648) mod (4294967296 :: nat)"
    by (intro dvd_mod dvd_add dvd_triv_left) simp_all
  ultimately have "4096 * (unat (v2p p) div 4096) = unat (v2p p)" by (simp only: dvd_mult_div_cancel)
  then have "PGROUNDDOWN (v2p p) = v2p p"
    using PGROUNDDOWN_unat [of "v2p p"] by (metis word_unat_eq_iff)
  then show ?thesis by (simp add: PGROUNDDOWN_def)
qed

lemma PTE_ADDR_page:
  assumes "p mod PGSIZE = 0" "f AND NOT 0xFFF = 0"
  shows "PTE_ADDR (v2p p OR f) = v2p p"
  using page_mask [OF assms(1)] assms(2) by (simp add: PTE_ADDR_def bit.conj_disj_distrib2)

lemma kmem_quiet_pmem:
  assumes "kmem_quiet s ps" "\<And>p. p \<in> set ps \<Longrightarrow> same_page (pmem s) m p"
  shows "kmem_quiet (s\<lparr>pmem := m\<rparr>) ps"
proof -
  have "flist (pmem s) r qs \<Longrightarrow> set qs \<subseteq> set ps \<Longrightarrow> flist m r qs" for r qs
  proof (induction qs arbitrary: r)
    case (Cons q qs)
    then have "slot m q 0 = slot (pmem s) q 0" by (intro same_page_slot assms(2)) auto
    with Cons show ?case by (simp add: slot_def)
  qed simp
  then show ?thesis
    using assms(1) by (auto simp: kmem_quiet_def kmem_inv_def cong: quiet_cong)
qed

lemma kalloc_pop:
  assumes "kmem_quiet s (q # qs)"
  obtains f where "kalloc s = Ok q (s\<lparr>freelist := f\<rparr>)" "kmem_quiet (s\<lparr>freelist := f\<rparr>) qs"
    "page_ok s q" "q \<noteq> 0" "q \<notin> set qs"
proof
  let ?f = "mload32 (pmem s) (freelist s)"
  have q: "freelist s = q" "q \<noteq> 0" using assms by (auto simp: kmem_quiet_def kmem_inv_def)
  then show "kalloc s = Ok q (s\<lparr>freelist := ?f\<rparr>)"
    using assms by (simp add: kalloc_run kmem_quiet_def)
  show "kmem_quiet (s\<lparr>freelist := ?f\<rparr>) qs"
    using assms q by (auto simp: kmem_quiet_def kmem_inv_def cong: quiet_cong)
  show "page_ok s q" "q \<noteq> 0" "q \<notin> set qs"
    using assms q by (auto simp: kmem_quiet_def kmem_inv_def)
qed

lemma tabs_okD:
  assumes "tabs_ok s ps d T"
  shows "page_ok s d" "d \<notin> set ps" "T i = Some p \<Longrightarrow> i < 1024" "T i = Some p \<Longrightarrow> page_ok s p"
    "T i = Some p \<Longrightarrow> p \<noteq> d" "T i = Some p \<Longrightarrow> p \<notin> set ps" "T i = Some p \<Longrightarrow> T j = Some p \<Longrightarrow> i = j"
  using assms unfolding tabs_ok_def by blast+

lemma dir_mapsD:
  assumes "dir_maps m d T" "i < 1024"
  shows "T i = None \<Longrightarrow> slot m d i AND 1 = 0"
    "T i = Some p \<Longrightarrow> slot m d i AND 1 \<noteq> 0 \<and> p2v (PTE_ADDR (slot m d i)) = p"
  using assms unfolding dir_maps_def by (auto dest!: spec [of _ i])

lemma dir_maps_same: "dir_maps m d T \<Longrightarrow> same_page m m' d \<Longrightarrow> dir_maps m' d T"
  unfolding dir_maps_def by (simp add: same_page_slot cong: option.case_cong)

lemma pte_of_same:
  "(\<And>i p. T i = Some p \<Longrightarrow> same_page m m' p) \<Longrightarrow> pte_of m' T va = pte_of m T va"
  by (auto simp: pte_of_def same_page_slot split: option.split)

lemma walk_none:
  assumes "pgd_inv s ps d T" "T (PDX va) = None"
  shows "walkpgdir d va False s = Ok 0 s"
  using dir_mapsD(1) [OF _ PDX_lt, of "pmem s" d T va] assms
  by (simp add: walkpgdir_def load32_def pgd_inv_def flip: slot_def)

lemma walk_some:
  assumes "pgd_inv s ps d T" "T (PDX va) = Some p"
  shows "walkpgdir d va al s = Ok (p + 4 * PTX va) s" "p + 4 * PTX va \<noteq> 0"
    "mload32 (pmem s) (p + 4 * PTX va) = pte_of (pmem s) T va"
proof -
  show "walkpgdir d va al s = Ok (p + 4 * PTX va) s"
    using dir_mapsD(2) [OF _ PDX_lt, of "pmem s" d T va] assms
    by (simp add: walkpgdir_def load32_def pgd_inv_def flip: slot_def)
  have "page_ok s p" using assms tabs_okD by (auto simp: pgd_inv_def)
  then have "p mod PGSIZE = 0" "p \<noteq> 0" by (rule page_ok_mod, rule page_ok_nz)
  then show "p + 4 * PTX va \<noteq> 0"
    using slot_eq_iff [of p 0 "PTX va" 0] by simp
  show "mload32 (pmem s) (p + 4 * PTX va) = pte_of (pmem s) T va"
    using assms(2) by (simp add: pte_of_def slot_def)
qed

lemma walk_oom:
  assumes "pgd_inv s [] d T" "T (PDX va) = None"
  shows "walkpgdir d va True s = Ok 0 s"
  using dir_mapsD(1) [OF _ PDX_lt, of "pmem s" d T va] assms
  by (simp add: walkpgdir_def load32_def pgd_inv_def kalloc.alloc_nil flip: slot_def)

text \<open>A page table is made on demand: a zeroed page from the free list. No mapping changes.\<close>

lemma walk_new:
  assumes "pgd_inv s (q # qs) d T" "T (PDX va) = None"
  shows "runs (walkpgdir d va True) s (\<lambda>a t. a = q + 4 * PTX va \<and> vframe s t
    \<and> pgd_inv t qs d (T(PDX va \<mapsto> q))
    \<and> (\<forall>v. pte_of (pmem t) (T(PDX va \<mapsto> q)) v = pte_of (pmem s) T v)
    \<and> (\<forall>p. page_ok s p \<longrightarrow> p \<noteq> d \<longrightarrow> p \<noteq> q \<longrightarrow> same_page (pmem s) (pmem t) p))"
proof -
  have k: "kmem_quiet s (q # qs)" and tab: "tabs_ok s (q # qs) d T" and dir: "dir_maps (pmem s) d T"
    using assms(1) by (simp_all add: pgd_inv_def)
  obtain f where f: "kalloc s = Ok q (s\<lparr>freelist := f\<rparr>)" "kmem_quiet (s\<lparr>freelist := f\<rparr>) qs"
    and q: "page_ok s q" "q \<noteq> 0" "q \<notin> set qs" using k by (rule kalloc_pop)
  define m1 where "m1 = mset_mem (pmem s) q 0 4096"
  define w where "w = v2p q OR 7"
  define m2 where "m2 = mstore32 m1 (d + 4 * PDX va) w"
  have al: "q mod PGSIZE = 0" "d mod PGSIZE = 0" "\<And>p. page_ok s p \<Longrightarrow> p mod PGSIZE = 0"
    using q(1) tabs_okD(1) [OF tab] page_ok_mod by blast+
  have dq: "d \<noteq> q" using tabs_okD(2) [OF tab] by simp
  have same: "same_page (pmem s) m2 p" if "page_ok s p" "p \<noteq> d" "p \<noteq> q" for p
    unfolding m2_def m1_def using al that
    by (intro same_page_trans [OF fill_same_page store_same_page]) auto
  have run: "walkpgdir d va True s = Ok (q + 4 * PTX va) (s\<lparr>freelist := f, pmem := m2\<rparr>)"
    using dir_mapsD(1) [OF dir PDX_lt assms(2)] f(1) q(2)
    by (simp add: walkpgdir_def load32_def kmemset_def store32_def memset_fill m1_def m2_def w_def
        flip: slot_def)
  have "dir_maps m2 d (T(PDX va \<mapsto> q))"
    unfolding dir_maps_def
  proof (intro allI impI)
    fix i :: u32
    assume i: "i < 1024"
    have "same_page (pmem s) m1 d" unfolding m1_def using al dq by (intro fill_same_page) auto
    then have "slot m2 d i = (if PDX va = i then w else slot (pmem s) d i)"
      using slot_store [OF al(2,2) PDX_lt i] i by (simp add: m2_def same_page_slot)
    moreover have "w AND 1 \<noteq> 0" "p2v (PTE_ADDR w) = q"
      using PTE_ADDR_page [OF al(1), of 7] by (simp_all add: w_def bit.conj_disj_distrib2)
    ultimately show "case (T(PDX va \<mapsto> q)) i of None \<Rightarrow> slot m2 d i AND 1 = 0
      | Some p \<Rightarrow> slot m2 d i AND 1 \<noteq> 0 \<and> p2v (PTE_ADDR (slot m2 d i)) = p"
      using dir_mapsD [OF dir i] by (auto split: option.split)
  qed
  moreover have "tabs_ok s qs d (T(PDX va \<mapsto> q))"
    using tab q dq unfolding tabs_ok_def by (auto split: if_splits)
  moreover have "kmem_quiet (s\<lparr>freelist := f, pmem := m2\<rparr>) qs"
  proof (rule kmem_quiet_pmem [OF f(2)])
    fix p assume p: "p \<in> set qs"
    then have "page_ok s p" "p \<noteq> d" "p \<noteq> q"
      using k q(3) tabs_okD(2) [OF tab] by (auto simp: kmem_quiet_def kmem_inv_def)
    then show "same_page (pmem (s\<lparr>freelist := f\<rparr>)) m2 p" using same by simp
  qed
  ultimately have inv: "pgd_inv (s\<lparr>freelist := f, pmem := m2\<rparr>) qs d (T(PDX va \<mapsto> q))"
    by (simp add: pgd_inv_def)
  have "slot m2 q (PTX v) = 0" for v
    using slot_store [OF al(2,1) PDX_lt PTX_lt] dq fill_slot by (simp add: m2_def m1_def)
  moreover have "slot m2 p (PTX v) = slot (pmem s) p (PTX v)" if "T i = Some p" for i p v
    using tabs_okD(4,5,6) [OF tab that] by (intro same_page_slot same) auto
  ultimately have "pte_of m2 (T(PDX va \<mapsto> q)) v = pte_of (pmem s) T v" for v
    using assms(2) by (auto simp: pte_of_def split: option.split)
  with run inv same show ?thesis by (intro runsI) auto
qed

text \<open>Storing a page-table entry changes that entry only.\<close>

lemma store_pte:
  fixes w :: u32
  assumes "pgd_inv s ps d T" "T (PDX va) = Some p"
  defines "m \<equiv> mstore32 (pmem s) (p + 4 * PTX va) w"
  shows "pgd_inv (s\<lparr>pmem := m\<rparr>) ps d T"
    "pte_of m T v = (if PDX v = PDX va \<and> PTX v = PTX va then w else pte_of (pmem s) T v)"
    "page_ok s q \<Longrightarrow> q \<noteq> p \<Longrightarrow> same_page (pmem s) m q"
proof -
  have k: "kmem_quiet s ps" and tab: "tabs_ok s ps d T" and dir: "dir_maps (pmem s) d T"
    using assms(1) by (simp_all add: pgd_inv_def)
  note p = tabs_okD(4-6) [OF tab assms(2)]
  note pm = page_ok_mod [OF p(1)]
  have same: "same_page (pmem s) m q" if "page_ok s q" "q \<noteq> p" for q
    unfolding m_def by (rule store_same_page [OF pm page_ok_mod [OF that(1)] that(2) [symmetric] PTX_lt])
  then show "page_ok s q \<Longrightarrow> q \<noteq> p \<Longrightarrow> same_page (pmem s) m q" .
  have "kmem_quiet (s\<lparr>pmem := m\<rparr>) ps"
    using k p(3) by (intro kmem_quiet_pmem same) (auto simp: kmem_quiet_def kmem_inv_def)
  moreover have "dir_maps m d T"
    using dir_maps_same [OF dir same [OF tabs_okD(1) [OF tab]]] p(2) by simp
  ultimately show "pgd_inv (s\<lparr>pmem := m\<rparr>) ps d T" using tab by (simp add: pgd_inv_def)
  show "pte_of m T v = (if PDX v = PDX va \<and> PTX v = PTX va then w else pte_of (pmem s) T v)"
  proof (cases "T (PDX v)")
    case None
    then show ?thesis using assms(2) by (auto simp: pte_of_def)
  next
    case (Some q)
    have "slot m q (PTX v) = (if p = q \<and> PTX va = PTX v then w else slot (pmem s) q (PTX v))"
      unfolding m_def
      by (rule slot_store [OF pm page_ok_mod [OF tabs_okD(4) [OF tab Some]] PTX_lt PTX_lt])
    moreover have "p = q \<longleftrightarrow> PDX v = PDX va"
      using Some assms(2) tabs_okD(7) [OF tab Some, of "PDX va"] by (metis option.inject)
    ultimately show ?thesis using Some by (auto simp: pte_of_def)
  qed
qed

text \<open>What a run of \<open>mappages\<close> and its callers may do besides setting entries: add page tables
  taken from the free list.\<close>

definition grown :: "'z kmach_scheme \<Rightarrow> u32 list \<Rightarrow> u32 \<Rightarrow> tables \<Rightarrow> 'z kmach_scheme \<Rightarrow> u32 list \<Rightarrow> tables \<Rightarrow> bool" where
  "grown s ps d T t ps' T' \<longleftrightarrow> vframe s t \<and> pgd_inv t ps' d T' \<and> T \<subseteq>\<^sub>m T'
     \<and> (\<exists>qs. ps = qs @ ps' \<and> ran T' = ran T \<union> set qs)
     \<and> (\<forall>p. page_ok s p \<longrightarrow> p \<noteq> d \<longrightarrow> p \<notin> ran T' \<longrightarrow> same_page (pmem s) (pmem t) p)"

lemma grownI:
  assumes "vframe s t" "pgd_inv t ps' d T'" "T \<subseteq>\<^sub>m T'" "ps = qs @ ps'" "ran T' = ran T \<union> set qs"
    "\<And>p. page_ok s p \<Longrightarrow> p \<noteq> d \<Longrightarrow> p \<notin> ran T' \<Longrightarrow> same_page (pmem s) (pmem t) p"
  shows "grown s ps d T t ps' T'"
  unfolding grown_def using assms by blast

lemma grown_refl: "pgd_inv s ps d T \<Longrightarrow> grown s ps d T s ps T"
  by (rule grownI [of _ _ _ _ _ _ _ "[]"]) auto

lemma walk_any:
  assumes "pgd_inv s ps d T" "ps \<noteq> [] \<or> T (PDX va) \<noteq> None"
  shows "runs (walkpgdir d va True) s (\<lambda>a t. \<exists>p. a = p + 4 * PTX va
    \<and> grown s ps d T t (if T (PDX va) = None then tl ps else ps) (T(PDX va \<mapsto> p))
    \<and> (\<forall>v. pte_of (pmem t) (T(PDX va \<mapsto> p)) v = pte_of (pmem s) T v))"
proof (cases "T (PDX va)")
  case None
  with assms obtain q qs where ps: "ps = q # qs" by (cases ps) auto
  have le: "T \<subseteq>\<^sub>m T(PDX va \<mapsto> q)" using None by (auto simp: map_le_def)
  have ran: "ran (T(PDX va \<mapsto> q)) = ran T \<union> set [q]" using None by simp
  have "q \<in> ran (T(PDX va \<mapsto> q))" by (auto simp: ran_def)
  show ?thesis
    using walk_new [OF assms(1) [unfolded ps] None]
  proof (rule runs_mono, elim conjE)
    fix a t
    assume t: "a = q + 4 * PTX va" "vframe s t" "pgd_inv t qs d (T(PDX va \<mapsto> q))"
      "\<forall>v. pte_of (pmem t) (T(PDX va \<mapsto> q)) v = pte_of (pmem s) T v"
      "\<forall>p. page_ok s p \<longrightarrow> p \<noteq> d \<longrightarrow> p \<noteq> q \<longrightarrow> same_page (pmem s) (pmem t) p"
    have "grown s ps d T t qs (T(PDX va \<mapsto> q))"
      using t \<open>q \<in> ran _\<close> by (intro grownI [OF _ _ le _ ran]) (auto simp: ps)
    then show "\<exists>p. a = p + 4 * PTX va
        \<and> grown s ps d T t (if T (PDX va) = None then tl ps else ps) (T(PDX va \<mapsto> p))
        \<and> (\<forall>v. pte_of (pmem t) (T(PDX va \<mapsto> p)) v = pte_of (pmem s) T v)"
      using t(1,4) None ps by (intro exI [of _ q]) simp
  qed
next
  case (Some p)
  then have "T(PDX va \<mapsto> p) = T" by auto
  then show ?thesis
    using walk_some [OF assms(1) Some] grown_refl [OF assms(1)] Some
    by (intro runsI exI [of _ p]) auto
qed

lemma grownD:
  assumes "grown s ps d T t ps' T'"
  shows "vframe s t" "pgd_inv t ps' d T'" "T \<subseteq>\<^sub>m T'"
    "page_ok s p \<Longrightarrow> p \<noteq> d \<Longrightarrow> p \<notin> ran T' \<Longrightarrow> same_page (pmem s) (pmem t) p"
    "\<exists>qs. ps = qs @ ps' \<and> ran T' = ran T \<union> set qs"
  using assms unfolding grown_def by blast+

lemma map_le_ran: "T \<subseteq>\<^sub>m T' \<Longrightarrow> ran T \<subseteq> ran T'"
  by (auto simp: ran_def map_le_def dom_def) metis

lemma grown_trans:
  assumes "grown s ps d T t ps' T'" "grown t ps' d T' u ps'' T''"
  shows "grown s ps d T u ps'' T''"
proof -
  note a = grownD [OF assms(1)] and b = grownD [OF assms(2)]
  from a(5) b(5) obtain qs rs where qs: "ps = (qs @ rs) @ ps''" "ran T'' = ran T \<union> set (qs @ rs)"
    by fastforce
  show ?thesis
  proof (rule grownI [OF vframe_trans [OF a(1) b(1)] b(2) map_le_trans [OF a(3) b(3)] qs])
    fix p assume p: "page_ok s p" "p \<noteq> d" "p \<notin> ran T''"
    then have "p \<notin> ran T'" using map_le_ran [OF b(3)] by blast
    then show "same_page (pmem s) (pmem u) p"
      using a(4) b(4) p vframe_simps(2) [OF a(1)] by (metis same_page_trans)
  qed
qed

lemma unat_PDX: "unat (PDX v) = unat v div 4194304"
proof -
  have "PDX v = take_bit 10 (drop_bit 22 v)" by (simp add: PDX_def take_bit_eq_mask mask_eq_exp_minus_1)
  then have "unat (PDX v) = (unat v div 4194304) mod 1024"
    by (simp add: take_bit_eq_mod drop_bit_eq_div unat_div unat_mod)
  moreover have "unat v div 4194304 < 1024"
    using unat32_lt [of v] by (simp add: div_less_iff_less_mult)
  ultimately show ?thesis by simp
qed

lemma unat_PTX: "unat (PTX v) = unat v div 4096 mod 1024"
proof -
  have "PTX v = take_bit 10 (drop_bit 12 v)" by (simp add: PTX_def take_bit_eq_mask mask_eq_exp_minus_1)
  then show ?thesis
    by (simp add: take_bit_eq_mod drop_bit_eq_div unat_div unat_mod)
qed

lemma vpage_eq:
  assumes "a mod PGSIZE = 0"
  shows "PDX v = PDX a \<and> PTX v = PTX a \<longleftrightarrow> unat (v - a) < 4096"
proof -
  obtain x where x: "unat a = 4096 * x" "x < 1048576" using assms by (rule page_unat)
  have "PDX v = PDX a \<and> PTX v = PTX a \<longleftrightarrow> unat v div 4096 = x"
  proof
    assume "PDX v = PDX a \<and> PTX v = PTX a"
    then have "unat v div 4194304 = x div 1024" "unat v div 4096 mod 1024 = x mod 1024"
      using unat_PDX [of v] unat_PDX [of a] unat_PTX [of v] unat_PTX [of a] x by simp_all
    moreover have "unat v div 4194304 = unat v div 4096 div 1024" by (simp add: div_mult2_eq [symmetric])
    ultimately show "unat v div 4096 = x" by (metis div_mod_decomp)
  next
    assume v: "unat v div 4096 = x"
    have "unat v div 4194304 = unat v div 4096 div 1024" by (simp add: div_mult2_eq [symmetric])
    then have "unat (PDX v) = unat (PDX a)" "unat (PTX v) = unat (PTX a)"
      using v x by (simp_all add: unat_PDX unat_PTX)
    then show "PDX v = PDX a \<and> PTX v = PTX a" by (simp add: word_unat_eq_iff)
  qed
  also have "\<dots> \<longleftrightarrow> unat (v - a) < 4096"
    using x unat32_lt [of v] by (auto simp: unat_sub_if')
  finally show ?thesis .
qed

lemma map_step:
  assumes "pgd_inv s ps d T" "ps \<noteq> [] \<or> T (PDX a) \<noteq> None" "pte_of (pmem s) T a AND 1 = 0" "a mod PGSIZE = 0"
  shows "\<exists>t p. grown s ps d T t (if T (PDX a) = None then tl ps else ps) (T(PDX a \<mapsto> p))
    \<and> (\<forall>v. pte_of (pmem t) (T(PDX a \<mapsto> p)) v =
        (if unat (v - a) < 4096 then pa OR perm OR 1 else pte_of (pmem s) T v))
    \<and> (\<forall>fuel lst. mappages_loop (Suc fuel) d a lst pa perm s =
        (if a = lst then Ok 0 t else mappages_loop fuel d (a + PGSIZE) lst (pa + PGSIZE) perm t))"
proof -
  let ?ps = "if T (PDX a) = None then tl ps else ps"
  obtain u p where u: "walkpgdir d a True s = Ok (p + 4 * PTX a) u"
      "grown s ps d T u ?ps (T(PDX a \<mapsto> p))" "\<And>v. pte_of (pmem u) (T(PDX a \<mapsto> p)) v = pte_of (pmem s) T v"
    using walk_any [OF assms(1,2)] by (auto simp: runs_def)
  define T' where "T' = T(PDX a \<mapsto> p)"
  note u = u [folded T'_def]
  let ?t = "u\<lparr>pmem := mstore32 (pmem u) (p + 4 * PTX a) (pa OR perm OR 1)\<rparr>"
  have T: "T' (PDX a) = Some p" by (simp add: T'_def)
  note inv = grownD(2) [OF u(2)]
  note w = walk_some [OF inv T] and st = store_pte [OF inv T, where w = "pa OR perm OR 1"]
  show ?thesis
  proof (intro exI [of _ ?t] exI [of _ p] conjI allI, fold T'_def)
    show "grown s ps d T ?t ?ps T'"
    proof (rule grown_trans [OF u(2)], rule grownI)
      fix q assume "page_ok u q" "q \<noteq> d" "q \<notin> ran T'"
      then show "same_page (pmem u) (pmem ?t) q" using st(3) [of q] ranI [of T' "PDX a" p] T by auto
    qed (use st(1) in auto)
    show "pte_of (pmem ?t) T' v = (if unat (v - a) < 4096 then pa OR perm OR 1 else pte_of (pmem s) T v)" for v
      using st(2) [of v] u(3) [of v] vpage_eq [OF assms(4), of v] by auto
    show "mappages_loop (Suc fuel) d a lst pa perm s =
      (if a = lst then Ok 0 ?t else mappages_loop fuel d (a + PGSIZE) lst (pa + PGSIZE) perm ?t)" for fuel lst
      using u(1) w(2,3) u(3) [of a] assms(3) by (simp add: mappages_loop.simps(2) load32_def store32_def)
  qed
qed

lemma mappages_oom:
  assumes "pgd_inv s [] d T" "T (PDX a) = None"
  shows "mappages_loop (Suc fuel) d a lst pa perm s = Ok (-1) s"
  using walk_oom [OF assms] by (simp add: mappages_loop.simps(2))

lemma PGROUNDDOWN_page: "a mod PGSIZE = 0 \<Longrightarrow> PGROUNDDOWN a = a"
  by (erule page_unat) (simp add: word_unat_eq_iff PGROUNDDOWN_unat)

lemma unat_page: "unat p = 4096 * x \<Longrightarrow> p mod PGSIZE = 0" for p :: u32
  by (simp add: unat_mod flip: unat_eq_0)

lemma page_add:
  assumes "a mod PGSIZE = 0"
  shows "(a + 4096 * of_nat k) mod PGSIZE = 0"
proof -
  obtain x where x: "unat a = 4096 * x" using assms by (rule page_unat)
  have "of_nat (unat a + 4096 * k) = a + 4096 * of_nat k" by simp
  then have "unat (a + 4096 * of_nat k) = (4096 * x + 4096 * k) mod 2 ^ LENGTH(32)"
    unfolding x by (metis unat_of_nat)
  then have "unat (a + 4096 * of_nat k) = (4096 * x + 4096 * k) mod 4294967296" by simp
  moreover have "4096 dvd (4096 * x + 4096 * k) mod (4294967296 :: nat)"
    by (intro dvd_mod dvd_add dvd_triv_left) simp_all
  ultimately show ?thesis by (metis dvd_def unat_page)
qed

lemma table_step:
  fixes T :: tables
  assumes "x \<in> R" "finite R" "card (R - dom T) \<le> length ps"
  defines "ps' \<equiv> if T x = None then tl ps else ps"
  shows "ps \<noteq> [] \<or> T x \<noteq> None" "card (R - dom (T(x \<mapsto> p))) \<le> length ps'"
    "length ps + card (dom T) = length ps' + card (dom (T(x \<mapsto> p)))"
proof -
  have "(ps \<noteq> [] \<or> T x \<noteq> None) \<and> card (R - dom (T(x \<mapsto> p))) \<le> length ps' \<and>
    length ps + card (dom T) = length ps' + card (dom (T(x \<mapsto> p)))"
  proof (cases "T x = None")
    case True
    then have x: "x \<in> R - dom T" using assms(1) by auto
    have "R - dom (T(x \<mapsto> p)) = R - dom T - {x}" by auto
    moreover have c: "0 < card (R - dom T)" using x assms(2) by (auto simp: card_gt_0_iff)
    moreover have "0 < length ps" using c assms(3) by (rule less_le_trans)
    moreover have "card (dom (T(x \<mapsto> p))) = Suc (card (dom T))" using x by simp
    ultimately show ?thesis
      using True assms(3) card_Diff_singleton [OF x] unfolding ps'_def
      by (simp del: dom_fun_upd card_gt_0_iff)
  next
    case False
    then have "dom (T(x \<mapsto> p)) = dom T" by auto
    with False assms(3) show ?thesis unfolding ps'_def by (auto simp del: dom_fun_upd)
  qed
  then show "ps \<noteq> [] \<or> T x \<noteq> None" "card (R - dom (T(x \<mapsto> p))) \<le> length ps'"
    "length ps + card (dom T) = length ps' + card (dom (T(x \<mapsto> p)))" by blast+
qed

text \<open>Mapping the \<open>n + 1\<close> pages from \<open>a\<close> on. The tables that are missing are among the directory
  entries \<open>R\<close>; there is a free page for each.\<close>

lemma mappages_range:
  assumes "pgd_inv s ps d T" "a mod PGSIZE = 0" "n < fuel" "n < 1048576"
    "\<And>k. k \<le> n \<Longrightarrow> pte_of (pmem s) T (a + 4096 * of_nat k) AND 1 = 0"
    "\<And>k. k \<le> n \<Longrightarrow> PDX (a + 4096 * of_nat k) \<in> R" "finite R" "card (R - dom T) \<le> length ps"
  shows "\<exists>t ps' T'. mappages_loop fuel d a (a + 4096 * of_nat n) pa perm s = Ok 0 t
    \<and> grown s ps d T t ps' T' \<and> card (R - dom T') \<le> length ps' \<and> dom T' \<subseteq> dom T \<union> R
    \<and> length ps + card (dom T) = length ps' + card (dom T')
    \<and> (\<forall>v. pte_of (pmem t) T' v = (if unat (v - a) div 4096 \<le> n
         then (pa + 4096 * of_nat (unat (v - a) div 4096)) OR perm OR 1 else pte_of (pmem s) T v))"
  using assms
proof (induction n arbitrary: fuel a s ps T pa)
  case 0
  then obtain f where f: "fuel = Suc f" by (cases fuel) auto
  have x: "PDX a \<in> R" "pte_of (pmem s) T a AND 1 = 0" using 0 by force+
  note st = table_step [where T = T and ps = ps, OF x(1) "0.prems"(7,8)]
  obtain t p where t: "grown s ps d T t (if T (PDX a) = None then tl ps else ps) (T(PDX a \<mapsto> p))"
    "\<And>v. pte_of (pmem t) (T(PDX a \<mapsto> p)) v = (if unat (v - a) < 4096 then pa OR perm OR 1 else pte_of (pmem s) T v)"
    "\<And>fuel lst. mappages_loop (Suc fuel) d a lst pa perm s =
      (if a = lst then Ok 0 t else mappages_loop fuel d (a + PGSIZE) lst (pa + PGSIZE) perm t)"
    using map_step [OF "0.prems"(1) st(1) x(2) "0.prems"(2), where pa = pa and perm = perm] by blast
  define T1 where "T1 = T(PDX a \<mapsto> p)"
  define ps1 where "ps1 = (if T (PDX a) = None then tl ps else ps)"
  note t = t [folded T1_def ps1_def] and st = st(2,3) [where p = p, folded T1_def ps1_def]
  have "dom T1 \<subseteq> dom T \<union> R" using x(1) by (auto simp: T1_def)
  then show ?case using f t st
    by (intro exI [of _ t] exI [of _ ps1] exI [of _ T1]) (simp add: div_eq_0_iff)
next
  case (Suc n)
  then obtain f where f: "fuel = Suc f" by (cases fuel) auto
  let ?a = "a + PGSIZE"
  have x: "PDX a \<in> R" "pte_of (pmem s) T a AND 1 = 0" using Suc.prems(5,6) [of 0] by simp_all
  have sh: "?a + 4096 * of_nat k = a + 4096 * of_nat (Suc k)" for k by (simp add: algebra_simps)
  note st = table_step [where T = T and ps = ps, OF x(1) Suc.prems(7,8)]
  obtain t p where t: "grown s ps d T t (if T (PDX a) = None then tl ps else ps) (T(PDX a \<mapsto> p))"
    "\<And>v. pte_of (pmem t) (T(PDX a \<mapsto> p)) v = (if unat (v - a) < 4096 then pa OR perm OR 1 else pte_of (pmem s) T v)"
    "\<And>fuel lst. mappages_loop (Suc fuel) d a lst pa perm s =
      (if a = lst then Ok 0 t else mappages_loop fuel d (a + PGSIZE) lst (pa + PGSIZE) perm t)"
    using map_step [OF Suc.prems(1) st(1) x(2) Suc.prems(2), where pa = pa and perm = perm] by blast
  define T1 where "T1 = T(PDX a \<mapsto> p)"
  define ps1 where "ps1 = (if T (PDX a) = None then tl ps else ps)"
  note t = t [folded T1_def ps1_def] and st = st(2,3) [where p = p, folded T1_def ps1_def]
  have off: "unat (?a + 4096 * of_nat k - a) = 4096 * Suc k" if "k \<le> n" for k
  proof -
    have "?a + 4096 * of_nat k - a = of_nat (4096 * Suc k)" by simp
    moreover have "4096 * Suc k < 4294967296" using that Suc.prems(4) by simp
    ultimately show ?thesis by (simp only: unat32_of_nat)
  qed
  have "\<exists>u ps' T'. mappages_loop f d ?a (?a + 4096 * of_nat n) (pa + PGSIZE) perm t = Ok 0 u
    \<and> grown t ps1 d T1 u ps' T' \<and> card (R - dom T') \<le> length ps' \<and> dom T' \<subseteq> dom T1 \<union> R
    \<and> length ps1 + card (dom T1) = length ps' + card (dom T')
    \<and> (\<forall>v. pte_of (pmem u) T' v = (if unat (v - ?a) div 4096 \<le> n
         then (pa + PGSIZE + 4096 * of_nat (unat (v - ?a) div 4096)) OR perm OR 1 else pte_of (pmem t) T1 v))"
  proof (rule Suc.IH)
    show "pgd_inv t ps1 d T1" using t(1) by (rule grownD)
    show "?a mod PGSIZE = 0" using page_add [OF Suc.prems(2), of 1] by simp
    show "pte_of (pmem t) T1 (?a + 4096 * of_nat k) AND 1 = 0" if "k \<le> n" for k
    proof -
      have "pte_of (pmem s) T (?a + 4096 * of_nat k) AND 1 = 0"
        using Suc.prems(5) [of "Suc k"] that by (simp only: sh Suc_le_mono)
      moreover have "\<not> unat (?a + 4096 * of_nat k - a) < 4096" unfolding off [OF that] by simp
      ultimately show ?thesis by (simp only: t(2) if_False)
    qed
    show "PDX (?a + 4096 * of_nat k) \<in> R" if "k \<le> n" for k
      using that Suc.prems(6) [of "Suc k"] by (simp only: sh)
  qed (use Suc.prems f st in auto)
  then obtain u ps' T' where u: "mappages_loop f d ?a (?a + 4096 * of_nat n) (pa + PGSIZE) perm t = Ok 0 u"
    "grown t ps1 d T1 u ps' T'" "card (R - dom T') \<le> length ps'" "dom T' \<subseteq> dom T1 \<union> R"
    "length ps1 + card (dom T1) = length ps' + card (dom T')"
    "\<And>v. pte_of (pmem u) T' v = (if unat (v - ?a) div 4096 \<le> n
         then (pa + PGSIZE + 4096 * of_nat (unat (v - ?a) div 4096)) OR perm OR 1 else pte_of (pmem t) T1 v)"
    by blast
  show ?case
  proof (intro exI conjI allI)
    show "mappages_loop fuel d a (a + 4096 * of_nat (Suc n)) pa perm s = Ok 0 u"
    proof -
      have "a \<noteq> ?a + 4096 * of_nat n" using off [of n] by auto
      then show ?thesis using t(3) [of f "a + 4096 * of_nat (Suc n)"] u(1) f by (simp only: sh if_False)
    qed
    show "grown s ps d T u ps' T'" using t(1) u(2) by (rule grown_trans)
    show "card (R - dom T') \<le> length ps'" by (rule u(3))
    show "dom T' \<subseteq> dom T \<union> R" using u(4) x(1) by (auto simp: T1_def)
    show "length ps + card (dom T) = length ps' + card (dom T')" using st(2) u(5) by simp
    show "pte_of (pmem u) T' v = (if unat (v - a) div 4096 \<le> Suc n
       then (pa + 4096 * of_nat (unat (v - a) div 4096)) OR perm OR 1 else pte_of (pmem s) T v)" for v
    proof (cases "unat (v - a) < 4096")
      case True
      then have "unat (v - ?a) = unat (v - a) + 4294963200"
        by (simp add: unat_sub_if' diff_diff_add [symmetric])
      then have "unat (v - ?a) div 4096 = 1048575" using True by simp
      with True show ?thesis using u(6) [of v] t(2) [of v] Suc.prems(4) by simp
    next
      case False
      then have "unat (v - ?a) = unat (v - a) - 4096"
        by (simp add: unat_sub_if' diff_diff_add [symmetric])
      then have d: "unat (v - a) div 4096 = Suc (unat (v - ?a) div 4096)"
        using False by (simp add: div_if)
      show ?thesis using False unfolding u(6) [of v] t(2) [of v] d by (simp add: algebra_simps)
    qed
  qed
qed

lemma PGROUNDDOWN_off:
  assumes "a mod PGSIZE = 0" "k < 4096"
  shows "PGROUNDDOWN (a + of_nat k) = a"
proof -
  obtain x where x: "unat a = 4096 * x" "x < 1048576" using assms(1) by (rule page_unat)
  then have "unat (a + of_nat k) = 4096 * x + k" using assms(2) by (simp add: unat_word_ariths)
  then show ?thesis using x assms(2) by (simp add: word_unat_eq_iff PGROUNDDOWN_unat)
qed

lemma PGROUNDDOWN_diff:
  assumes "a mod PGSIZE = 0"
  shows "a + 4096 * of_nat (unat (v - a) div 4096) = PGROUNDDOWN v"
proof -
  let ?k = "unat (v - a) div 4096" and ?r = "unat (v - a) mod 4096"
  have "v - a = of_nat (4096 * ?k + ?r)" unfolding mult_div_mod_eq by simp
  also have "\<dots> = 4096 * of_nat ?k + of_nat ?r" by (simp only: of_nat_add of_nat_mult of_nat_numeral)
  finally have "v = 4096 * of_nat ?k + of_nat ?r + a" by (simp only: diff_eq_eq)
  then have "v = a + 4096 * of_nat ?k + of_nat ?r" by (simp only: ac_simps)
  then show ?thesis
    using PGROUNDDOWN_off [OF page_add [OF assms, of ?k], of ?r] by simp
qed

lemma mappages_run:
  assumes "a mod PGSIZE = 0" "unat sz = 4096 * Suc n"
  shows "mappages d a sz pa perm = mappages_loop page_fuel d a (a + 4096 * of_nat n) pa perm"
proof -
  have "sz = of_nat (4096 * Suc n)" unfolding assms(2) [symmetric] by simp
  then have e: "a + sz - 1 = a + 4096 * of_nat n + of_nat 4095" by simp
  have "PGROUNDDOWN (a + sz - 1) = a + 4096 * of_nat n"
    unfolding e by (rule PGROUNDDOWN_off [OF page_add [OF assms(1)]]) simp
  then show ?thesis using PGROUNDDOWN_page [OF assms(1)] by (simp add: mappages_def fun_eq_iff)
qed

lemma mappages_maps:
  assumes "pgd_inv s ps d T" "a mod PGSIZE = 0" "unat sz = 4096 * Suc n" "finite R" "card (R - dom T) \<le> length ps"
    "\<And>v. unat (v - a) < unat sz \<Longrightarrow> pte_of (pmem s) T v AND 1 = 0 \<and> PDX v \<in> R"
  shows "\<exists>t ps' T'. mappages d a sz pa perm s = Ok 0 t
    \<and> grown s ps d T t ps' T' \<and> card (R - dom T') \<le> length ps' \<and> dom T' \<subseteq> dom T \<union> R
    \<and> length ps + card (dom T) = length ps' + card (dom T')
    \<and> (\<forall>v. pte_of (pmem t) T' v = (if unat (v - a) < unat sz
         then (pa + (PGROUNDDOWN v - a)) OR perm OR 1 else pte_of (pmem s) T v))"
proof -
  have n: "n < 1048576" "n < page_fuel" using unat32_lt [of sz] assms(3) by (simp_all add: page_fuel_def)
  have "unat (a + 4096 * of_nat k - a) < unat sz" if "k \<le> n" for k
  proof -
    have "a + 4096 * of_nat k - a = of_nat (4096 * k)" by simp
    moreover have "4096 * k < 4294967296" using that n by simp
    ultimately have "unat (a + 4096 * of_nat k - a) = 4096 * k" by (simp only: unat32_of_nat)
    then show ?thesis using that assms(3) by simp
  qed
  then have R: "pte_of (pmem s) T (a + 4096 * of_nat k) AND 1 = 0" "PDX (a + 4096 * of_nat k) \<in> R"
    if "k \<le> n" for k using that assms(6) by blast+
  have e1: "unat (v - a) div 4096 \<le> n \<longleftrightarrow> unat (v - a) < unat sz" for v
    using assms(3) by (simp add: less_Suc_eq_le [symmetric] div_less_iff_less_mult mult.commute)
  have e2: "4096 * of_nat (unat (v - a) div 4096) = PGROUNDDOWN v - a" for v
    using PGROUNDDOWN_diff [OF assms(2), of v] by (simp add: algebra_simps)
  show ?thesis
    using mappages_range [OF assms(1,2) n(2,1) R assms(4,5), of pa perm]
    unfolding mappages_run [OF assms(2,3)] by (simp only: e1 e2)
qed

section \<open>The kernel part of an address space\<close>

lemma new_dir:
  assumes "kmem_quiet s (q # qs)"
  shows "\<exists>u t. kalloc s = Ok q u \<and> kmemset q 0 PGSIZE u = Ok () t
    \<and> vframe s t \<and> pgd_inv t qs q Map.empty \<and> q \<noteq> 0
    \<and> (\<forall>p. page_ok s p \<longrightarrow> p \<noteq> q \<longrightarrow> same_page (pmem s) (pmem t) p)
    \<and> (\<forall>i < 1024. slot (pmem t) q i = 0)"
proof -
  obtain f where f: "kalloc s = Ok q (s\<lparr>freelist := f\<rparr>)" "kmem_quiet (s\<lparr>freelist := f\<rparr>) qs"
    and q: "page_ok s q" "q \<noteq> 0" "q \<notin> set qs" using assms by (rule kalloc_pop)
  define m where "m = mset_mem (pmem s) q 0 4096"
  have same: "same_page (pmem s) m p" if "page_ok s p" "p \<noteq> q" for p
    unfolding m_def using page_ok_mod [OF q(1)] page_ok_mod [OF that(1)] that(2)
    by (intro fill_same_page) auto
  have "kmem_quiet (s\<lparr>freelist := f, pmem := m\<rparr>) qs"
    using f(2) assms q(3)
    by (intro kmem_quiet_pmem) (auto intro!: same simp: kmem_quiet_def kmem_inv_def)
  moreover have z: "slot m q i = 0" if "i < 1024" for i using fill_slot [OF that] by (simp add: m_def)
  ultimately have "pgd_inv (s\<lparr>freelist := f, pmem := m\<rparr>) qs q Map.empty"
    using q by (simp add: pgd_inv_def tabs_ok_def dir_maps_def)
  then show ?thesis using f(1) same z q(2) by (simp add: kmemset_def memset_fill m_def)
qed

text \<open>What every address space maps above \<^verbatim>\<open>KERNBASE\<close>.\<close>

definition kernel_pte :: "u32 \<Rightarrow> u32 \<Rightarrow> u32" where
  "kernel_pte data v =
     (if v < KERNBASE then 0
      else if v < KERNLINK then v2p (PGROUNDDOWN v) OR PTE_W OR PTE_P
      else if v < data then v2p (PGROUNDDOWN v) OR 0 OR PTE_P
      else if v < p2v PHYSTOP then v2p (PGROUNDDOWN v) OR PTE_W OR PTE_P
      else if v < DEVSPACE then 0
      else PGROUNDDOWN v OR PTE_W OR PTE_P)"

definition kern_dirs :: "u32 set" where
  "kern_dirs = {i. 512 \<le> i \<and> i < 1024}"

lemma kern_dirs_card: "finite kern_dirs" "card kern_dirs = 512"
proof -
  show "finite kern_dirs" by simp
  have img: "kern_dirs = of_nat ` {512..<1024}"
  proof
    show "kern_dirs \<subseteq> of_nat ` {512..<1024}"
    proof
      fix i assume "i \<in> kern_dirs"
      then have "unat i \<in> {512..<1024}" by (simp add: kern_dirs_def word_le_nat_alt word_less_nat_alt)
      then show "i \<in> of_nat ` {512..<1024}" by (metis Word.of_nat_unat imageI ucast_id)
    qed
    show "of_nat ` {512..<1024} \<subseteq> kern_dirs"
      by (auto simp: kern_dirs_def word_le_nat_alt word_less_nat_alt)
  qed
  have inj: "inj_on (of_nat :: nat \<Rightarrow> u32) {512..<1024}"
    by (rule inj_onI) (drule arg_cong [of _ _ unat], simp)
  show "card kern_dirs = 512" unfolding img card_image [OF inj] by simp
qed

lemma range_iff:
  fixes a e v :: u32
  assumes "a \<le> e"
  shows "unat (v - a) < unat (e - a) \<longleftrightarrow> a \<le> v \<and> v < e"
  using assms unat32_lt [of v] unat32_lt [of e]
  by (auto simp: unat_sub_if' word_le_nat_alt word_less_nat_alt simp del: unat32_lt)

lemma range_dev_iff: "unat (v - DEVSPACE) < unat (0 - DEVSPACE) \<longleftrightarrow> DEVSPACE \<le> v"
  using unat32_lt [of v] by (simp add: unat_sub_if' word_le_nat_alt del: unat32_lt) linarith

lemma PDX_kern: "KERNBASE \<le> v \<Longrightarrow> PDX v \<in> kern_dirs"
proof -
  assume "KERNBASE \<le> v"
  then have "512 \<le> unat v div 4194304" by (simp add: word_le_nat_alt)
  then show ?thesis by (simp add: kern_dirs_def word_le_nat_alt unat_PDX)
qed

text \<open>One entry of \<open>kmap\<close>. \<open>g\<close> is the mapping so far.\<close>

definition kvm_part :: "'z kmach_scheme \<Rightarrow> u32 list \<Rightarrow> u32 \<Rightarrow> tables \<Rightarrow> (u32 \<Rightarrow> u32) \<Rightarrow> bool" where
  "kvm_part s ps d T g \<longleftrightarrow> pgd_inv s ps d T \<and> card (kern_dirs - dom T) \<le> length ps
     \<and> dom T \<subseteq> kern_dirs \<and> (\<forall>v. pte_of (pmem s) T v = g v)"

lemma kmap_entry:
  assumes "kvm_part s ps d T g" "a mod PGSIZE = 0" "unat sz = 4096 * Suc n"
    "\<And>v. unat (v - a) < unat sz \<longleftrightarrow> J v" "\<And>v. J v \<Longrightarrow> g v = 0 \<and> KERNBASE \<le> v"
  shows "\<exists>t ps' T'. mappages d a sz pa perm s = Ok 0 t \<and> grown s ps d T t ps' T'
    \<and> length ps + card (dom T) = length ps' + card (dom T')
    \<and> kvm_part t ps' d T' (\<lambda>v. if J v then (pa + (PGROUNDDOWN v - a)) OR perm OR 1 else g v)"
proof -
  have "pte_of (pmem s) T v AND 1 = 0 \<and> PDX v \<in> kern_dirs" if "unat (v - a) < unat sz" for v
    using that assms(1,4,5) PDX_kern by (simp add: kvm_part_def)
  moreover have "pgd_inv s ps d T" "card (kern_dirs - dom T) \<le> length ps" "dom T \<subseteq> kern_dirs"
    and g: "\<And>v. pte_of (pmem s) T v = g v" using assms(1) by (auto simp: kvm_part_def)
  ultimately obtain t ps' T' where t: "mappages d a sz pa perm s = Ok 0 t" "grown s ps d T t ps' T'"
    "card (kern_dirs - dom T') \<le> length ps'" "dom T' \<subseteq> dom T \<union> kern_dirs"
    "length ps + card (dom T) = length ps' + card (dom T')"
    "\<forall>v. pte_of (pmem t) T' v = (if unat (v - a) < unat sz
         then (pa + (PGROUNDDOWN v - a)) OR perm OR 1 else pte_of (pmem s) T v)"
    using mappages_maps [OF _ assms(2,3) kern_dirs_card(1), of s ps d T pa perm] by blast
  then have "kvm_part t ps' d T' (\<lambda>v. if J v then (pa + (PGROUNDDOWN v - a)) OR perm OR 1 else g v)"
    using grownD(2) [OF t(2)] \<open>dom T \<subseteq> kern_dirs\<close> by (auto simp: kvm_part_def assms(4) g)
  with t show ?thesis by blast
qed

text \<open>The linker puts \<open>data\<close> on a page boundary between the kernel text and the end of memory.\<close>

definition kdata_ok :: "u32 \<Rightarrow> bool" where
  "kdata_ok data \<longleftrightarrow> data mod PGSIZE = 0 \<and> KERNLINK < data \<and> data < p2v PHYSTOP"

lemma page_diff:
  fixes a e :: u32
  assumes "a mod PGSIZE = 0" "e mod PGSIZE = 0" "a < e"
  obtains n where "unat (e - a) = 4096 * Suc n"
proof -
  obtain x where x: "unat a = 4096 * x" using assms(1) by (rule page_unat)
  obtain y where y: "unat e = 4096 * y" using assms(2) by (rule page_unat)
  have "unat (e - a) = 4096 * Suc (y - x - 1)"
    using assms(3) x y by (simp add: unat_sub_if' word_less_nat_alt)
  then show thesis by (rule that)
qed

lemma kmap_range:
  assumes "kvm_part s ps d T g" "a mod PGSIZE = 0" "e mod PGSIZE = 0" "a < e" "KERNBASE \<le> a"
    "\<And>v. a \<le> v \<Longrightarrow> g v = 0"
  shows "\<exists>t ps' T'. mappages d a (e - a) (v2p a) perm s = Ok 0 t \<and> grown s ps d T t ps' T'
    \<and> length ps + card (dom T) = length ps' + card (dom T')
    \<and> kvm_part t ps' d T' (\<lambda>v. if a \<le> v \<and> v < e then v2p (PGROUNDDOWN v) OR perm OR 1 else g v)"
proof -
  obtain n where n: "unat (e - a) = 4096 * Suc n" using assms(2-4) by (rule page_diff)
  have "v2p a + (PGROUNDDOWN v - a) = v2p (PGROUNDDOWN v)" for v by (simp add: v2p_def)
  moreover have "g v = 0 \<and> KERNBASE \<le> v" if "a \<le> v \<and> v < e" for v
    using that assms(5,6) by (auto intro: order_trans)
  ultimately show ?thesis
    using kmap_entry [OF assms(1,2) n range_iff, of "v2p a" perm] assms(4)
    by (simp only: less_imp_le simp_thms)
qed

lemma kmap_maps:
  assumes "pgd_inv s ps d Map.empty" "512 \<le> length ps" "kdata_ok data"
  shows "\<exists>t ps' T. setupkvm_loop (kmap data) d s = Ok d t \<and> grown s ps d Map.empty t ps' T
    \<and> length ps = length ps' + card (dom T) \<and> kvm_part t ps' d T (kernel_pte data)"
proof -
  define B where "B = KERNBASE"
  define L where "L = KERNLINK"
  define P where "P = p2v PHYSTOP"
  define D where "D = DEVSPACE"
  have al: "B mod PGSIZE = 0" "L mod PGSIZE = 0" "D mod PGSIZE = 0" "P mod PGSIZE = 0" "data mod PGSIZE = 0"
    using assms(3) by (simp_all add: p2v_def kdata_ok_def B_def L_def P_def D_def)
  have lt: "B < L" "L < data" "data < P" "P < D"
    using assms(3) by (simp_all add: p2v_def kdata_ok_def B_def L_def P_def D_def)
  have B: "KERNBASE \<le> B" "KERNBASE \<le> L" "KERNBASE \<le> data" "\<And>v. D \<le> v \<Longrightarrow> KERNBASE \<le> v"
    unfolding B_def [symmetric] using lt by order+
  have "kvm_part s ps d Map.empty (\<lambda>_. 0)"
    using assms(1,2) kern_dirs_card by (simp add: kvm_part_def pte_of_def)
  from kmap_range [OF this al(1,2) lt(1) B(1), of PTE_W]
  obtain s1 ps1 T1 where 1: "mappages d B (L - B) (v2p B) PTE_W s = Ok 0 s1"
    "grown s ps d Map.empty s1 ps1 T1" "length ps + card (dom (Map.empty :: tables)) = length ps1 + card (dom T1)"
    and k1: "kvm_part s1 ps1 d T1 (\<lambda>v. if B \<le> v \<and> v < L then v2p (PGROUNDDOWN v) OR PTE_W OR 1 else 0)"
      (is "kvm_part _ _ _ _ ?g1")
    by blast
  have "?g1 v = 0" if "L \<le> v" for v using that by auto
  from kmap_range [OF k1 al(2,5) lt(2) B(2) this, of 0]
  obtain s2 ps2 T2 where 2: "mappages d L (data - L) (v2p L) 0 s1 = Ok 0 s2"
    "grown s1 ps1 d T1 s2 ps2 T2" "length ps1 + card (dom T1) = length ps2 + card (dom T2)"
    and k2: "kvm_part s2 ps2 d T2 (\<lambda>v. if L \<le> v \<and> v < data then v2p (PGROUNDDOWN v) OR 0 OR 1 else ?g1 v)"
      (is "kvm_part _ _ _ _ ?g2")
    by blast
  have "?g2 v = 0" if "data \<le> v" for v
    using that lt by (auto simp: word_le_nat_alt word_less_nat_alt)
  from kmap_range [OF k2 al(5,4) lt(3) B(3) this, of PTE_W]
  obtain s3 ps3 T3 where 3: "mappages d data (P - data) (v2p data) PTE_W s2 = Ok 0 s3"
    "grown s2 ps2 d T2 s3 ps3 T3" "length ps2 + card (dom T2) = length ps3 + card (dom T3)"
    and k3: "kvm_part s3 ps3 d T3 (\<lambda>v. if data \<le> v \<and> v < P then v2p (PGROUNDDOWN v) OR PTE_W OR 1 else ?g2 v)"
      (is "kvm_part _ _ _ _ ?g3")
    by blast
  have z: "?g3 v = 0 \<and> KERNBASE \<le> v" if "D \<le> v" for v
    using that lt B(4) [OF that] by (auto simp: word_le_nat_alt word_less_nat_alt)
  have "unat (0 - D) = 4096 * Suc 8191" by (simp add: D_def)
  from kmap_entry [OF k3 al(3) this range_dev_iff [folded D_def] z, of D PTE_W]
  obtain s4 ps4 T4 where 4: "mappages d D (0 - D) D PTE_W s3 = Ok 0 s4"
    "grown s3 ps3 d T3 s4 ps4 T4" "length ps3 + card (dom T3) = length ps4 + card (dom T4)"
    and k4: "kvm_part s4 ps4 d T4 (\<lambda>v. if D \<le> v then (D + (PGROUNDDOWN v - D)) OR PTE_W OR 1 else ?g3 v)"
      (is "kvm_part _ _ _ _ ?g4")
    by blast
  have kmap: "kmap data = [(B, v2p B, v2p L, PTE_W), (L, v2p L, v2p data, 0), (data, v2p data, v2p P, PTE_W), (D, D, 0, PTE_W)]"
    by (simp add: kmap_def B_def L_def P_def D_def v2p_def p2v_def)
  have v: "v2p x - v2p y = x - y" for x y by (simp add: v2p_def)
  have "setupkvm_loop (kmap data) d s = Ok d s4"
    unfolding kmap setupkvm_loop.simps v using 1(1) 2(1) 3(1) 4(1) by simp
  moreover have "grown s ps d Map.empty s4 ps4 T4"
    using 1(2) 2(2) 3(2) 4(2) by (blast intro: grown_trans)
  moreover have "?g4 v = kernel_pte data v" for v
    unfolding kernel_pte_def B_def [symmetric] L_def [symmetric] P_def [symmetric] D_def [symmetric]
    using lt by (auto simp: word_le_nat_alt word_less_nat_alt)
  ultimately show ?thesis using 1(3) 2(3) 3(3) 4(3) k4 by (auto simp: fun_eq_iff)
qed

lemma setupkvm_runs:
  assumes "kmem_quiet s ps" "513 \<le> length ps" "kdata_ok (kdata s)"
  shows "\<exists>d t ps' T. setupkvm s = Ok d t \<and> d \<noteq> 0 \<and> vframe s t \<and> kvm_part t ps' d T (kernel_pte (kdata s))
    \<and> length ps = length ps' + card (dom T) + 1
    \<and> (\<exists>qs. ps = qs @ ps' \<and> insert d (ran T) = set qs)
    \<and> (\<forall>p. page_ok s p \<longrightarrow> p \<notin> set ps \<longrightarrow> same_page (pmem s) (pmem t) p)"
proof -
  obtain q qs where ps: "ps = q # qs" using assms(2) by (cases ps) auto
  obtain u0 u where u: "kalloc s = Ok q u0" "kmemset q 0 PGSIZE u0 = Ok () u" "vframe s u"
    "pgd_inv u qs q Map.empty" "q \<noteq> 0"
    "\<And>p. page_ok s p \<Longrightarrow> p \<noteq> q \<Longrightarrow> same_page (pmem s) (pmem u) p"
    using new_dir [OF assms(1) [unfolded ps]] by blast
  have kd: "kdata u = kdata s" using vframe_simps(4) [OF u(3)] by (cases s; cases u) simp
  have "512 \<le> length qs" using assms(2) ps by simp
  then obtain t ps' T where t: "setupkvm_loop (kmap (kdata s)) q u = Ok q t" "grown u qs q Map.empty t ps' T"
    "length qs = length ps' + card (dom T)" "kvm_part t ps' q T (kernel_pte (kdata s))"
    using kmap_maps [OF u(4) _ assms(3)] by blast
  note g = grownD [OF t(2)]
  have "setupkvm s = Ok q t"
    using u(1,2,5) t(1) kd by (simp add: setupkvm_def p2v_def)
  moreover obtain rs where rs: "qs = rs @ ps'" "ran T = set rs" using g(5) by auto
  then have "\<exists>qs. ps = qs @ ps' \<and> insert q (ran T) = set qs"
    using ps by (intro exI [of _ "q # rs"]) auto
  moreover have "same_page (pmem s) (pmem t) p" if "page_ok s p" "p \<notin> set ps" for p
  proof -
    have "p \<noteq> q" "p \<notin> ran T" using that ps rs by auto
    then show ?thesis
      using that(1) u(6) [of p] g(4) [of p] vframe_simps(2) [OF u(3)] same_page_trans by auto
  qed
  moreover have "vframe s t" using u(3) g(1) by (rule vframe_trans)
  ultimately show ?thesis using u(5) t(3,4) ps
    by (intro exI [of _ q] exI [of _ t] exI [of _ ps'] exI [of _ T]) simp
qed

lemma page_and:
  fixes x w :: u32
  assumes "x AND NOT 0xFFF = x" "w AND NOT 0xFFF = 0"
  shows "x AND w = 0"
proof -
  have "x AND w = (x AND NOT 0xFFF) AND w" by (simp only: assms(1))
  also have "\<dots> = x AND (w AND NOT 0xFFF)" by (simp only: ac_simps)
  finally show ?thesis by (simp only: assms(2) and_zero_eq)
qed

lemma kernel_pte_user: "kernel_pte data v AND PTE_U = 0"
proof -
  have "PGROUNDDOWN v mod PGSIZE = 0" using PGROUNDDOWN_unat [of v] by (rule unat_page)
  from page_and [OF page_mask [OF this], of 4] have "v2p (PGROUNDDOWN v) AND 4 = 0" by simp
  moreover have "PGROUNDDOWN v AND 4 = 0"
    by (rule page_and) (simp_all add: PGROUNDDOWN_def)
  ultimately show ?thesis by (simp add: kernel_pte_def bit.conj_disj_distrib2)
qed

text \<open>C18: With 513 free pages \<open>setupkvm\<close> succeeds. The new page directory maps exactly the ranges of
  \<open>kmap\<close>, kernel text and read-only data without write permission, no address below
  \<^verbatim>\<open>KERNBASE\<close>, and nothing with user permission; its page and those of its tables come from the
  free list, and no page in use is changed. With an empty free list it returns 0.\<close>

theorem setupkvm_maps_kernel:
  assumes "kmem_quiet s ps" "kdata_ok (kdata s)"
  shows "(513 \<le> length ps \<longrightarrow> (\<exists>d t ps' T. setupkvm s = Ok d t \<and> d \<noteq> 0 \<and> pgd_inv t ps' d T
      \<and> (\<forall>v. pte_of (pmem t) T v = kernel_pte (kdata s) v) \<and> (\<forall>v. pte_of (pmem t) T v AND PTE_U = 0)
      \<and> (\<exists>qs. ps = qs @ ps' \<and> insert d (ran T) = set qs)
      \<and> (\<forall>p. page_ok s p \<longrightarrow> p \<notin> set ps \<longrightarrow> same_page (pmem s) (pmem t) p)))
    \<and> (ps = [] \<longrightarrow> setupkvm s = Ok 0 s)"
proof -
  have "\<exists>d t ps' T. setupkvm s = Ok d t \<and> d \<noteq> 0 \<and> pgd_inv t ps' d T
      \<and> (\<forall>v. pte_of (pmem t) T v = kernel_pte (kdata s) v) \<and> (\<forall>v. pte_of (pmem t) T v AND PTE_U = 0)
      \<and> (\<exists>qs. ps = qs @ ps' \<and> insert d (ran T) = set qs)
      \<and> (\<forall>p. page_ok s p \<longrightarrow> p \<notin> set ps \<longrightarrow> same_page (pmem s) (pmem t) p)" if "513 \<le> length ps"
    using setupkvm_runs [OF assms(1) that assms(2)] unfolding kvm_part_def
    by (metis kernel_pte_user)
  moreover have "setupkvm s = Ok 0 s" if "ps = []"
    using assms(1) that by (simp add: setupkvm_def kalloc.alloc_nil)
  ultimately show ?thesis by blast
qed

end
