(* ===== verification/Proc.thy ===== *)
theory Proc
  imports Vm
begin

text \<open>
  The process table of \<^verbatim>\<open>proc.c\<close> and the operations by which processes give up and get
  the CPU: \<open>sched\<close>, \<open>yield\<close>, \<open>sleep\<close>, \<open>wakeup\<close>, \<open>kill\<close> and one round of the scheduler.

  \<^verbatim>\<open>swtch\<close> is the outcome \<open>Swtch\<close>: it carries the state in which the scheduler of this CPU
  goes on. The code after the \<^verbatim>\<open>swtch\<close> (run when the process is dispatched again) is a
  definition of its own where it does something, such as \<open>sleep_resume\<close>. A loop of the form
  \<^verbatim>\<open>while(cond) sleep(chan, lk)\<close> is one evaluation of \<^verbatim>\<open>cond\<close>, followed by \<open>sleep\<close> when it holds:
  after the wakeup the process runs the loop test again.
\<close>

section \<open>State\<close>

datatype procstate = UNUSED | EMBRYO | SLEEPING | RUNNABLE | RUNNING | ZOMBIE

text \<open>Sleep channels: the address of the object a process waits for.\<close>

datatype chan =
    ChBuf nat | ChInode nat | ChLog | ChProc nat | ChTicks | ChInput
  | ChPipeRead u32 | ChPipeWrite u32

text \<open>\<^verbatim>\<open>struct trapframe\<close> without its padding.\<close>

record trapframe =
  tf_edi :: u32
  tf_esi :: u32
  tf_ebp :: u32
  tf_oesp :: u32
  tf_ebx :: u32
  tf_edx :: u32
  tf_ecx :: u32
  tf_eax :: u32
  tf_gs :: u16
  tf_fs :: u16
  tf_es :: u16
  tf_ds :: u16
  tf_trapno :: u32
  tf_err :: u32
  tf_eip :: u32
  tf_cs :: u16
  tf_eflags :: u32
  tf_esp :: u32
  tf_ss :: u16

record ctx =
  edi :: u32
  esi :: u32
  ebx :: u32
  ebp :: u32
  eip :: u32

record proc =
  sz :: u32
  pgdir :: u32
  kstack :: u32
  pstate :: procstate
  pid :: int
  parent :: "nat option"
  tf :: trapframe
  pcontext :: ctx
  pchan :: "chan option"
  killed :: bool
  ofile :: "nat \<Rightarrow> nat option"
  cwd :: "nat option"
  pname :: bytes

record pmach = vmach +
  ptable :: "nat \<Rightarrow> proc"
  nextpid :: int
  initproc :: "nat option"

text \<open>The per-CPU variable \<^verbatim>\<open>proc\<close>.\<close>

abbreviation curproc :: "'z mach_scheme \<Rightarrow> nat option" where
  "curproc s \<equiv> cproc (mycpu s)"

definition set_proc :: "nat \<Rightarrow> (proc \<Rightarrow> proc) \<Rightarrow> 'z pmach_scheme \<Rightarrow> 'z pmach_scheme" where
  "set_proc i f s = s\<lparr>ptable := (ptable s)(i := f (ptable s i))\<rparr>"

section \<open>Operations\<close>

text \<open>\<open>sched\<close> up to the \<^verbatim>\<open>swtch\<close>; it never returns before the process is dispatched again.\<close>

definition sched :: "('z pmach_scheme, 'a) kern" where
  "sched =
     bindk (holding PtableLock) (\<lambda>h.
     if \<not> h then panic ''sched ptable.lock'' else
     bindk (readk (\<lambda>s. ncli (mycpu s))) (\<lambda>n.
     if n \<noteq> 1 then panic ''sched locks'' else
     bindk (readk (\<lambda>s. map_option (\<lambda>i. pstate (ptable s i)) (curproc s))) (\<lambda>st.
     if st = Some RUNNING then panic ''sched running'' else
     bindk (readk (\<lambda>s. iflag (mycpu s))) (\<lambda>fl.
     if fl then panic ''sched interruptible'' else
     Swtch))))"

text \<open>\<open>proc->f = v\<close> for the current process; without one the kernel would follow a null
  pointer, which is not a state the code reaches.\<close>

definition upd_proc :: "(proc \<Rightarrow> proc) \<Rightarrow> ('z pmach_scheme, unit) kern" where
  "upd_proc f =
     bindk (readk curproc) (\<lambda>p.
     case p of None \<Rightarrow> panic ''null proc'' | Some i \<Rightarrow> modk (set_proc i f))"

definition yield :: "('z pmach_scheme, 'a) kern" where
  "yield =
     thenk (acquire PtableLock)
     (thenk (upd_proc (\<lambda>p. p\<lparr>pstate := RUNNABLE\<rparr>))
     sched)"

text \<open>\<open>sleep(chan, lk)\<close> up to the \<^verbatim>\<open>swtch\<close>, and what it does when dispatched again.\<close>

definition sleep :: "chan \<Rightarrow> lock \<Rightarrow> ('z pmach_scheme, 'a) kern" where
  "sleep chan l =
     bindk (readk curproc) (\<lambda>p.
     if p = None then panic ''sleep'' else
     thenk (whenk (l \<noteq> PtableLock) (thenk (acquire PtableLock) (release l)))
     (thenk (upd_proc (\<lambda>p. p\<lparr>pchan := Some chan\<rparr>))
     (thenk (upd_proc (\<lambda>p. p\<lparr>pstate := SLEEPING\<rparr>))
     sched)))"

definition sleep_resume :: "lock \<Rightarrow> ('z pmach_scheme, unit) kern" where
  "sleep_resume l =
     thenk (upd_proc (\<lambda>p. p\<lparr>pchan := None\<rparr>))
     (whenk (l \<noteq> PtableLock) (thenk (release PtableLock) (acquire l)))"

definition wake :: "chan option \<Rightarrow> (nat \<Rightarrow> proc) \<Rightarrow> (nat \<Rightarrow> proc)" where
  "wake chan pt =
     (\<lambda>i. if i < NPROC \<and> pstate (pt i) = SLEEPING \<and> pchan (pt i) = chan
          then (pt i)\<lparr>pstate := RUNNABLE\<rparr> else pt i)"

definition wakeup1 :: "chan option \<Rightarrow> ('z pmach_scheme, unit) kern" where
  "wakeup1 chan = modk (\<lambda>s. s\<lparr>ptable := wake chan (ptable s)\<rparr>)"

definition wakeup :: "chan \<Rightarrow> ('z pmach_scheme, unit) kern" where
  "wakeup chan =
     thenk (acquire PtableLock)
     (thenk (wakeup1 (Some chan))
     (release PtableLock))"

definition kill :: "int \<Rightarrow> ('z pmach_scheme, int) kern" where
  "kill n =
     thenk (acquire PtableLock)
     (bindk (readk (\<lambda>s. find (\<lambda>i. pid (ptable s i) = n) [0..<NPROC])) (\<lambda>r.
     case r of
       Some i \<Rightarrow>
         thenk (modk (set_proc i (\<lambda>p. p\<lparr>killed := True\<rparr>)))
         (thenk (modk (set_proc i (\<lambda>p. if pstate p = SLEEPING then p\<lparr>pstate := RUNNABLE\<rparr> else p)))
         (thenk (release PtableLock) (retk 0)))
     | None \<Rightarrow> thenk (release PtableLock) (retk (- 1))))"

section \<open>Closed forms\<close>

lemma wakeup_run:
  "unl PtableLock (lk s) \<Longrightarrow> wf_cli (lk s) \<Longrightarrow>
   wakeup ch s = Ok () (s\<lparr>ptable := wake (Some ch) (ptable s)\<rparr>)"
  by (simp add: wakeup_def wakeup1_def acquire_ok release_acq)

definition woken :: "chan \<Rightarrow> 'z pmach_scheme \<Rightarrow> 'z pmach_scheme" where
  "woken ch s = s\<lparr>ptable := wake (Some ch) (ptable s)\<rparr>"

definition asleep :: "nat \<Rightarrow> chan \<Rightarrow> 'z pmach_scheme \<Rightarrow> 'z pmach_scheme" where
  "asleep c ch s = s\<lparr>lk := lk_acq PtableLock (lk s), 
     ptable := (ptable s)(c := (ptable s c)\<lparr>pchan := Some ch, pstate := SLEEPING\<rparr>)\<rparr>"

text \<open>Going to sleep with one other lock held: the state in which the scheduler goes on.\<close>

lemma sleep_run:
  assumes "lk s = lk_acq l k" "unl l k" "unl PtableLock k" "wf_cli k" "ncli (cpus k (me k)) = 0"
    "l \<noteq> PtableLock" "curproc s = Some c"
  shows "sleep ch l s = Swtch (s\<lparr>lk := lk_acq PtableLock k,
     ptable := (ptable s)(c := (ptable s c)\<lparr>pchan := Some ch, pstate := SLEEPING\<rparr>)\<rparr>)"
proof -
  have c: "cproc (cpus k (me k)) = Some c" using assms(1,7) by simp
  have r: "release l (s\<lparr>lk := lk_acq PtableLock (lk_acq l k)\<rparr>) = Ok () (s\<lparr>lk := lk_acq PtableLock k\<rparr>)"
    using assms by (subst release_ok) (simp_all add: lk_rel_swap)
  have h: "locks (lk_acq PtableLock k) PtableLock = \<lparr>locked = 1, lcpu = Some (me k)\<rparr>"
    "ncli (cpus (lk_acq PtableLock k) (me k)) = 1" "\<not> iflag (cpus (lk_acq PtableLock k) (me k))"
    using assms(5) by (simp_all add: lk_acq_def)
  show ?thesis
    using assms r h c
    by (simp add: sleep_def acquire_ok upd_proc_def set_proc_def sched_def holding_def)
qed
text \<open>No operation that goes to sleep returns.\<close>

lemma sched_not_Ok [simp]: "sched s \<noteq> Ok x t"
  by (auto simp: sched_def holding_def split: if_splits)

lemma sleep_not_Ok [simp]: "sleep c l s \<noteq> Ok x t"
  by (auto simp: sleep_def split: if_splits)

lemma yield_not_Ok [simp]: "yield s \<noteq> Ok x t"
  by (auto simp: yield_def)

text \<open>A wakeup only makes sleeping processes runnable; \<open>pt_woken\<close> says that nothing else happened
  to the process table.\<close>

definition pt_woken :: "(nat \<Rightarrow> proc) \<Rightarrow> (nat \<Rightarrow> proc) \<Rightarrow> bool" where
  "pt_woken p q \<longleftrightarrow>
     (\<forall>i. q i = p i \<or> pstate (p i) = SLEEPING \<and> q i = (p i)\<lparr>pstate := RUNNABLE\<rparr>)"

lemma pt_woken_refl [simp]: "pt_woken p p"
  by (simp add: pt_woken_def)

lemma pt_woken_trans: "pt_woken p q \<Longrightarrow> pt_woken q r \<Longrightarrow> pt_woken p r"
  unfolding pt_woken_def
proof (intro allI)
  fix i
  assume "\<forall>i. q i = p i \<or> pstate (p i) = SLEEPING \<and> q i = (p i)\<lparr>pstate := RUNNABLE\<rparr>"
    and "\<forall>i. r i = q i \<or> pstate (q i) = SLEEPING \<and> r i = (q i)\<lparr>pstate := RUNNABLE\<rparr>"
  from this [THEN spec, of i]
  show "r i = p i \<or> pstate (p i) = SLEEPING \<and> r i = (p i)\<lparr>pstate := RUNNABLE\<rparr>" by auto
qed

lemma pt_woken_wake [simp]: "pt_woken p (wake c p)"
  by (simp add: pt_woken_def wake_def)

lemma pt_woken_same:
  "pt_woken p q \<Longrightarrow> ofile (q i) = ofile (p i) \<and> cwd (q i) = cwd (p i) \<and> pid (q i) = pid (p i)
     \<and> killed (q i) = killed (p i) \<and> sz (q i) = sz (p i) \<and> pgdir (q i) = pgdir (p i)"
  unfolding pt_woken_def by (drule spec [of _ i]) auto

section \<open>An unused slot\<close>

definition proc0 :: proc where
  "proc0 = \<lparr>sz = 0, pgdir = 0, kstack = 0, pstate = UNUSED, pid = 0, parent = None,
     tf = \<lparr>tf_edi = 0, tf_esi = 0, tf_ebp = 0, tf_oesp = 0, tf_ebx = 0, tf_edx = 0, tf_ecx = 0, tf_eax = 0,
       tf_gs = 0, tf_fs = 0, tf_es = 0, tf_ds = 0, tf_trapno = 0, tf_err = 0, tf_eip = 0, tf_cs = 0, tf_eflags = 0,
       tf_esp = 0, tf_ss = 0\<rparr>,
     pcontext = \<lparr>edi = 0, esi = 0, ebx = 0, ebp = 0, eip = 0\<rparr>, pchan = None, killed = False,
     ofile = (\<lambda>_. None), cwd = None, pname = (\<lambda>_. 0)\<rparr>"

end
