(* ===== verification/Args.thy ===== *)
theory Args
  imports Proc
begin

text \<open>
  The argument fetchers of \<^verbatim>\<open>syscall.c\<close>. A system call finds its arguments on the user stack:
  \<open>argint\<close>, \<open>argptr\<close> and \<open>argstr\<close> read them through the page table in \<open>cr3\<close> and check them
  against the size of the process. \<open>None\<close> is the result \<^verbatim>\<open>-1\<close>; otherwise the result is what the
  code stores through its pointer argument (for \<open>fetchstr\<close>, with the length it returns).

  A C \<^verbatim>\<open>int\<close> fetched from user memory is kept as the 32-bit word it is; \<open>sint\<close> reads it.
\<close>

section \<open>User memory\<close>

text \<open>\<open>proc->f\<close>.\<close>

definition getproc :: "(proc \<Rightarrow> 'a) \<Rightarrow> ('z pmach_scheme, 'a) kern" where
  "getproc f =
     bindk (readk curproc) (\<lambda>p.
     case p of None \<Rightarrow> panic ''null proc'' | Some i \<Rightarrow> readk (\<lambda>s. f (ptable s i)))"

text \<open>A store of kernel code to a virtual address: through \<open>cr3\<close> below \<^verbatim>\<open>KERNBASE\<close>, to the direct
  map of physical memory above. A fault in the kernel ends in the panic of \<open>trap\<close>.\<close>

definition vwrite8 :: "u32 \<Rightarrow> u8 \<Rightarrow> ('z vmach_scheme, unit) kern" where
  "vwrite8 va b =
     bindk (readk (\<lambda>s. if va < KERNBASE then translate (pmem s) (p2v (cr3 s)) va else Some va)) (\<lambda>a.
     case a of None \<Rightarrow> panic ''trap'' | Some x \<Rightarrow> modk (\<lambda>s. s\<lparr>pmem := (pmem s)(x := b)\<rparr>))"

definition vwrite32 :: "u32 \<Rightarrow> u32 \<Rightarrow> ('z vmach_scheme, unit) kern" where
  "vwrite32 va w =
     thenk (vwrite8 va (ucast w))
     (thenk (vwrite8 (va + 1) (ucast (drop_bit 8 w)))
     (thenk (vwrite8 (va + 2) (ucast (drop_bit 16 w)))
     (vwrite8 (va + 3) (ucast (drop_bit 24 w)))))"

section \<open>Operations\<close>

definition fetchint :: "u32 \<Rightarrow> ('z pmach_scheme, u32 option) kern" where
  "fetchint addr =
     bindk (getproc sz) (\<lambda>psz.
     if psz \<le> addr \<or> psz < addr + 4 then retk None else
     bindk (vread32 addr) (\<lambda>v. retk (Some v)))"

text \<open>The loop of \<open>fetchstr\<close>; \<open>n\<close> is \<^verbatim>\<open>ep - s\<close>.\<close>

fun fetchstr_loop :: "nat \<Rightarrow> u32 \<Rightarrow> u32 \<Rightarrow> ('z vmach_scheme, u32 option) kern" where
  "fetchstr_loop 0 p s = retk None"
| "fetchstr_loop (Suc n) p s =
     bindk (vread8 s) (\<lambda>b.
     if b = 0 then retk (Some (s - p)) else fetchstr_loop n p (s + 1))"

definition fetchstr :: "u32 \<Rightarrow> ('z pmach_scheme, (u32 \<times> u32) option) kern" where
  "fetchstr addr =
     bindk (getproc sz) (\<lambda>ep.
     if ep \<le> addr then retk None else
     bindk (fetchstr_loop (unat (ep - addr)) addr addr) (\<lambda>r.
     retk (map_option (\<lambda>n. (addr, n)) r)))"

definition argint :: "u32 \<Rightarrow> ('z pmach_scheme, u32 option) kern" where
  "argint n = bindk (getproc tf) (\<lambda>f. fetchint (tf_esp f + 4 + 4 * n))"

definition argptr :: "u32 \<Rightarrow> u32 \<Rightarrow> ('z pmach_scheme, u32 option) kern" where
  "argptr n size' =
     bindk (argint n) (\<lambda>r.
     case r of
       None \<Rightarrow> retk None
     | Some i \<Rightarrow>
         bindk (getproc sz) (\<lambda>psz.
         if psz \<le> i \<or> psz < i + size' then retk None else retk (Some i)))"

definition argstr :: "u32 \<Rightarrow> ('z pmach_scheme, (u32 \<times> u32) option) kern" where
  "argstr n =
     bindk (argint n) (\<lambda>r.
     case r of None \<Rightarrow> retk None | Some addr \<Rightarrow> fetchstr addr)"

section \<open>The memory of the current process\<close>

text \<open>\<open>user_view s f n\<close>: the current process has \<open>n\<close> bytes of memory, all of them mapped, with
  contents \<open>f\<close>.\<close>

definition umem :: "'z vmach_scheme \<Rightarrow> u32 \<Rightarrow> u8 option" where
  "umem s va = map_option (pmem s) (translate (pmem s) (p2v (cr3 s)) va)"

definition user_view :: "'z pmach_scheme \<Rightarrow> (u32 \<Rightarrow> u8) \<Rightarrow> u32 \<Rightarrow> bool" where
  "user_view s f n \<longleftrightarrow>
     n \<le> KERNBASE \<and> (\<exists>i. curproc s = Some i \<and> sz (ptable s i) = n) \<and> (\<forall>va<n. umem s va = Some (f va))"

definition word_at :: "(u32 \<Rightarrow> u8) \<Rightarrow> u32 \<Rightarrow> u32" where
  "word_at f a = ucast (f a) OR push_bit 8 (ucast (f (a + 1)))
     OR push_bit 16 (ucast (f (a + 2))) OR push_bit 24 (ucast (f (a + 3)))"

text \<open>The argument word at stack address \<open>a\<close>, if it lies in the process.\<close>

definition arg_word :: "(u32 \<Rightarrow> u8) \<Rightarrow> u32 \<Rightarrow> u32 \<Rightarrow> u32 option" where
  "arg_word f n a = (if a < n \<and> unat a + 4 \<le> unat n then Some (word_at f a) else None)"

definition arg_addr :: "'z pmach_scheme \<Rightarrow> nat \<Rightarrow> u32 \<Rightarrow> u32" where
  "arg_addr s i k = tf_esp (tf (ptable s i)) + 4 + 4 * k"

text \<open>The offset of the first zero byte from \<open>a\<close> on, below \<open>n\<close>.\<close>

definition str_len :: "(u32 \<Rightarrow> u8) \<Rightarrow> u32 \<Rightarrow> u32 \<Rightarrow> u32 option" where
  "str_len f n a = map_option of_nat (find (\<lambda>j. f (a + of_nat j) = 0) [0..<unat n - unat a])"

lemma getproc_run: "curproc s = Some i \<Longrightarrow> getproc g s = Ok (g (ptable s i)) s"
  by (simp add: getproc_def)

lemma vread8_run: "umem s va = Some b \<Longrightarrow> vread8 va s = Ok b s"
  by (auto simp: vread8_def umem_def)

lemma vread32_run:
  assumes "\<forall>i<4. umem s (va + of_nat i) = Some (f (va + of_nat i))"
  shows "vread32 va s = Ok (word_at f va) s"
proof -
  have "umem s va = Some (f va)" "umem s (va + 1) = Some (f (va + 1))"
    "umem s (va + 2) = Some (f (va + 2))" "umem s (va + 3) = Some (f (va + 3))"
    using assms [rule_format, of 0] assms [rule_format, of 1] assms [rule_format, of 2]
      assms [rule_format, of 3] by simp_all
  then show ?thesis by (simp add: vread32_def vread8_run word_at_def)
qed

section \<open>Buffers in user memory\<close>

text \<open>The user bytes at \<open>addr\<close>.\<close>

definition user_bytes :: "'z vmach_scheme \<Rightarrow> u32 \<Rightarrow> u8 list \<Rightarrow> bool" where
  "user_bytes s addr bs \<longleftrightarrow> (\<forall>j<length bs. umem s (addr + of_nat j) = Some (bs ! j))"

text \<open>A buffer of \<open>n\<close> bytes in user memory, at the physical addresses \<open>\<phi> 0\<close>, \<open>\<phi> 1\<close>, ...: storing
  into it does not change how its addresses are translated.\<close>

definition agree_but :: "u32 set \<Rightarrow> mem \<Rightarrow> mem \<Rightarrow> bool" where
  "agree_but A m m' \<longleftrightarrow> (\<forall>x. x \<notin> A \<longrightarrow> m x = m' x)"

definition user_buffer :: "'z vmach_scheme \<Rightarrow> u32 \<Rightarrow> (nat \<Rightarrow> u32) \<Rightarrow> nat \<Rightarrow> bool" where
  "user_buffer s addr \<phi> n \<longleftrightarrow> inj_on \<phi> {..<n} \<and> (\<forall>j<n. addr + of_nat j < KERNBASE \<and>
     (\<forall>m. agree_but (\<phi> ` {..<n}) m (pmem s) \<longrightarrow> translate m (p2v (cr3 s)) (addr + of_nat j) = Some (\<phi> j)))"

fun stores :: "(nat \<Rightarrow> u32) \<Rightarrow> nat \<Rightarrow> u8 list \<Rightarrow> mem \<Rightarrow> mem" where
  "stores \<phi> j [] m = m"
| "stores \<phi> j (b # bs) m = stores \<phi> (Suc j) bs (m(\<phi> j := b))"

lemma stores_agree: "j + length bs \<le> n \<Longrightarrow> agree_but (\<phi> ` {..<n}) (stores \<phi> j bs m) m"
proof (induction bs arbitrary: j m)
  case (Cons b bs)
  then have "agree_but (\<phi> ` {..<n}) (stores \<phi> (Suc j) bs (m(\<phi> j := b))) (m(\<phi> j := b))" by simp
  moreover have "\<phi> j \<in> \<phi> ` {..<n}" using Cons.prems by simp
  ultimately show ?case by (auto simp: agree_but_def)
qed (simp add: agree_but_def)

lemma stores_other: "x \<notin> \<phi> ` {j..<j + length bs} \<Longrightarrow> stores \<phi> j bs m x = m x"
proof (induction bs arbitrary: j m)
  case (Cons b bs)
  then have "x \<noteq> \<phi> j" "x \<notin> \<phi> ` {Suc j..<Suc j + length bs}" by (auto simp: image_iff)
  then show ?case using Cons.IH by simp
qed simp

lemma stores_at: "inj_on \<phi> {..<n} \<Longrightarrow> j + length bs \<le> n \<Longrightarrow> k < length bs \<Longrightarrow> stores \<phi> j bs m (\<phi> (j + k)) = bs ! k"
proof (induction bs arbitrary: j m k)
  case (Cons b bs)
  show ?case
  proof (cases k)
    case 0
    have "\<phi> j \<notin> \<phi> ` {Suc j..<Suc j + length bs}"
      using inj_onD [OF Cons.prems(1), of j] Cons.prems(2) by fastforce
    then show ?thesis using 0 by (simp add: stores_other)
  next
    case (Suc k')
    then show ?thesis using Cons.prems by (simp add: Cons.IH [of "Suc j" k', simplified])
  qed
qed simp

lemma user_buffer_bytes:
  assumes "user_buffer s addr \<phi> n" "length bs \<le> n"
  shows "user_bytes (s\<lparr>pmem := stores \<phi> 0 bs (pmem s)\<rparr>) addr bs"
  unfolding user_bytes_def
proof (intro allI impI)
  fix j assume j: "j < length bs"
  have "translate (stores \<phi> 0 bs (pmem s)) (p2v (cr3 s)) (addr + of_nat j) = Some (\<phi> j)"
    using assms j stores_agree [of 0 bs n \<phi> "pmem s"] by (auto simp: user_buffer_def)
  then show "umem (s\<lparr>pmem := stores \<phi> 0 bs (pmem s)\<rparr>) (addr + of_nat j) = Some (bs ! j)"
    using assms j stores_at [of \<phi> n 0 bs j] by (simp add: umem_def user_buffer_def)
qed

section \<open>Arguments\<close>

text \<open>Inside a process that ends below \<^verbatim>\<open>KERNBASE\<close> the bound checks do not wrap around.\<close>

lemma in_bounds:
  fixes a n k :: u32
  assumes "n \<le> KERNBASE" "a < n" "0 \<le> sint k"
  shows "\<not> n < a + k \<longleftrightarrow> unat a + unat k \<le> unat n"
proof -
  have "unat k < 2147483648" "unat n \<le> 2147483648" "unat a < unat n"
    using assms by (simp_all add: sint_nonneg word_le_nat_alt word_less_nat_alt)
  then show ?thesis by (simp add: word_less_nat_alt unat_word_ariths not_less)
qed

lemma fetchint_run:
  assumes "user_view s f n"
  shows "fetchint a s = Ok (arg_word f n a) s"
proof -
  have n: "n \<le> KERNBASE" and f: "\<And>va. va < n \<Longrightarrow> umem s va = Some (f va)"
    using assms by (auto simp: user_view_def)
  obtain i where i: "curproc s = Some i" "sz (ptable s i) = n" using assms by (auto simp: user_view_def)
  have b: "\<not> n < a + 4 \<longleftrightarrow> unat a + 4 \<le> unat n" if "a < n" using in_bounds [OF n that, of 4] by simp
  show ?thesis
  proof (cases "a < n \<and> unat a + 4 \<le> unat n")
    case True
    have "umem s (a + of_nat j) = Some (f (a + of_nat j))" if "j < 4" for j
    proof (rule f)
      show "a + of_nat j < n" using True that unat32_lt [of n]
        by (simp add: word_less_nat_alt unat_word_ariths del: unat32_lt)
    qed
    then have "vread32 a s = Ok (word_at f a) s" by (simp add: vread32_run)
    then show ?thesis using True b i by (simp add: fetchint_def getproc_run not_le arg_word_def)
  next
    case False
    then have "n \<le> a \<or> n < a + 4" using b by (metis not_le)
    then show ?thesis using False i by (auto simp add: fetchint_def getproc_run arg_word_def)
  qed
qed

lemma argint_run:
  assumes "user_view s f n" "curproc s = Some i"
  shows "argint k s = Ok (arg_word f n (arg_addr s i k)) s"
  using assms by (simp add: argint_def getproc_run fetchint_run arg_addr_def)

lemma find_map: "find P (map g xs) = map_option g (find (P \<circ> g) xs)"
  by (induction xs) auto

text \<open>The scan of \<open>fetchstr\<close> finds the first zero byte.\<close>

lemma fetchstr_loop_run:
  assumes "\<forall>j<m. umem s (a + of_nat j) = Some (f (a + of_nat j))"
  shows "fetchstr_loop m p a s =
    Ok (map_option (\<lambda>j. a + of_nat j - p) (find (\<lambda>j. f (a + of_nat j) = 0) [0..<m])) s"
  using assms
proof (induction m arbitrary: a)
  case (Suc m)
  have "\<forall>j<m. umem s (a + 1 + of_nat j) = Some (f (a + 1 + of_nat j))"
  proof (intro allI impI)
    fix j assume "j < m"
    then show "umem s (a + 1 + of_nat j) = Some (f (a + 1 + of_nat j))"
      using Suc.prems [rule_format, of "Suc j"] by (simp add: algebra_simps)
  qed
  note IH = Suc.IH [OF this]
  have "umem s a = Some (f a)" using Suc.prems [rule_format, of 0] by simp
  then show ?case
    using IH by (simp add: vread8_run upt_conv_Cons find_map o_def option.map_comp algebra_simps
      del: upt_Suc flip: map_Suc_upt)
qed simp

lemma fetchstr_run:
  assumes "user_view s f n"
  shows "fetchstr a s = Ok (map_option (\<lambda>k. (a, k)) (str_len f n a)) s"
proof -
  have n: "n \<le> KERNBASE" and f: "\<And>va. va < n \<Longrightarrow> umem s va = Some (f va)"
    using assms by (auto simp: user_view_def)
  obtain i where i: "curproc s = Some i" "sz (ptable s i) = n" using assms by (auto simp: user_view_def)
  show ?thesis
  proof (cases "a < n")
    case True
    then have m: "unat (n - a) = unat n - unat a" by (simp add: unat_sub order_less_imp_le)
    have "umem s (a + of_nat j) = Some (f (a + of_nat j))" if "j < unat (n - a)" for j
    proof (rule f)
      show "a + of_nat j < n" using True that m unat32_lt [of n]
        by (simp add: word_less_nat_alt unat_word_ariths del: unat32_lt)
    qed
    then show ?thesis
      using True i fetchstr_loop_run [of "unat (n - a)" s a f a]
      by (simp add: fetchstr_def getproc_run str_len_def m not_le option.map_comp o_def)
  next
    case False
    then have "unat n - unat a = 0" by (simp add: word_less_nat_alt)
    then show ?thesis using False i by (auto simp: fetchstr_def getproc_run str_len_def)
  qed
qed

section \<open>Arguments\<close>

lemma args_run:
  assumes "user_view s f n" "curproc s = Some i" "0 \<le> sint k'"
  shows "argint k s = Ok (arg_word f n (arg_addr s i k)) s"
    "argptr k k' s = Ok (case arg_word f n (arg_addr s i k) of None \<Rightarrow> None
       | Some p \<Rightarrow> if p < n \<and> unat p + unat k' \<le> unat n then Some p else None) s"
    "argstr k s = Ok (case arg_word f n (arg_addr s i k) of None \<Rightarrow> None
       | Some p \<Rightarrow> map_option (\<lambda>m. (p, m)) (str_len f n p)) s"
proof -
  note a = argint_run [OF assms(1,2)]
  have n: "n \<le> KERNBASE" "sz (ptable s i) = n" using assms(1,2) by (auto simp: user_view_def)
  have "(n \<le> p \<or> n < p + k') \<longleftrightarrow> \<not> (p < n \<and> unat p + unat k' \<le> unat n)" for p
    using in_bounds [OF n(1) _ assms(3), of p] by (cases "p < n") (auto simp: not_le not_less)
  then show "argptr k k' s = Ok (case arg_word f n (arg_addr s i k) of None \<Rightarrow> None
       | Some p \<Rightarrow> if p < n \<and> unat p + unat k' \<le> unat n then Some p else None) s"
    using assms(2) n(2) by (simp add: argptr_def a getproc_run split: option.split)
  show "argint k s = Ok (arg_word f n (arg_addr s i k)) s" by (rule a)
  show "argstr k s = Ok (case arg_word f n (arg_addr s i k) of None \<Rightarrow> None
       | Some p \<Rightarrow> map_option (\<lambda>m. (p, m)) (str_len f n p)) s"
    using fetchstr_run [OF assms(1)] by (simp add: argstr_def a split: option.split)
qed


definition amem0 :: "u32 \<Rightarrow> u8" where
  "amem0 = (mstore32 (mstore32 (mstore32 (\<lambda>_. 0) 0x80001000 0x2007) 0x80002000 0x3007) 0x8000300C 32)
     (0x80003020 := 104, 0x80003021 := 105)"

definition amach0 :: pmach where
  "amach0 = \<lparr>lk = lk0, pmem = amem0, use_lock = True, freelist = 0, kend = 0x80108000, kdata = 0x80107000,
     kpgdir = 0, cr3 = 0x1000, esp0 = 0,
     ptable = (\<lambda>_. proc0\<lparr>sz := 64, tf := tf proc0\<lparr>tf_esp := 8\<rparr>\<rparr>), nextpid = 1, initproc = None\<rparr>"

lemma amem0_translate:
  assumes "va < 64" "agree_but A m amem0" "A \<inter> {0x80001000..0x80002003} = {}"
  shows "translate m 0x80001000 va = Some (0x80003000 + va)"
proof -
  have v: "unat va < 64" using assms(1) by (simp add: word_less_nat_alt)
  have "va AND 0xFFF = take_bit 12 va" by (simp add: take_bit_eq_mask mask_eq_exp_minus_1)
  also have "\<dots> = va" using v by (simp add: word_unat_eq_iff unsigned_take_bit_eq take_bit_nat_eq_self)
  finally have off: "va AND 0xFFF = va" .
  have "drop_bit 22 va = 0" "drop_bit 12 va = 0"
    using v by (simp_all add: drop_bit_eq_div word_unat_eq_iff unat_div)
  then have px: "PDX va = 0" "PTX va = 0" by (simp_all add: PDX_def PTX_def)
  have eq: "m x = amem0 x" if "x \<in> {0x80001000..0x80002003}" for x using assms(2,3) that by (auto simp: agree_but_def)
  have "mload32 m 0x80001000 = mload32 amem0 0x80001000" "mload32 m 0x80002000 = mload32 amem0 0x80002000"
    by (simp_all add: mload32_def get32_def eq)
  moreover have "mload32 amem0 0x80001000 = 0x2007" "mload32 amem0 0x80002000 = 0x3007" by code_simp+
  ultimately show ?thesis using off px by (simp add: translate_def p2v_def PTE_ADDR_def)
qed

lemma amach0_view: "user_view amach0 (\<lambda>va. amem0 (0x80003000 + va)) 64"
proof -
  have "umem amach0 va = Some (amem0 (0x80003000 + va))" if "va < 64" for va
    using amem0_translate [OF that, of "{}" amem0] by (simp add: umem_def amach0_def agree_but_def p2v_def)
  then show ?thesis by (simp add: user_view_def amach0_def)
qed

lemma amach0_args:
  "arg_word (\<lambda>va. amem0 (0x80003000 + va)) 64 (arg_addr amach0 0 0) = Some 32"
  "str_len (\<lambda>va. amem0 (0x80003000 + va)) 64 32 = Some 2"
  "curproc amach0 = Some 0"
  by code_simp+


end
