(* ===== verification/Bio.thy ===== *)
theory Bio
  imports Proc
begin

text \<open>
  \<^verbatim>\<open>bio.c\<close>, the buffer cache, over \<^verbatim>\<open>memide.c\<close>, the disk driver that keeps the disk in
  memory (the driver of the \<^verbatim>\<open>kernelmemfs\<close> build; it has the interface and the contract of
  \<^verbatim>\<open>ide.c\<close>).

  A \<^verbatim>\<open>struct buf *\<close> is an index: \<open>0 ..< NBUF\<close> for \<^verbatim>\<open>bcache.buf[i]\<close> and \<open>bhead\<close> for
  \<^verbatim>\<open>&bcache.head\<close>. The link fields \<^verbatim>\<open>next\<close> and \<^verbatim>\<open>prev\<close> are state components of their own, one
  map per field; the remaining fields are the record \<open>buf\<close>, with the three bits of \<^verbatim>\<open>flags\<close> as
  booleans. The disk maps sectors to blocks; \<open>dtrace\<close> records the writes the disk has
  received, oldest first, so that a crash between two writes can be talked about.
\<close>

section \<open>State\<close>

record buf =
  b_busy :: bool
  b_valid :: bool
  b_dirty :: bool
  bdev :: u32
  bsector :: u32
  bdata :: bytes

record bmach = pmach +
  bufs :: "nat \<Rightarrow> buf"
  bnext :: "nat \<Rightarrow> nat"
  bprev :: "nat \<Rightarrow> nat"
  disk :: "u32 \<Rightarrow> bytes"
  disksize :: u32
  dtrace :: "(u32 \<times> bytes) list"

definition bhead :: nat where [simp]: "bhead = NBUF"

definition set_buf :: "nat \<Rightarrow> (buf \<Rightarrow> buf) \<Rightarrow> 'z bmach_scheme \<Rightarrow> 'z bmach_scheme" where
  "set_buf b f s = s\<lparr>bufs := (bufs s)(b := f (bufs s b))\<rparr>"

section \<open>The disk driver: memide.c\<close>

definition iderw :: "nat \<Rightarrow> ('z bmach_scheme, unit) kern" where
  "iderw b =
     bindk (readk (\<lambda>s. bufs s b)) (\<lambda>f.
     bindk (readk disksize) (\<lambda>size.
     if \<not> b_busy f then panic ''iderw: buf not busy''
     else if b_valid f \<and> \<not> b_dirty f then panic ''iderw: nothing to do''
     else if bdev f \<noteq> 1 then panic ''iderw: request not for disk 1''
     else if size \<le> bsector f then panic ''iderw: sector out of range''
     else
     thenk (if b_dirty f
        then thenk (modk (set_buf b (\<lambda>x. x\<lparr>b_dirty := False\<rparr>)))
          (modk (\<lambda>s. s\<lparr>disk := (disk s)(bsector f := bdata f),
             dtrace := dtrace s @ [(bsector f, bdata f)]\<rparr>))
        else modk (\<lambda>s. set_buf b (\<lambda>x. x\<lparr>bdata := disk s (bsector f)\<rparr>) s))
     (modk (set_buf b (\<lambda>x. x\<lparr>b_valid := True\<rparr>)))))"

section \<open>The buffer cache: bio.c\<close>

text \<open>\<open>binit\<close>: link the buffers into a ring through \<open>bhead\<close>.\<close>

definition binit_one :: "nat \<Rightarrow> ('z bmach_scheme, unit) kern" where
  "binit_one b =
     thenk (modk (\<lambda>s. s\<lparr>bnext := (bnext s)(b := bnext s bhead)\<rparr>))
     (thenk (modk (\<lambda>s. s\<lparr>bprev := (bprev s)(b := bhead)\<rparr>))
     (thenk (modk (set_buf b (\<lambda>x. x\<lparr>bdev := - 1\<rparr>)))
     (thenk (modk (\<lambda>s. s\<lparr>bprev := (bprev s)(bnext s bhead := b)\<rparr>))
     (modk (\<lambda>s. s\<lparr>bnext := (bnext s)(bhead := b)\<rparr>)))))"

definition binit :: "('z bmach_scheme, unit) kern" where
  "binit =
     thenk (initlock BcacheLock)
     (thenk (modk (\<lambda>s. s\<lparr>bprev := (bprev s)(bhead := bhead)\<rparr>))
     (thenk (modk (\<lambda>s. s\<lparr>bnext := (bnext s)(bhead := bhead)\<rparr>))
     (foreach [0..<NBUF] binit_one)))"

text \<open>The two searches of \<open>bget\<close>: \<open>for(b = start; b != &bcache.head; b = b->link)\<close>. The ring has
  \<open>NBUF + 1\<close> nodes, so a walk that makes more steps than that goes round for ever.\<close>

fun bscan :: "nat \<Rightarrow> (nat \<Rightarrow> nat) \<Rightarrow> (nat \<Rightarrow> bool) \<Rightarrow> nat \<Rightarrow> nat option option" where
  "bscan 0 link P b = None"
| "bscan (Suc fuel) link P b =
     (if b = bhead then Some None
      else if P b then Some (Some b)
      else bscan fuel link P (link b))"

definition bget :: "u32 \<Rightarrow> u32 \<Rightarrow> ('z bmach_scheme, nat) kern" where
  "bget dev sector =
     thenk (acquire BcacheLock)
     (bindk (readk (\<lambda>s. bscan (Suc NBUF) (bnext s)
        (\<lambda>b. bdev (bufs s b) = dev \<and> bsector (bufs s b) = sector) (bnext s bhead))) (\<lambda>hit.
     case hit of
       None \<Rightarrow> spink
     | Some (Some b) \<Rightarrow>
         bindk (readk (\<lambda>s. b_busy (bufs s b))) (\<lambda>busy.
         if \<not> busy then
           thenk (modk (set_buf b (\<lambda>x. x\<lparr>b_busy := True\<rparr>)))
           (thenk (release BcacheLock) (retk b))
         else sleep (ChBuf b) BcacheLock)
     | Some None \<Rightarrow>
         bindk (readk (\<lambda>s. bscan (Suc NBUF) (bprev s)
            (\<lambda>b. \<not> b_busy (bufs s b) \<and> \<not> b_dirty (bufs s b)) (bprev s bhead))) (\<lambda>victim.
         case victim of
           None \<Rightarrow> spink
         | Some (Some b) \<Rightarrow>
             thenk (modk (set_buf b (\<lambda>x. x\<lparr>bdev := dev, bsector := sector,
                b_busy := True, b_valid := False, b_dirty := False\<rparr>)))
             (thenk (release BcacheLock) (retk b))
         | Some None \<Rightarrow> panic ''bget: no buffers'')))"

definition bread :: "u32 \<Rightarrow> u32 \<Rightarrow> ('z bmach_scheme, nat) kern" where
  "bread dev sector =
     bindk (bget dev sector) (\<lambda>b.
     bindk (readk (\<lambda>s. b_valid (bufs s b))) (\<lambda>valid.
     thenk (whenk (\<not> valid) (iderw b))
     (retk b)))"

definition bwrite :: "nat \<Rightarrow> ('z bmach_scheme, unit) kern" where
  "bwrite b =
     bindk (readk (\<lambda>s. b_busy (bufs s b))) (\<lambda>busy.
     if \<not> busy then panic ''bwrite'' else
     thenk (modk (set_buf b (\<lambda>x. x\<lparr>b_dirty := True\<rparr>)))
     (iderw b))"

definition brelse :: "nat \<Rightarrow> ('z bmach_scheme, unit) kern" where
  "brelse b =
     bindk (readk (\<lambda>s. b_busy (bufs s b))) (\<lambda>busy.
     if \<not> busy then panic ''brelse'' else
     thenk (acquire BcacheLock)
     (thenk (modk (\<lambda>s. s\<lparr>bprev := (bprev s)(bnext s b := bprev s b)\<rparr>))
     (thenk (modk (\<lambda>s. s\<lparr>bnext := (bnext s)(bprev s b := bnext s b)\<rparr>))
     (thenk (modk (\<lambda>s. s\<lparr>bnext := (bnext s)(b := bnext s bhead)\<rparr>))
     (thenk (modk (\<lambda>s. s\<lparr>bprev := (bprev s)(b := bhead)\<rparr>))
     (thenk (modk (\<lambda>s. s\<lparr>bprev := (bprev s)(bnext s bhead := b)\<rparr>))
     (thenk (modk (\<lambda>s. s\<lparr>bnext := (bnext s)(bhead := b)\<rparr>))
     (thenk (modk (set_buf b (\<lambda>x. x\<lparr>b_busy := False\<rparr>)))
     (thenk (wakeup (ChBuf b))
     (release BcacheLock))))))))))"

text \<open>Assignments to \<open>b->data\<close> by the holder of a buffer, and the read of it.\<close>

definition bp_data :: "nat \<Rightarrow> ('z bmach_scheme, bytes) kern" where
  "bp_data b = readk (\<lambda>s. bdata (bufs s b))"

definition set_data :: "nat \<Rightarrow> (bytes \<Rightarrow> bytes) \<Rightarrow> ('z bmach_scheme, unit) kern" where
  "set_data b f = modk (set_buf b (\<lambda>x. x\<lparr>bdata := f (bdata x)\<rparr>))"

section \<open>The ring of buffers\<close>

text \<open>\<open>chain f a bs z\<close>: following \<open>f\<close> from \<open>a\<close> visits \<open>bs\<close> and then \<open>z\<close>.\<close>

fun chain :: "(nat \<Rightarrow> nat) \<Rightarrow> nat \<Rightarrow> nat list \<Rightarrow> nat \<Rightarrow> bool" where
  "chain f a [] z = (f a = z)"
| "chain f a (b # bs) z = (f a = b \<and> chain f b bs z)"

definition ring :: "(nat \<Rightarrow> nat) \<Rightarrow> (nat \<Rightarrow> nat) \<Rightarrow> nat list \<Rightarrow> bool" where
  "ring nx pv bs \<longleftrightarrow> chain nx bhead bs bhead \<and> chain pv bhead (rev bs) bhead
     \<and> distinct bs \<and> set bs = {0..<NBUF}"

lemma chain_append: "chain f a (xs @ b # ys) z \<longleftrightarrow> chain f a xs b \<and> chain f b ys z"
  by (induction xs arbitrary: a) auto

lemma chain_upd: "u \<noteq> a \<Longrightarrow> u \<notin> set bs \<Longrightarrow> chain (f(u := v)) a bs z = chain f a bs z"
  by (induction bs arbitrary: a) auto

lemma chain_first: "chain f a bs z \<Longrightarrow> f a = hd (bs @ [z])"
  by (cases bs) auto

lemma chain_relast:
  "chain f a xs z \<Longrightarrow> distinct (a # xs) \<Longrightarrow> chain (f(last (a # xs) := w)) a xs w"
proof (induction xs arbitrary: a)
  case Nil
  then show ?case by simp
next
  case (Cons x xs)
  define l where "l = last (x # xs)"
  have "chain (f(last (x # xs) := w)) x xs w" by (rule Cons.IH) (use Cons.prems in auto)
  moreover have "l \<noteq> a"
    using Cons.prems(2) unfolding l_def by (metis distinct.simps(2) last_in_set list.distinct(1))
  moreover have "last (a # x # xs) = l" by (simp add: l_def)
  ultimately show ?case using Cons.prems by (simp flip: l_def add: fun_upd_def del: last.simps)
qed

lemma chain_unlink:
  assumes "chain f h (xs @ b # ys) h" and "distinct (h # xs @ b # ys)"
  shows "chain (f(last (h # xs) := f b)) h (xs @ ys) h"
proof -
  let ?g = "f(last (h # xs) := f b)"
  from assms(1) have 1: "chain f h xs b" "chain f b ys h" by (auto simp: chain_append)
  have l: "last (h # xs) \<in> set (h # xs)" by (rule last_in_set) simp
  then have lb: "last (h # xs) \<noteq> b" and ly: "last (h # xs) \<notin> set ys" using assms(2) by auto
  from 1(1) assms(2) have 2: "chain ?g h xs (f b)" by (intro chain_relast) auto
  show ?thesis
  proof (cases ys)
    case Nil
    with 1 2 show ?thesis by simp
  next
    case (Cons y zs)
    from 1(2) Cons have "f b = y" "chain f y zs h" by auto
    moreover have "chain ?g y zs h" using \<open>chain f y zs h\<close> ly Cons by (simp add: chain_upd)
    ultimately show ?thesis using 2 Cons by (simp add: chain_append)
  qed
qed

lemma chain_push:
  assumes "chain f h zs h" and "b \<notin> set zs" and "b \<noteq> h" and "h \<notin> set zs"
  shows "chain (f(b := f h, h := b)) h (b # zs) h"
proof (cases zs)
  case Nil
  with assms show ?thesis by auto
next
  case (Cons z ws)
  with assms show ?thesis by (auto simp: chain_upd)
qed

lemma chain_push_back:
  assumes "chain f h zs h" and "distinct (h # zs)" and "b \<notin> set zs" and "b \<noteq> h"
  shows "chain (f(b := h, last (h # zs) := b)) h (zs @ [b]) h"
proof -
  have l: "last (h # zs) \<in> set (h # zs)" by (rule last_in_set) simp
  have "chain (f(b := h)) h zs h" using assms by (simp add: chain_upd)
  then have "chain (f(b := h, last (h # zs) := b)) h zs b"
    using assms(2) by (rule chain_relast)
  moreover have "last (h # zs) \<noteq> b" using l assms by auto
  ultimately show ?thesis by (simp add: chain_append)
qed

text \<open>The six pointer assignments of \<open>brelse\<close> move a buffer to the front of the ring.\<close>

lemma ring_to_front:
  assumes "ring nx pv (xs @ b # ys)"
    and "pv1 = pv(nx b := pv b)" and "nx1 = nx(pv b := nx b)"
    and "nx2 = nx1(b := nx1 bhead)" and "pv2 = pv1(b := bhead)"
    and "pv3 = pv2(nx2 bhead := b)" and "nx3 = nx2(bhead := b)"
  shows "ring nx3 pv3 (b # xs @ ys)"
proof -
  let ?h = bhead
  from assms(1) have cn: "chain nx ?h (xs @ b # ys) ?h"
    and cp: "chain pv ?h (rev ys @ b # rev xs) ?h"
    and d: "distinct (?h # xs @ b # ys)" and st: "set (xs @ b # ys) = {0..<NBUF}"
    by (auto simp: ring_def)
  have pb: "pv b = last (?h # xs)"
    using cp chain_first [of pv b "rev xs" ?h] by (cases xs rule: rev_cases) (auto simp: chain_append)
  have nb: "nx b = last (?h # rev ys)"
    using cn chain_first [of nx b ys ?h] by (cases ys) (auto simp: chain_append)
  have cn1: "chain nx1 ?h (xs @ ys) ?h"
    using chain_unlink [OF cn d] assms(3) pb by simp
  have cp1: "chain pv1 ?h (rev ys @ rev xs) ?h"
    using chain_unlink [OF cp] d assms(2) nb by (simp add: ac_simps)
  have bh: "b \<noteq> ?h" "b \<notin> set (xs @ ys)" "?h \<notin> set (xs @ ys)" using d by auto
  have cn3: "chain nx3 ?h (b # xs @ ys) ?h"
    using chain_push [OF cn1 bh(2,1,3)] assms(4,7) by simp
  have "nx2 ?h = last (?h # rev (xs @ ys))"
    using chain_first [OF cn1] bh(1) assms(4) by (cases "xs @ ys") auto
  then have cp3: "chain pv3 ?h (rev (b # xs @ ys)) ?h"
    using chain_push_back [of pv1 ?h "rev (xs @ ys)" b] cp1 d bh assms(5,6) by (auto simp: ac_simps)
  from cn3 cp3 d st show ?thesis by (auto simp: ring_def)
qed

text \<open>A walk along the ring is a search of the list.\<close>

lemma bscan_find:
  "chain f a bs bhead \<Longrightarrow> bhead \<notin> set bs \<Longrightarrow> length bs < fuel \<Longrightarrow>
   bscan fuel f P (f a) = Some (find P bs)"
proof (induction bs arbitrary: a fuel)
  case Nil
  then show ?case by (cases fuel) auto
next
  case (Cons b bs)
  then show ?case by (cases fuel) auto
qed

lemma ring_length: "ring nx pv bs \<Longrightarrow> length bs = NBUF"
  unfolding ring_def by (metis card_atLeastLessThan diff_zero distinct_card)

lemma ring_bscan:
  assumes "ring nx pv bs"
  shows "bscan (Suc NBUF) nx P (nx bhead) = Some (find P bs)"
    and "bscan (Suc NBUF) pv P (pv bhead) = Some (find P (rev bs))"
proof -
  have "bhead \<notin> set bs" using assms by (simp add: ring_def)
  then show "bscan (Suc NBUF) nx P (nx bhead) = Some (find P bs)"
    and "bscan (Suc NBUF) pv P (pv bhead) = Some (find P (rev bs))"
    using assms ring_length [OF assms] unfolding ring_def
    by (simp_all add: bscan_find del: bscan.simps bhead_def NBUF_def)
qed

section \<open>The invariant of the cache and its logical content\<close>

text \<open>
  \<open>bcached s sec b\<close>: buffer \<open>b\<close> holds sector \<open>sec\<close> of disk 1. A buffer either has never been
  used or is valid; one that nobody holds and that is not dirty agrees with the disk; and no
  sector is cached twice. The logical content \<open>bview s\<close> of the disk is what a reader finds
  through the cache.
\<close>

definition bcached :: "'z bmach_scheme \<Rightarrow> u32 \<Rightarrow> nat \<Rightarrow> bool" where
  "bcached s sec b \<longleftrightarrow> b < NBUF \<and> bdev (bufs s b) = 1 \<and> bsector (bufs s b) = sec"

definition buf_ok :: "u32 \<Rightarrow> (u32 \<Rightarrow> bytes) \<Rightarrow> buf \<Rightarrow> bool" where
  "buf_ok lim d f \<longleftrightarrow>
     (if bdev f = - 1 then \<not> b_busy f \<and> \<not> b_valid f \<and> \<not> b_dirty f
      else bdev f = 1 \<and> b_valid f \<and> bsector f < lim
        \<and> (b_busy f \<or> b_dirty f \<or> bdata f = d (bsector f)))"

definition bio_inv :: "'z bmach_scheme \<Rightarrow> bool" where
  "bio_inv s \<longleftrightarrow> (\<exists>bs. ring (bnext s) (bprev s) bs)
     \<and> (\<forall>b < NBUF. buf_ok (disksize s) (disk s) (bufs s b))
     \<and> (\<forall>sec b c. bcached s sec b \<longrightarrow> bcached s sec c \<longrightarrow> b = c)"

definition bview :: "'z bmach_scheme \<Rightarrow> u32 \<Rightarrow> bytes" where
  "bview s sec =
     (case find (bcached s sec) [0..<NBUF] of Some b \<Rightarrow> bdata (bufs s b) | None \<Rightarrow> disk s sec)"

text \<open>A buffer as the holder of it sees it.\<close>

definition held_buf :: "bool \<Rightarrow> u32 \<Rightarrow> bytes \<Rightarrow> buf" where
  "held_buf dirty sec d = \<lparr>b_busy = True, b_valid = True, b_dirty = dirty,
     bdev = 1, bsector = sec, bdata = d\<rparr>"

lemma held_buf_simps [simp]:
  "b_busy (held_buf y sec d)" "b_valid (held_buf y sec d)" "b_dirty (held_buf y sec d) = y"
  "bdev (held_buf y sec d) = 1" "bsector (held_buf y sec d) = sec" "bdata (held_buf y sec d) = d"
  "(held_buf y sec d)\<lparr>bdata := d'\<rparr> = held_buf y sec d'"
  "(held_buf y sec d)\<lparr>b_dirty := y'\<rparr> = held_buf y' sec d"
  "(held_buf y sec d)\<lparr>b_valid := True\<rparr> = held_buf y sec d"
  by (simp_all add: held_buf_def)

lemma bview_hit: "bio_inv s \<Longrightarrow> bcached s sec b \<Longrightarrow> bview s sec = bdata (bufs s b)"
proof -
  assume i: "bio_inv s" and c: "bcached s sec b"
  then have "find (bcached s sec) [0..<NBUF] \<noteq> None" by (auto simp: find_None_iff bcached_def)
  then obtain c where f: "find (bcached s sec) [0..<NBUF] = Some c" by auto
  then have "bcached s sec c" by (auto simp: find_Some_iff)
  with i c have "c = b" unfolding bio_inv_def by blast
  with f show ?thesis by (simp add: bview_def)
qed

lemma bview_miss: "(\<And>b. \<not> bcached s sec b) \<Longrightarrow> bview s sec = disk s sec"
proof -
  assume "\<And>b. \<not> bcached s sec b"
  then have "find (bcached s sec) [0..<NBUF] = None" by (simp add: find_None_iff)
  then show ?thesis by (simp add: bview_def)
qed

lemma bio_inv_ok: "bio_inv s \<Longrightarrow> b < NBUF \<Longrightarrow> buf_ok (disksize s) (disk s) (bufs s b)"
  by (simp add: bio_inv_def)

lemma bio_inv_uniq: "bio_inv s \<Longrightarrow> bcached s sec b \<Longrightarrow> bcached s sec c \<Longrightarrow> b = c"
  unfolding bio_inv_def by blast

text \<open>Only a held or dirty buffer can differ from the disk.\<close>

lemma bview_disk:
  assumes "bio_inv s" and "\<And>b. bcached s sec b \<Longrightarrow> \<not> b_busy (bufs s b) \<and> \<not> b_dirty (bufs s b)"
  shows "bview s sec = disk s sec"
proof (cases "\<exists>b. bcached s sec b")
  case True
  then obtain b where b: "bcached s sec b" by blast
  then have "buf_ok (disksize s) (disk s) (bufs s b)"
    using assms(1) by (simp add: bio_inv_ok bcached_def)
  with assms b bview_hit [OF assms(1) b] show ?thesis by (auto simp: buf_ok_def bcached_def)
next
  case False
  then show ?thesis by (simp add: bview_miss)
qed

text \<open>
  One buffer and one sector of the disk change together: the common step of all operations.
\<close>

lemma bio_inv_update:
  assumes "bio_inv s" and "b < NBUF"
    and "ring (bnext t) (bprev t) bs" and "disksize t = disksize s"
    and "bufs t = (bufs s)(b := f)"
    and "buf_ok (disksize s) (disk t) f"
    and "bdev f = 1 \<Longrightarrow> (\<And>c. bcached s (bsector f) c \<Longrightarrow> c = b)"
    and "disk t = disk s \<or> (\<exists>d. disk t = (disk s)(bsector f := d) \<and> bdev f = 1)"
  shows "bio_inv t"
proof -
  have cached: "bcached t sec c \<longleftrightarrow> (if c = b then bdev f = 1 \<and> bsector f = sec else bcached s sec c)"
    for sec c using assms(2,5) by (simp add: bcached_def)
  have "buf_ok (disksize t) (disk t) (bufs t c)" if "c < NBUF" for c
  proof (cases "c = b")
    case True
    with assms show ?thesis by simp
  next
    case False
    have ok: "buf_ok (disksize s) (disk s) (bufs s c)" using assms(1) that by (rule bio_inv_ok)
    have "bdev (bufs s c) = 1 \<Longrightarrow> bdev f = 1 \<Longrightarrow> bsector (bufs s c) \<noteq> bsector f"
      using assms(7) [of c] False that by (auto simp: bcached_def)
    with ok False assms(4,5,8) show ?thesis by (auto simp: buf_ok_def)
  qed
  moreover have "x = y" if "bcached t sec x" "bcached t sec y" for sec x y
    using that assms(7) bio_inv_uniq [OF assms(1), of sec] unfolding cached
    by (metis (full_types))
  ultimately show ?thesis using assms(3) unfolding bio_inv_def by blast
qed

lemma bview_update:
  assumes "bio_inv s" and "bio_inv t" and "b < NBUF" and "bufs t = (bufs s)(b := f)"
    and "bdev f = 1" and "\<And>c. bcached s (bsector f) c \<Longrightarrow> c = b"
    and "disk t = disk s \<or> (\<exists>d. disk t = (disk s)(bsector f := d))"
    and "bcached s (bsector f) b \<or> (\<not> b_busy (bufs s b) \<and> \<not> b_dirty (bufs s b))"
  shows "bview t = (bview s)(bsector f := bdata f)"
proof
  fix sec
  have cached: "bcached t x c \<longleftrightarrow> (if c = b then bsector f = x else bcached s x c)"
    for x c using assms(3,4,5) by (simp add: bcached_def)
  have here: "bview t (bsector f) = bdata f"
    using bview_hit [OF assms(2), of "bsector f" b] cached assms(4) by simp
  have "bview t sec = bview s sec" if "sec \<noteq> bsector f"
  proof (cases "\<exists>c. c \<noteq> b \<and> bcached s sec c")
    case True
    then obtain c where "c \<noteq> b" "bcached s sec c" by blast
    then show ?thesis
      using bview_hit [OF assms(2), of sec c] bview_hit [OF assms(1), of sec c] cached assms(4)
      by simp
  next
    case False
    then have "bview t sec = disk t sec" using that cached by (intro bview_miss) metis
    moreover have "disk t sec = disk s sec" using assms(7) that by auto
    moreover have "bview s sec = disk s sec"
      by (rule bview_disk [OF assms(1)]) (use False assms(8) that in \<open>auto simp: bcached_def\<close>)
    ultimately show ?thesis by simp
  qed
  with here show "bview t sec = ((bview s)(bsector f := bdata f)) sec" by simp
qed

section \<open>What the operations do\<close>

abbreviation bput :: "nat \<Rightarrow> buf \<Rightarrow> 'z bmach_scheme \<Rightarrow> 'z bmach_scheme" where
  "bput b f s \<equiv> s\<lparr>bufs := (bufs s)(b := f)\<rparr>"

text \<open>The effect of a \<open>bread\<close> that returns: the buffer is now held and shows the logical content
  of the sector; a dirty buffer stays dirty, any other buffer is clean.\<close>

definition bread_to :: "'z bmach_scheme \<Rightarrow> u32 \<Rightarrow> nat \<Rightarrow> 'z bmach_scheme" where
  "bread_to s sec b = bput b (held_buf (bcached s sec b \<and> b_dirty (bufs s b)) sec (bview s sec)) s"

text \<open>\<open>bfetch s sec b\<close>: \<open>b\<close> is the buffer the sector is in, or one it can be put in.\<close>

definition bfetch :: "'z bmach_scheme \<Rightarrow> u32 \<Rightarrow> nat \<Rightarrow> bool" where
  "bfetch s sec b \<longleftrightarrow> b < NBUF \<and> sec < disksize s \<and> \<not> b_busy (bufs s b)
     \<and> (bcached s sec b \<or> (\<forall>c. \<not> bcached s sec c) \<and> \<not> b_dirty (bufs s b))"

lemma find_hit:
  assumes "bio_inv s" and "bcached s sec b" and "set bs = {0..<NBUF}"
  shows "find (\<lambda>b. bdev (bufs s b) = 1 \<and> bsector (bufs s b) = sec) bs = Some b"
proof -
  let ?P = "\<lambda>b. bdev (bufs s b) = 1 \<and> bsector (bufs s b) = sec"
  have "find ?P bs \<noteq> None" using assms(2,3) by (auto simp: find_None_iff bcached_def)
  then obtain c where f: "find ?P bs = Some c" by auto
  then have "c \<in> set bs" "?P c" by (auto simp: find_Some_iff)
  then have "bcached s sec c" using assms(3) by (auto simp: bcached_def)
  with assms f show ?thesis using bio_inv_uniq by blast
qed

lemma find_miss:
  assumes "\<And>c. \<not> bcached s sec c" and "set bs = {0..<NBUF}"
  shows "find (\<lambda>b. bdev (bufs s b) = 1 \<and> bsector (bufs s b) = sec) bs = None"
  using assms by (auto simp: find_None_iff bcached_def)

lemma bget_hit:
  assumes "quiet s" and "bio_inv s" and "bcached s sec b"
  shows "bget 1 sec s =
    (if b_busy (bufs s b) then sleep (ChBuf b) BcacheLock (s\<lparr>lk := lk_acq BcacheLock (lk s)\<rparr>)
     else Ok b (bput b ((bufs s b)\<lparr>b_busy := True\<rparr>) s))"
proof -
  obtain bs where r: "ring (bnext s) (bprev s) bs" using assms(2) by (auto simp: bio_inv_def)
  have "find (\<lambda>b. bdev (bufs s b) = 1 \<and> bsector (bufs s b) = sec) bs = Some b"
    using r by (intro find_hit [OF assms(2,3)]) (simp add: ring_def)
  then show ?thesis
    using assms(1) ring_bscan(1) [OF r]
    by (simp add: bget_def acquire_ok release_acq set_buf_def del: bscan.simps bhead_def NBUF_def)
qed

lemma bget_miss:
  assumes "quiet s" and "bio_inv s" and "\<And>c. \<not> bcached s sec c"
  shows "(\<forall>c < NBUF. b_busy (bufs s c) \<or> b_dirty (bufs s c)) \<and> bget 1 sec s = Panic ''bget: no buffers''
    \<or> (\<exists>b < NBUF. \<not> b_busy (bufs s b) \<and> \<not> b_dirty (bufs s b)
        \<and> bget 1 sec s = Ok b (bput b ((bufs s b)\<lparr>bdev := 1, bsector := sec, b_busy := True,
             b_valid := False, b_dirty := False\<rparr>) s))"
proof -
  let ?V = "\<lambda>b. \<not> b_busy (bufs s b) \<and> \<not> b_dirty (bufs s b)"
  obtain bs where r: "ring (bnext s) (bprev s) bs" using assms(2) by (auto simp: bio_inv_def)
  then have m: "find (\<lambda>b. bdev (bufs s b) = 1 \<and> bsector (bufs s b) = sec) bs = None"
    and st: "set (rev bs) = {0..<NBUF}"
    using find_miss [OF assms(3)] by (auto simp: ring_def)
  show ?thesis
  proof (cases "find ?V (rev bs)")
    case None
    then have "\<forall>c < NBUF. b_busy (bufs s c) \<or> b_dirty (bufs s c)"
      using st by (auto simp: find_None_iff)
    moreover have "bget 1 sec s = Panic ''bget: no buffers''"
      using assms(1) ring_bscan [OF r] m None
      by (simp add: bget_def acquire_ok del: bscan.simps bhead_def NBUF_def)
    ultimately show ?thesis by blast
  next
    case (Some b)
    then have "b < NBUF" "?V b" using st find_SomeD [OF Some] by auto
    moreover have "bget 1 sec s = Ok b (bput b ((bufs s b)\<lparr>bdev := 1, bsector := sec, b_busy := True,
             b_valid := False, b_dirty := False\<rparr>) s)"
      using assms(1) ring_bscan [OF r] m Some
      by (simp add: bget_def acquire_ok release_acq set_buf_def del: bscan.simps bhead_def NBUF_def)
    ultimately show ?thesis by blast
  qed
qed

lemma bread_hit:
  assumes "quiet s" and "bio_inv s" and "bcached s sec b"
  shows "bread 1 sec s =
    (if b_busy (bufs s b) then sleep (ChBuf b) BcacheLock (s\<lparr>lk := lk_acq BcacheLock (lk s)\<rparr>)
     else Ok b (bread_to s sec b))"
proof -
  have v: "b_valid (bufs s b)" "bdev (bufs s b) = 1" "bsector (bufs s b) = sec"
    using bio_inv_ok [OF assms(2), of b] assms(3) by (auto simp: buf_ok_def bcached_def)
  have h: "(bufs s b)\<lparr>b_busy := True\<rparr> = held_buf (b_dirty (bufs s b)) sec (bview s sec)"
    using v bview_hit [OF assms(2,3)] by (simp add: held_buf_def)
  show ?thesis
  proof (cases "b_busy (bufs s b)")
    case True
    then show ?thesis
      by (simp add: bread_def bindk_def bget_hit [OF assms] split: outcome.split)
  next
    case False
    then have "bget 1 sec s = Ok b (bread_to s sec b)"
      using assms(3) unfolding bread_to_def bget_hit [OF assms] h by simp
    with False show ?thesis by (simp add: bread_def bread_to_def)
  qed
qed

lemma bread_miss:
  assumes "quiet s" and "bio_inv s" and "\<And>c. \<not> bcached s sec c" and "sec < disksize s"
  shows "(\<forall>c < NBUF. b_busy (bufs s c) \<or> b_dirty (bufs s c)) \<and> bread 1 sec s = Panic ''bget: no buffers''
    \<or> (\<exists>b. bfetch s sec b \<and> bread 1 sec s = Ok b (bread_to s sec b))"
proof -
  from bget_miss [OF assms(1-3)] show ?thesis
  proof
    assume "(\<forall>c < NBUF. b_busy (bufs s c) \<or> b_dirty (bufs s c)) \<and> bget 1 sec s = Panic ''bget: no buffers''"
    then show ?thesis by (simp add: bread_def)
  next
    assume "\<exists>b < NBUF. \<not> b_busy (bufs s b) \<and> \<not> b_dirty (bufs s b)
        \<and> bget 1 sec s = Ok b (bput b ((bufs s b)\<lparr>bdev := 1, bsector := sec, b_busy := True,
             b_valid := False, b_dirty := False\<rparr>) s)"
    then obtain b where b: "b < NBUF" "\<not> b_busy (bufs s b)" "\<not> b_dirty (bufs s b)"
      and g: "bget 1 sec s = Ok b (bput b ((bufs s b)\<lparr>bdev := 1, bsector := sec, b_busy := True,
             b_valid := False, b_dirty := False\<rparr>) s)" by blast
    have "bread 1 sec s = Ok b (bread_to s sec b)"
      using assms(3,4) bview_miss [OF assms(3)]
      by (cases "bufs s b") (simp add: bread_def g iderw_def set_buf_def bread_to_def held_buf_def not_le)
    with b assms(3,4) show ?thesis by (auto simp: bfetch_def)
  qed
qed

text \<open>\<open>bread\<close> returns whenever the sector is on the disk, nobody holds it, and it is cached or
  there is a buffer to recycle; and then it returns the logical content of the sector.\<close>

lemma bread_ok:
  assumes "quiet s" and "bio_inv s" and "sec < disksize s"
    and "\<And>b. bcached s sec b \<Longrightarrow> \<not> b_busy (bufs s b)"
    and "(\<exists>b. bcached s sec b) \<or> (\<exists>b < NBUF. \<not> b_busy (bufs s b) \<and> \<not> b_dirty (bufs s b))"
  obtains b where "bfetch s sec b" and "bread 1 sec s = Ok b (bread_to s sec b)"
proof (cases "\<exists>b. bcached s sec b")
  case True
  then obtain b where "bcached s sec b" by blast
  with assms that [of b] show ?thesis
    by (simp add: bread_hit bfetch_def bcached_def)
next
  case False
  with assms bread_miss [of s sec] that show ?thesis by blast
qed

lemma bread_OkD:
  assumes "quiet s" and "bio_inv s" and "bread 1 sec s = Ok b t"
  shows "bfetch s sec b \<and> t = bread_to s sec b"
proof (cases "\<exists>c. bcached s sec c")
  case True
  then obtain c where c: "bcached s sec c" by blast
  then have "sec < disksize s" using bio_inv_ok [OF assms(2), of c] by (auto simp: buf_ok_def bcached_def)
  with c assms show ?thesis
    by (auto simp: bread_hit bfetch_def bcached_def split: if_splits)
next
  case False
  then have none: "\<And>c. \<not> bcached s sec c" by blast
  have "sec < disksize s"
    using bget_miss [OF assms(1,2) none] assms(3)
    by (auto simp: bread_def iderw_def split: if_splits)
  with bread_miss [OF assms(1,2) none] assms(3) show ?thesis by auto
qed

lemma bread_to_inv:
  assumes "bio_inv s" and "bfetch s sec b"
  shows "bio_inv (bread_to s sec b)" and "bview (bread_to s sec b) = bview s"
proof -
  let ?f = "held_buf (bcached s sec b \<and> b_dirty (bufs s b)) sec (bview s sec)"
  obtain bs where r: "ring (bnext s) (bprev s) bs" using assms(1) by (auto simp: bio_inv_def)
  have b: "b < NBUF" "sec < disksize s" using assms(2) by (simp_all add: bfetch_def)
  have u: "c = b" if "bcached s sec c" for c
    using that assms(2) bio_inv_uniq [OF assms(1)] by (auto simp: bfetch_def)
  show i: "bio_inv (bread_to s sec b)"
    by (rule bio_inv_update [OF assms(1) b(1), of _ bs ?f])
      (use r u b in \<open>auto simp: bread_to_def buf_ok_def\<close>)
  have "bview (bread_to s sec b) = (bview s)(bsector ?f := bdata ?f)"
    by (rule bview_update [OF assms(1) i b(1)])
      (use u assms(2) in \<open>auto simp: bread_to_def bfetch_def\<close>)
  then show "bview (bread_to s sec b) = bview s" by simp
qed

text \<open>\<open>bholds s sec b\<close>: \<open>b\<close> is held and contains sector \<open>sec\<close>. Its holder may change the data, write
  them to the disk and give the buffer back.\<close>

definition bholds :: "'z bmach_scheme \<Rightarrow> u32 \<Rightarrow> nat \<Rightarrow> bool" where
  "bholds s sec b \<longleftrightarrow> bcached s sec b \<and> b_busy (bufs s b)"

lemma bholds_buf:
  assumes "bio_inv s" and "bholds s sec b"
  shows "bufs s b = held_buf (b_dirty (bufs s b)) sec (bview s sec)" and "sec < disksize s" and "b < NBUF"
proof -
  have c: "bcached s sec b" using assms(2) by (simp add: bholds_def)
  then have "buf_ok (disksize s) (disk s) (bufs s b)" using assms(1) by (simp add: bio_inv_ok bcached_def)
  then show "bufs s b = held_buf (b_dirty (bufs s b)) sec (bview s sec)" and "sec < disksize s" and "b < NBUF"
    using assms(2) bview_hit [OF assms(1) c]
    by (auto simp: held_buf_def bholds_def bcached_def buf_ok_def)
qed

lemma bread_to_holds: "bfetch s sec b \<Longrightarrow> bholds (bread_to s sec b) sec b"
  by (simp add: bholds_def bread_to_def bcached_def bfetch_def)

text \<open>A held buffer gets a new dirty bit and new data; optionally the sector is written.\<close>

lemma held_update:
  assumes "bio_inv s" and "bholds s sec b" and "bufs t = (bufs s)(b := held_buf y sec d)"
    and "bnext t = bnext s" and "bprev t = bprev s" and "disksize t = disksize s"
    and "disk t = disk s \<or> (\<exists>e. disk t = (disk s)(sec := e))"
  shows "bio_inv t" and "bview t = (bview s)(sec := d)" and "bholds t sec b"
proof -
  let ?f = "held_buf y sec d"
  obtain bs where r: "ring (bnext s) (bprev s) bs" using assms(1) by (auto simp: bio_inv_def)
  have c: "bcached s sec b" "b < NBUF" "sec < disksize s"
    using assms(2) bholds_buf(2,3) [OF assms(1,2)] by (simp_all add: bholds_def)
  have u: "c = b" if "bcached s (bsector ?f) c" for c
    using that c(1) bio_inv_uniq [OF assms(1), of sec] by simp
  show i: "bio_inv t"
  proof (rule bio_inv_update [OF assms(1) c(2) _ assms(6,3)])
    show "ring (bnext t) (bprev t) bs" using r assms(4,5) by simp
    show "buf_ok (disksize s) (disk t) ?f" using c(3) by (simp add: buf_ok_def)
    show "c = b" if "bcached s (bsector ?f) c" for c using that by (rule u)
  qed (use assms(7) in simp)
  have "bview t = (bview s)(bsector ?f := bdata ?f)"
    by (rule bview_update [OF assms(1) i c(2) assms(3) _ u]) (use c(1) assms(7) in simp_all)
  then show "bview t = (bview s)(sec := d)" by simp
  show "bholds t sec b" using c assms(3) by (simp add: bholds_def bcached_def)
qed

lemma set_data_run:
  assumes "bio_inv s" and "bholds s sec b"
  shows "set_data b f s = Ok () (bput b (held_buf (b_dirty (bufs s b)) sec (f (bview s sec))) s)"
proof -
  obtain y where "bufs s b = held_buf y sec (bview s sec)" using bholds_buf(1) [OF assms] by blast
  then show ?thesis by (simp add: set_data_def set_buf_def)
qed

lemma bwrite_run:
  assumes "bio_inv s" and "bholds s sec b"
  shows "bwrite b s = Ok () (s\<lparr>bufs := (bufs s)(b := held_buf False sec (bview s sec)),
     disk := (disk s)(sec := bview s sec), dtrace := dtrace s @ [(sec, bview s sec)]\<rparr>)"
proof -
  obtain y where "bufs s b = held_buf y sec (bview s sec)" and "sec < disksize s"
    using bholds_buf [OF assms] by blast
  then show ?thesis by (simp add: bwrite_def iderw_def set_buf_def not_le)
qed

lemma brelse_run:
  assumes "quiet s" and "ring (bnext s) (bprev s) (xs @ b # ys)" and "b_busy (bufs s b)"
  obtains nx pv where "ring nx pv (b # xs @ ys)"
    and "brelse b s = Ok () (s\<lparr>bufs := (bufs s)(b := (bufs s b)\<lparr>b_busy := False\<rparr>),
       bnext := nx, bprev := pv, ptable := wake (Some (ChBuf b)) (ptable s)\<rparr>)"
proof -
  define pv1 where "pv1 = (bprev s)(bnext s b := bprev s b)"
  have b: "b \<noteq> bhead" using assms(2) by (auto simp: ring_def)
  have pvb: "pv1 b = bprev s b"
  proof -
    have "bnext s b = hd (ys @ [bhead])"
      using assms(2) chain_first [of "bnext s" b ys bhead] by (auto simp: ring_def chain_append)
    then have "bnext s b \<noteq> b" using assms(2) by (cases ys) (auto simp: ring_def)
    then show ?thesis by (simp add: pv1_def)
  qed
  define nx1 where "nx1 = (bnext s)(bprev s b := bnext s b)"
  define nx2 where "nx2 = nx1(b := nx1 bhead)"
  define pv2 where "pv2 = pv1(b := bhead)"
  define pv3 where "pv3 = pv2(nx2 bhead := b)"
  define nx3 where "nx3 = nx2(bhead := b)"
  have "ring nx3 pv3 (b # xs @ ys)"
    using ring_to_front [OF assms(2) pv1_def nx1_def nx2_def pv2_def pv3_def nx3_def] .
  moreover have "brelse b s = Ok () (s\<lparr>bufs := (bufs s)(b := (bufs s b)\<lparr>b_busy := False\<rparr>),
       bnext := nx3, bprev := pv3, ptable := wake (Some (ChBuf b)) (ptable s)\<rparr>)"
    using assms(1,3)
    by (simp add: brelse_def acquire_ok release_acq set_buf_def wakeup_run pvb
        flip: pv1_def nx1_def nx2_def pv2_def pv3_def nx3_def del: bhead_def)
  ultimately show thesis by (rule that)
qed

text \<open>A held buffer that is dirty or agrees with the disk can be released.\<close>

lemma brelse_ok:
  assumes "quiet s" and "bio_inv s" and "bholds s sec b"
    and "b_dirty (bufs s b) \<or> bview s sec = disk s sec"
  obtains nx pv t where
    "t = s\<lparr>bufs := (bufs s)(b := (bufs s b)\<lparr>b_busy := False\<rparr>),
       bnext := nx, bprev := pv, ptable := wake (Some (ChBuf b)) (ptable s)\<rparr>"
    and "brelse b s = Ok () t" and "bio_inv t" and "bview t = bview s"
proof -
  have b: "b < NBUF" "bcached s sec b" "b_busy (bufs s b)"
    using assms(3) by (auto simp: bholds_def bcached_def)
  obtain bs where r: "ring (bnext s) (bprev s) bs" using assms(2) by (auto simp: bio_inv_def)
  then obtain xs ys where bs: "bs = xs @ b # ys" using b(1) by (metis atLeastLessThan_iff ring_def split_list zero_le)
  obtain nx pv where r2: "ring nx pv (b # xs @ ys)"
    and run: "brelse b s = Ok () (s\<lparr>bufs := (bufs s)(b := (bufs s b)\<lparr>b_busy := False\<rparr>),
       bnext := nx, bprev := pv, ptable := wake (Some (ChBuf b)) (ptable s)\<rparr>)"
    using brelse_run [OF assms(1) r [unfolded bs] b(3)] .
  let ?f = "(bufs s b)\<lparr>b_busy := False\<rparr>"
  define t where t: "t = s\<lparr>bufs := (bufs s)(b := ?f),
       bnext := nx, bprev := pv, ptable := wake (Some (ChBuf b)) (ptable s)\<rparr>"
  have f: "bdev ?f = 1" "bsector ?f = sec" "bdata ?f = bview s sec"
    using b(2) bview_hit [OF assms(2) b(2)] by (auto simp: bcached_def)
  have u: "c = b" if "bcached s (bsector ?f) c" for c
    using that b(2) bio_inv_uniq [OF assms(2), of sec] f(2) by simp
  have i: "bio_inv t"
  proof (rule bio_inv_update [OF assms(2) b(1), where f = ?f])
    show "ring (bnext t) (bprev t) (b # xs @ ys)" using r2 by (simp add: t)
    show "buf_ok (disksize s) (disk t) ?f"
      using bio_inv_ok [OF assms(2) b(1)] f assms(4) by (auto simp: buf_ok_def t)
    show "c = b" if "bcached s (bsector ?f) c" for c using that by (rule u)
  qed (simp_all add: t)
  have "bview t = (bview s)(bsector ?f := bdata ?f)"
    by (rule bview_update [OF assms(2) i b(1) _ f(1) u]) (use b(2) f(2) in \<open>simp_all add: t\<close>)
  then have "bview t = bview s" unfolding f by simp
  with i run show thesis using that [OF t] by (simp add: t)
qed

section \<open>The contract of the cache\<close>

text \<open>The buffers that are held, by sector; the sectors with a dirty buffer; and the part of the
  state the cache never touches.\<close>

definition bheld :: "'z bmach_scheme \<Rightarrow> u32 \<Rightarrow> nat option" where
  "bheld s sec = find (bholds s sec) [0..<NBUF]"

definition bdirty :: "'z bmach_scheme \<Rightarrow> u32 set" where
  "bdirty s = {sec. \<exists>b. bcached s sec b \<and> b_dirty (bufs s b)}"

definition bframe :: "'z bmach_scheme \<Rightarrow> 'z bmach_scheme \<Rightarrow> bool" where
  "bframe s t \<longleftrightarrow> t = s\<lparr>ptable := ptable t, bufs := bufs t, bnext := bnext t, bprev := bprev t,
     disk := disk t, dtrace := dtrace t\<rparr> \<and> pt_woken (ptable s) (ptable t)"

definition bio_ok :: "'z bmach_scheme \<Rightarrow> bool" where
  "bio_ok s \<longleftrightarrow> quiet s \<and> bio_inv s"

lemma bframe_refl [simp]: "bframe s s"
  by (simp add: bframe_def)

lemma bframe_trans: "bframe s t \<Longrightarrow> bframe t u \<Longrightarrow> bframe s u"
proof -
  assume a: "bframe s t" and b: "bframe t u"
  have t: "t = s\<lparr>ptable := ptable t, bufs := bufs t, bnext := bnext t, bprev := bprev t,
     disk := disk t, dtrace := dtrace t\<rparr>" using a by (simp add: bframe_def)
  have u: "u = t\<lparr>ptable := ptable u, bufs := bufs u, bnext := bnext u, bprev := bprev u,
     disk := disk u, dtrace := dtrace u\<rparr>" using b by (simp add: bframe_def)
  have "u = s\<lparr>ptable := ptable u, bufs := bufs u, bnext := bnext u, bprev := bprev u,
     disk := disk u, dtrace := dtrace u\<rparr>" by (subst u, subst t) simp
  then show ?thesis using a b pt_woken_trans unfolding bframe_def by blast
qed

lemma bframe_same:
  assumes "bframe s t"
  shows "lk t = lk s" and "disksize t = disksize s" and "bmach.more t = bmach.more s"
    and "kmach.truncate t = kmach.truncate s"
proof -
  have t: "t = s\<lparr>ptable := ptable t, bufs := bufs t, bnext := bnext t, bprev := bprev t,
     disk := disk t, dtrace := dtrace t\<rparr>" using assms by (simp add: bframe_def)
  show "lk t = lk s" by (subst t) simp
  show "disksize t = disksize s" by (subst t) simp
  show "bmach.more t = bmach.more s" by (subst t) simp
  show "kmach.truncate t = kmach.truncate s" by (subst t) (simp add: kmach.defs)
qed

lemma bheld_Some: "bio_inv s \<Longrightarrow> bheld s sec = Some b \<longleftrightarrow> bholds s sec b"
proof
  assume "bheld s sec = Some b"
  then show "bholds s sec b" unfolding bheld_def by (drule_tac find_SomeD) simp
next
  assume i: "bio_inv s" and h: "bholds s sec b"
  then have "bheld s sec \<noteq> None" by (auto simp: bheld_def find_None_iff bholds_def bcached_def)
  then obtain c where c: "bheld s sec = Some c" by auto
  then have "bholds s sec c" unfolding bheld_def by (drule_tac find_SomeD) simp
  with i h c show "bheld s sec = Some b" using bio_inv_uniq [OF i] by (auto simp: bholds_def)
qed

lemma bheld_bdirty_update:
  assumes "bio_inv s" and "bio_inv t" and "b < NBUF" and "bufs t = (bufs s)(b := f)"
    and "bdev f = 1" and "\<And>c. bcached s (bsector f) c \<Longrightarrow> c = b"
    and "bcached s (bsector f) b \<or> (\<not> b_busy (bufs s b) \<and> \<not> b_dirty (bufs s b))"
  shows "bheld t = (bheld s)(bsector f := if b_busy f then Some b else None)"
    and "bdirty t = (if b_dirty f then insert (bsector f) (bdirty s) else bdirty s - {bsector f})"
proof -
  have cached: "bcached t x c \<longleftrightarrow> (if c = b then bsector f = x else bcached s x c)"
    for x c using assms(3,4,5) by (simp add: bcached_def)
  have other: "x \<noteq> bsector f \<Longrightarrow> bcached s x b \<Longrightarrow> \<not> b_busy (bufs s b) \<and> \<not> b_dirty (bufs s b)" for x
    using assms(7) by (auto simp: bcached_def)
  have holds: "bholds t x c \<longleftrightarrow> (if x = bsector f then c = b \<and> b_busy f else bholds s x c)" for x c
    unfolding bholds_def cached assms(4) using other [of x] by (auto dest: assms(6))
  have dirty: "bcached t x c \<and> b_dirty (bufs t c) \<longleftrightarrow>
    (if x = bsector f then c = b \<and> b_dirty f else bcached s x c \<and> b_dirty (bufs s c))" for x c
    unfolding cached assms(4) using other [of x] by (auto dest: assms(6))
  show "bheld t = (bheld s)(bsector f := if b_busy f then Some b else None)"
  proof
    fix x
    have "bheld t x = Some c \<longleftrightarrow> ((bheld s)(bsector f := if b_busy f then Some b else None)) x = Some c" for c
      using bheld_Some [OF assms(1)] bheld_Some [OF assms(2)] holds by auto
    then show "bheld t x = ((bheld s)(bsector f := if b_busy f then Some b else None)) x"
      by (metis not_None_eq)
  qed
  show "bdirty t = (if b_dirty f then insert (bsector f) (bdirty s) else bdirty s - {bsector f})"
    unfolding bdirty_def dirty by auto
qed

lemma bheld_bdirty_cap:
  assumes "bio_inv s" and "\<forall>b < NBUF. b_busy (bufs s b) \<or> b_dirty (bufs s b)"
  shows "card (dom (bheld s) \<union> bdirty s) = NBUF"
proof -
  have ok: "bcached s (bsector (bufs s b)) b" if "b < NBUF" for b
    using bio_inv_ok [OF assms(1) that] assms(2) that by (auto simp: buf_ok_def bcached_def split: if_splits)
  have "dom (bheld s) \<union> bdirty s = (\<lambda>b. bsector (bufs s b)) ` {0..<NBUF}"
  proof
    show "dom (bheld s) \<union> bdirty s \<subseteq> (\<lambda>b. bsector (bufs s b)) ` {0..<NBUF}"
      using bheld_Some [OF assms(1)] by (auto simp: bdirty_def bholds_def bcached_def simp del: NBUF_def)
    show "(\<lambda>b. bsector (bufs s b)) ` {0..<NBUF} \<subseteq> dom (bheld s) \<union> bdirty s"
    proof
      fix x
      assume "x \<in> (\<lambda>b. bsector (bufs s b)) ` {0..<NBUF}"
      then obtain b where b: "b < NBUF" "x = bsector (bufs s b)" by auto
      then show "x \<in> dom (bheld s) \<union> bdirty s"
        using ok [OF b(1)] assms(2) bheld_Some [OF assms(1), of x b] by (auto simp: bdirty_def bholds_def)
    qed
  qed
  moreover have "inj_on (\<lambda>b. bsector (bufs s b)) {0..<NBUF}"
    using ok bio_inv_uniq [OF assms(1)] by (auto intro!: inj_onI simp del: NBUF_def) metis
  ultimately show ?thesis by (simp add: card_image)
qed

lemma bheld_bdirty_finite: "finite (dom (bheld s) \<union> bdirty s)"
proof -
  have "dom (bheld s) \<union> bdirty s \<subseteq> (\<lambda>b. bsector (bufs s b)) ` {0..<NBUF}"
    by (auto simp: bdirty_def bheld_def bholds_def bcached_def simp del: NBUF_def upt.simps dest!: find_SomeD)
  then show ?thesis by (rule finite_subset) simp
qed

text \<open>\<open>bpost s V D H k w t\<close>: from \<open>s\<close> the cache has come to \<open>t\<close>, with logical content \<open>V\<close>, dirty
  sectors \<open>D\<close>, held buffers \<open>H\<close>, disk content \<open>k\<close> and disk writes \<open>w\<close>.\<close>

definition bpost ::
  "'z bmach_scheme \<Rightarrow> (u32 \<Rightarrow> bytes) \<Rightarrow> u32 set \<Rightarrow> (u32 \<Rightarrow> nat option) \<Rightarrow> (u32 \<Rightarrow> bytes)
    \<Rightarrow> (u32 \<times> bytes) list \<Rightarrow> 'z bmach_scheme \<Rightarrow> bool" where
  "bpost s V D H k w t \<longleftrightarrow> bio_ok t \<and> bframe s t \<and> bview t = V \<and> bdirty t = D \<and> bheld t = H
     \<and> disk t = k \<and> dtrace t = w"

abbreviation bread_post :: "'z bmach_scheme \<Rightarrow> u32 \<Rightarrow> nat \<Rightarrow> 'z bmach_scheme \<Rightarrow> bool" where
  "bread_post s sec b \<equiv> bpost s (bview s) (bdirty s) ((bheld s)(sec \<mapsto> b)) (disk s) (dtrace s)"

lemma bread_to_post:
  assumes "bio_ok s" and "bfetch s sec b"
  shows "bread_post s sec b (bread_to s sec b)"
proof -
  let ?y = "bcached s sec b \<and> b_dirty (bufs s b)" and ?t = "bread_to s sec b"
  let ?f = "held_buf ?y sec (bview s sec)"
  have q: "quiet s" and i: "bio_inv s" using assms(1) by (auto simp: bio_ok_def)
  have u: "c = b" if "bcached s (bsector ?f) c" for c
    using that assms(2) bio_inv_uniq [OF i] by (auto simp: bfetch_def)
  have it: "bio_inv ?t" "bview ?t = bview s" using bread_to_inv [OF i assms(2)] by auto
  have b: "b < NBUF" using assms(2) by (simp add: bfetch_def)
  have f: "bufs ?t = (bufs s)(b := ?f)" "bdev ?f = 1"
    "bcached s (bsector ?f) b \<or> \<not> b_busy (bufs s b) \<and> \<not> b_dirty (bufs s b)"
    using assms(2) by (auto simp: bread_to_def bfetch_def)
  have st: "bheld ?t = (bheld s)(sec := Some b)"
    "bdirty ?t = (if ?y then insert sec (bdirty s) else bdirty s - {sec})"
    using bheld_bdirty_update [OF i it(1) b f(1,2) u f(3)] by simp_all
  have "sec \<in> bdirty s \<longleftrightarrow> ?y" using u unfolding bdirty_def held_buf_simps by blast
  then have "bdirty ?t = bdirty s" using st(2) by auto
  moreover have "quiet ?t" using q by (simp add: bread_to_def cong: quiet_cong)
  moreover have "bframe s ?t" by (simp add: bframe_def bread_to_def)
  ultimately show ?thesis using it st(1) by (simp add: bpost_def bio_ok_def bread_to_def)
qed

lemma bread_runs:
  assumes "bio_ok s" and "sec < disksize s" and "bheld s sec = None"
    and "card (insert sec (dom (bheld s) \<union> bdirty s)) \<le> NBUF"
  shows "runs (bread 1 sec) s (bread_post s sec)"
proof -
  have i: "quiet s" "bio_inv s" using assms(1) by (auto simp: bio_ok_def)
  have nb: "\<not> b_busy (bufs s b)" if "bcached s sec b" for b
    using that assms(3) bheld_Some [OF i(2), of sec b] by (auto simp: bholds_def)
  have "\<exists>b < NBUF. \<not> b_busy (bufs s b) \<and> \<not> b_dirty (bufs s b)" if no: "\<nexists>b. bcached s sec b"
  proof (rule ccontr)
    assume "\<not> ?thesis"
    then have "card (dom (bheld s) \<union> bdirty s) = NBUF" using bheld_bdirty_cap [OF i(2)] by blast
    moreover have "sec \<notin> dom (bheld s) \<union> bdirty s" using no assms(3) by (auto simp: bdirty_def)
    ultimately show False using assms(4) bheld_bdirty_finite [of s] by (simp del: NBUF_def)
  qed
  then obtain b where "bfetch s sec b" and "bread 1 sec s = Ok b (bread_to s sec b)"
    using bread_ok [OF i assms(2) nb] by blast
  then show ?thesis using bread_to_post [OF assms(1)] by (auto intro: runsI)
qed

text \<open>A step that changes only the held buffer of one sector, and perhaps the sector itself.\<close>

lemma held_step:
  assumes "bio_ok s" and "bheld s sec = Some b"
    and "t = s\<lparr>bufs := (bufs s)(b := held_buf y sec d), disk := k, dtrace := w\<rparr>"
    and "k = disk s \<or> (\<exists>e. k = (disk s)(sec := e))"
  shows "bpost s ((bview s)(sec := d)) (if y then insert sec (bdirty s) else bdirty s - {sec}) (bheld s) k w t"
proof -
  let ?f = "held_buf y sec d"
  have i: "quiet s" "bio_inv s" using assms(1) by (auto simp: bio_ok_def)
  have h: "bholds s sec b" using assms(2) bheld_Some [OF i(2)] by simp
  then have c: "bcached s (bsector ?f) b" "b < NBUF" by (simp_all add: bholds_def bcached_def)
  have u: "x = b" if "bcached s (bsector ?f) x" for x using that c(1) by (rule bio_inv_uniq [OF i(2)])
  have b: "bufs t = (bufs s)(b := ?f)" by (simp add: assms(3))
  have t: "bio_inv t" "bview t = (bview s)(sec := d)"
    using held_update [OF i(2) h b] assms(3,4) by simp_all
  have st: "bheld t = (bheld s)(sec := Some b)"
    "bdirty t = (if y then insert sec (bdirty s) else bdirty s - {sec})"
    using bheld_bdirty_update [OF i(2) t(1) c(2) b _ u] c(1) by simp_all
  have "(bheld s)(sec := Some b) = bheld s" using assms(2) by auto
  moreover have "quiet t" using i(1) assms(3) by (simp cong: quiet_cong)
  moreover have "bframe s t" by (simp add: bframe_def assms(3))
  ultimately show ?thesis using t st assms(3) by (simp add: bpost_def bio_ok_def)
qed

lemma bheld_buf:
  assumes "bio_ok s" and "bheld s sec = Some b"
  obtains y where "bufs s b = held_buf y sec (bview s sec)" and "y \<longleftrightarrow> sec \<in> bdirty s"
proof -
  have i: "bio_inv s" and h: "bholds s sec b" using assms bheld_Some by (auto simp: bio_ok_def)
  have "bcached s sec b" using h by (simp add: bholds_def)
  then have "b_dirty (bufs s b) \<longleftrightarrow> sec \<in> bdirty s"
    unfolding bdirty_def using bio_inv_uniq [OF i] by blast
  with bholds_buf(1) [OF i h] show thesis by (rule that)
qed

lemma bp_data_runs:
  assumes "bio_ok s" and "bheld s sec = Some b"
  shows "bp_data b s = Ok (bview s sec) s"
  using bheld_buf [OF assms] by (metis bp_data_def held_buf_simps(6) readk_def)

lemma set_data_runs:
  assumes "bio_ok s" and "bheld s sec = Some b"
  shows "runs (set_data b f) s (\<lambda>_.
    bpost s ((bview s)(sec := f (bview s sec))) (bdirty s) (bheld s) (disk s) (dtrace s))"
proof -
  obtain y where y: "bufs s b = held_buf y sec (bview s sec)" "y \<longleftrightarrow> sec \<in> bdirty s"
    using bheld_buf [OF assms] .
  let ?t = "s\<lparr>bufs := (bufs s)(b := held_buf y sec (f (bview s sec))), disk := disk s, dtrace := dtrace s\<rparr>"
  have "set_data b f s = Ok () ?t" using y by (simp add: set_data_def set_buf_def)
  moreover have "(if y then insert sec (bdirty s) else bdirty s - {sec}) = bdirty s" using y(2) by auto
  ultimately show ?thesis using held_step [OF assms refl, where y = y and d = "f (bview s sec)" and k = "disk s" and w = "dtrace s"] by (simp add: runs_Ok)
qed

definition mark_dirty :: "nat \<Rightarrow> ('z bmach_scheme, unit) kern" where
  "mark_dirty b = modk (set_buf b (\<lambda>x. x\<lparr>b_dirty := True\<rparr>))"

lemma mark_dirty_runs:
  assumes "bio_ok s" and "bheld s sec = Some b"
  shows "runs (mark_dirty b) s (\<lambda>_.
    bpost s (bview s) (insert sec (bdirty s)) (bheld s) (disk s) (dtrace s))"
proof -
  obtain y where y: "bufs s b = held_buf y sec (bview s sec)" using bheld_buf [OF assms] .
  let ?t = "s\<lparr>bufs := (bufs s)(b := held_buf True sec (bview s sec)), disk := disk s, dtrace := dtrace s\<rparr>"
  have "mark_dirty b s = Ok () ?t" using y by (simp add: mark_dirty_def set_buf_def)
  then show ?thesis using held_step [OF assms refl, where y = True and d = "bview s sec" and k = "disk s" and w = "dtrace s"] by (simp add: runs_Ok)
qed

lemma bwrite_runs:
  assumes "bio_ok s" and "bheld s sec = Some b"
  shows "runs (bwrite b) s (\<lambda>_.
    bpost s (bview s) (bdirty s - {sec}) (bheld s) ((disk s)(sec := bview s sec))
      (dtrace s @ [(sec, bview s sec)]))"
proof -
  let ?t = "s\<lparr>bufs := (bufs s)(b := held_buf False sec (bview s sec)),
     disk := (disk s)(sec := bview s sec), dtrace := dtrace s @ [(sec, bview s sec)]\<rparr>"
  have "bwrite b s = Ok () ?t"
    using assms bheld_Some by (intro bwrite_run) (auto simp: bio_ok_def)
  then show ?thesis using held_step [OF assms refl, where y = False and d = "bview s sec"
      and k = "(disk s)(sec := bview s sec)" and w = "dtrace s @ [(sec, bview s sec)]"]
    by (auto simp add: runs_Ok)
qed

lemma brelse_runs:
  assumes "bio_ok s" and "bheld s sec = Some b" and "sec \<in> bdirty s \<or> bview s sec = disk s sec"
  shows "runs (brelse b) s (\<lambda>_.
    bpost s (bview s) (bdirty s) ((bheld s)(sec := None)) (disk s) (dtrace s))"
proof -
  have i: "quiet s" "bio_inv s" using assms(1) by (auto simp: bio_ok_def)
  have h: "bholds s sec b" using assms(2) bheld_Some [OF i(2)] by simp
  obtain y where y: "bufs s b = held_buf y sec (bview s sec)" "y \<longleftrightarrow> sec \<in> bdirty s"
    using bheld_buf [OF assms(1,2)] .
  have d: "b_dirty (bufs s b) \<or> bview s sec = disk s sec" using y assms(3) by simp
  obtain nx pv t where t: "t = s\<lparr>bufs := (bufs s)(b := (bufs s b)\<lparr>b_busy := False\<rparr>),
       bnext := nx, bprev := pv, ptable := wake (Some (ChBuf b)) (ptable s)\<rparr>"
    and r: "brelse b s = Ok () t" and it: "bio_inv t" and v: "bview t = bview s"
    using brelse_ok [OF i h d] .
  let ?f = "(bufs s b)\<lparr>b_busy := False\<rparr>"
  have f: "bdev ?f = 1" "bsector ?f = sec" "b_dirty ?f = y" "\<not> b_busy ?f" using y(1) by simp_all
  have c: "bcached s (bsector ?f) b" "b < NBUF" using h f(2) by (simp_all add: bholds_def bcached_def)
  have u: "x = b" if "bcached s (bsector ?f) x" for x using that c(1) by (rule bio_inv_uniq [OF i(2)])
  have b: "bufs t = (bufs s)(b := ?f)" by (simp add: t)
  have st: "bheld t = (bheld s)(sec := None)" "bdirty t = (if y then insert sec (bdirty s) else bdirty s - {sec})"
    using bheld_bdirty_update [OF i(2) it c(2) b f(1) u] c(1) f by simp_all
  have "(if y then insert sec (bdirty s) else bdirty s - {sec}) = bdirty s" using y(2) by auto
  moreover have "quiet t" using i(1) t by (simp cong: quiet_cong)
  moreover have "bframe s t" by (simp add: bframe_def t)
  ultimately show ?thesis using r it v st t by (simp add: runs_Ok bpost_def bio_ok_def)
qed

section \<open>The cache as an interface\<close>

text \<open>
  What the clients of the cache rely on: a logical content, a set of dirty sectors, a set of
  held buffers, and how each operation changes them. \<open>post\<close> relates the state before an
  operation to the state after it.
\<close>

locale block_cache =
  fixes ok :: "'s \<Rightarrow> bool" and view :: "'s \<Rightarrow> u32 \<Rightarrow> bytes" and dirty :: "'s \<Rightarrow> u32 set"
    and heldb :: "'s \<Rightarrow> u32 \<Rightarrow> nat option" and platter :: "'s \<Rightarrow> u32 \<Rightarrow> bytes"
    and writes :: "'s \<Rightarrow> (u32 \<times> bytes) list" and nsec :: "'s \<Rightarrow> u32" and cap :: nat
    and post :: "'s \<Rightarrow> (u32 \<Rightarrow> bytes) \<Rightarrow> u32 set \<Rightarrow> (u32 \<Rightarrow> nat option) \<Rightarrow> (u32 \<Rightarrow> bytes)
      \<Rightarrow> (u32 \<times> bytes) list \<Rightarrow> 's \<Rightarrow> bool"
    and rd :: "u32 \<Rightarrow> ('s, nat) kern" and look :: "nat \<Rightarrow> ('s, bytes) kern"
    and edit :: "nat \<Rightarrow> (bytes \<Rightarrow> bytes) \<Rightarrow> ('s, unit) kern" and wr :: "nat \<Rightarrow> ('s, unit) kern"
    and rel :: "nat \<Rightarrow> ('s, unit) kern"
  assumes post_now: "post s V D H k w t \<Longrightarrow> ok t \<and> view t = V \<and> dirty t = D \<and> heldb t = H
        \<and> platter t = k \<and> writes t = w \<and> nsec t = nsec s"
    and post_trans: "post s V D H k w t \<Longrightarrow> post t V' D' H' k' w' u \<Longrightarrow> post s V' D' H' k' w' u"
    and rd_law: "ok s \<Longrightarrow> sec < nsec s \<Longrightarrow> heldb s sec = None \<Longrightarrow>
        card (insert sec (dom (heldb s) \<union> dirty s)) \<le> cap \<Longrightarrow>
        runs (rd sec) s (\<lambda>b. post s (view s) (dirty s) ((heldb s)(sec \<mapsto> b)) (platter s) (writes s))"
    and look_law: "ok s \<Longrightarrow> heldb s sec = Some b \<Longrightarrow> look b s = Ok (view s sec) s"
    and edit_law: "ok s \<Longrightarrow> heldb s sec = Some b \<Longrightarrow>
        runs (edit b f) s (\<lambda>_. post s ((view s)(sec := f (view s sec))) (dirty s) (heldb s) (platter s) (writes s))"
    and wr_law: "ok s \<Longrightarrow> heldb s sec = Some b \<Longrightarrow>
        runs (wr b) s (\<lambda>_. post s (view s) (dirty s - {sec}) (heldb s)
          ((platter s)(sec := view s sec)) (writes s @ [(sec, view s sec)]))"
    and rel_law: "ok s \<Longrightarrow> heldb s sec = Some b \<Longrightarrow> sec \<in> dirty s \<or> view s sec = platter s sec \<Longrightarrow>
        runs (rel b) s (\<lambda>_. post s (view s) (dirty s) ((heldb s)(sec := None)) (platter s) (writes s))"
begin

text \<open>The laws as rules for a sequence of operations that started in \<open>s\<close>.\<close>

lemma rd_vc:
  assumes "post s V D H k w u" and "sec < nsec s" and "H sec = None" and "card (insert sec (dom H \<union> D)) \<le> cap"
    and "\<And>b v. post s V D (H(sec \<mapsto> b)) k w v \<Longrightarrow> Q b v"
  shows "runs (rd sec) u Q"
  using rd_law [of u sec] post_now [OF assms(1)] assms(2-4)
  by (auto elim!: runs_mono intro!: assms(5) intro: post_trans [OF assms(1)])

lemma look_vc:
  assumes "post s V D H k w u" and "H sec = Some b" and "Q (V sec) u"
  shows "runs (look b) u Q"
  using look_law [of u sec b] post_now [OF assms(1)] assms(2,3) by (auto simp: runs_Ok)

lemma edit_vc:
  assumes "post s V D H k w u" and "H sec = Some b"
    and "\<And>v. post s (V(sec := f (V sec))) D H k w v \<Longrightarrow> Q () v"
  shows "runs (edit b f) u Q"
  using edit_law [of u sec b f] post_now [OF assms(1)] assms(2)
  by (auto elim!: runs_mono intro!: assms(3) intro: post_trans [OF assms(1)])

lemma wr_vc:
  assumes "post s V D H k w u" and "H sec = Some b"
    and "\<And>v. post s V (D - {sec}) H (k(sec := V sec)) (w @ [(sec, V sec)]) v \<Longrightarrow> Q () v"
  shows "runs (wr b) u Q"
  using wr_law [of u sec b] post_now [OF assms(1)] assms(2)
  by (auto elim!: runs_mono intro!: assms(3) intro: post_trans [OF assms(1)])

lemma rel_vc:
  assumes "post s V D H k w u" and "H sec = Some b" and "sec \<in> D \<or> V sec = k sec"
    and "\<And>v. post s V D (H(sec := None)) k w v \<Longrightarrow> Q () v"
  shows "runs (rel b) u Q"
  using rel_law [of u sec b] post_now [OF assms(1)] assms(2,3)
  by (auto elim!: runs_mono intro!: assms(4) intro: post_trans [OF assms(1)])

text \<open>Read a block that agrees with the disk and give it back.\<close>

lemma read_block:
  assumes "ok s" and "sec < nsec s" and "heldb s sec = None"
    and "card (insert sec (dom (heldb s) \<union> dirty s)) \<le> cap"
    and "sec \<in> dirty s \<or> view s sec = platter s sec"
  shows "runs (bindk (rd sec) (\<lambda>b. bindk (look b) (\<lambda>d. thenk (rel b) (retk d)))) s
    (\<lambda>d t. d = view s sec \<and> post s (view s) (dirty s) (heldb s) (platter s) (writes s) t)"
proof -
  obtain b t where 1: "rd sec s = Ok b t"
    and t: "post s (view s) (dirty s) ((heldb s)(sec \<mapsto> b)) (platter s) (writes s) t"
    using rd_law [OF assms(1-4)] by (rule runsE)
  note now = post_now [OF t]
  then have 2: "look b t = Ok (view s sec) t" using look_law [of t sec b] by simp
  obtain u where 3: "rel b t = Ok () u"
    and u: "post t (view t) (dirty t) ((heldb t)(sec := None)) (platter t) (writes t) u"
    using rel_law [of t sec b] now assms(5) by (auto simp: runs_def)
  have "(heldb s)(sec := None) = heldb s" using assms(3) by auto
  with post_trans [OF t u] now have "post s (view s) (dirty s) (heldb s) (platter s) (writes s) u" by simp
  with 1 2 3 show ?thesis by (simp add: runs_Ok)
qed

text \<open>Change a held block, write it through to the disk and give it back.\<close>

lemma write_through:
  assumes "ok t" and "heldb t sec = Some b"
  shows "runs (thenk (edit b f) (thenk (wr b) (rel b))) t
    (\<lambda>_. post t ((view t)(sec := f (view t sec))) (dirty t - {sec}) ((heldb t)(sec := None))
       ((platter t)(sec := f (view t sec))) (writes t @ [(sec, f (view t sec))]))"
proof -
  obtain u where 2: "edit b f t = Ok () u"
    and u: "post t ((view t)(sec := f (view t sec))) (dirty t) (heldb t) (platter t) (writes t) u"
    using edit_law [OF assms, of f] by (auto simp: runs_def)
  note nu = post_now [OF u]
  obtain v where 3: "wr b u = Ok () v"
    and v: "post u (view u) (dirty u - {sec}) (heldb u) ((platter u)(sec := view u sec))
       (writes u @ [(sec, view u sec)]) v"
    using wr_law [of u sec b] nu assms(2) by (auto simp: runs_def)
  note nv = post_now [OF v]
  obtain w where 4: "rel b v = Ok () w"
    and w: "post v (view v) (dirty v) ((heldb v)(sec := None)) (platter v) (writes v) w"
    using rel_law [of v sec b] nu nv assms(2) by (auto simp: runs_def)
  with post_trans [OF post_trans [OF u v] w] nu nv 2 3 4 show ?thesis by (simp add: runs_Ok)
qed

text \<open>Change a block and write it through to the disk.\<close>

lemma update_block:
  assumes "ok s" and "sec < nsec s" and "heldb s sec = None"
    and "card (insert sec (dom (heldb s) \<union> dirty s)) \<le> cap"
  shows "runs (bindk (rd sec) (\<lambda>b. thenk (edit b f) (thenk (wr b) (rel b)))) s
    (\<lambda>_. post s ((view s)(sec := f (view s sec))) (dirty s - {sec}) (heldb s)
       ((platter s)(sec := f (view s sec))) (writes s @ [(sec, f (view s sec))]))"
proof -
  obtain b t where 1: "rd sec s = Ok b t"
    and t: "post s (view s) (dirty s) ((heldb s)(sec \<mapsto> b)) (platter s) (writes s) t"
    using rd_law [OF assms(1-4)] by (rule runsE)
  note nt = post_now [OF t]
  have "(heldb s)(sec := None) = heldb s" using assms(3) by auto
  with write_through [of t sec b f] nt
  have "runs (thenk (edit b f) (thenk (wr b) (rel b))) t
    (\<lambda>_. post s ((view s)(sec := f (view s sec))) (dirty s - {sec}) (heldb s)
       ((platter s)(sec := f (view s sec))) (writes s @ [(sec, f (view s sec))]))"
    by (auto simp del: runs_thenk elim!: runs_mono post_trans [OF t])
  with 1 show ?thesis by (simp add: runs_Ok del: runs_thenk)
qed

end

lemma bpost_trans: "bpost s V D H k w t \<Longrightarrow> bpost t V' D' H' k' w' u \<Longrightarrow> bpost s V' D' H' k' w' u"
  unfolding bpost_def using bframe_trans by blast

interpretation bc: block_cache bio_ok bview bdirty bheld disk dtrace disksize NBUF bpost
    "bread 1" bp_data set_data bwrite brelse
proof unfold_locales
  show "bpost s V D H k w t \<Longrightarrow> bio_ok t \<and> bview t = V \<and> bdirty t = D \<and> bheld t = H
        \<and> disk t = k \<and> dtrace t = w \<and> disksize t = disksize s" for s t :: "'z bmach_scheme" and V D H k w
    by (simp add: bpost_def bframe_same)
qed (auto intro: bpost_trans bread_runs bp_data_runs set_data_runs bwrite_runs brelse_runs simp del: NBUF_def)

section \<open>Boot\<close>

definition binit_inv :: "'z bmach_scheme \<Rightarrow> nat list \<Rightarrow> 'z bmach_scheme \<Rightarrow> bool" where
  "binit_inv s ys u \<longleftrightarrow> (\<exists>nx pv. chain nx bhead (rev ys) bhead \<and> chain pv bhead ys bhead
     \<and> u = s\<lparr>bnext := nx, bprev := pv,
         bufs := (\<lambda>b. if b \<in> set ys then (bufs s b)\<lparr>bdev := - 1\<rparr> else bufs s b)\<rparr>)"

lemma binit_one_step:
  assumes "binit_inv s ys u" and "distinct (bhead # b # ys)"
  shows "runs (binit_one b) u (\<lambda>_ v. binit_inv s (ys @ [b]) v)"
proof -
  obtain nx pv where u: "u = s\<lparr>bnext := nx, bprev := pv,
         bufs := (\<lambda>b. if b \<in> set ys then (bufs s b)\<lparr>bdev := - 1\<rparr> else bufs s b)\<rparr>"
    and c: "chain nx bhead (rev ys) bhead" "chain pv bhead ys bhead"
    using assms(1) by (auto simp: binit_inv_def)
  let ?nx = "nx(b := nx bhead, bhead := b)" and ?pv = "pv(b := bhead, nx bhead := b)"
  have "chain ?nx bhead (rev (ys @ [b])) bhead" using chain_push [OF c(1)] assms(2) by auto
  moreover have "nx bhead = last (bhead # ys)"
    using chain_first [OF c(1)] by (cases ys rule: rev_cases) auto
  then have "chain ?pv bhead (ys @ [b]) bhead" using chain_push_back [OF c(2), of b] assms(2) by auto
  moreover have "binit_one b u = Ok () (s\<lparr>bnext := ?nx, bprev := ?pv,
      bufs := (\<lambda>x. if x \<in> set (ys @ [b]) then (bufs s x)\<lparr>bdev := - 1\<rparr> else bufs s x)\<rparr>)"
    using assms(2) by (auto simp: binit_one_def set_buf_def u fun_eq_iff intro!: bmach.fold_congs)
  ultimately show ?thesis unfolding binit_inv_def runs_def by blast
qed

lemma quiet_initlock: "quiet s \<Longrightarrow> quiet (s\<lparr>lk := set_lock l (\<lambda>_. free_lock) (lk s)\<rparr>)"
  unfolding quiet_def by (simp add: unl_def wf_cli_def free_lock_def)

lemma binit_runs:
  assumes "quiet s" and "\<And>b. b < NBUF \<Longrightarrow> \<not> b_busy (bufs s b) \<and> \<not> b_valid (bufs s b) \<and> \<not> b_dirty (bufs s b)"
  shows "runs binit s (\<lambda>_ t. bio_ok t \<and> bview t = disk s \<and> disk t = disk s \<and> bdirty t = {}
    \<and> bheld t = Map.empty \<and> disksize t = disksize s \<and> dtrace t = dtrace s \<and> bmach.more t = bmach.more s
    \<and> (\<forall>sec b. \<not> bcached t sec b))"
proof -
  let ?s0 = "s\<lparr>lk := set_lock BcacheLock (\<lambda>_. free_lock) (lk s)\<rparr>"
  let ?s1 = "?s0\<lparr>bprev := (bprev s)(bhead := bhead), bnext := (bnext s)(bhead := bhead)\<rparr>"
  have "binit_inv ?s1 [] ?s1" unfolding binit_inv_def
    by (rule exI [of _ "(bnext s)(bhead := bhead)"], rule exI [of _ "(bprev s)(bhead := bhead)"]) simp
  then have "runs (foreach [0..<NBUF] binit_one) ?s1 (\<lambda>_ t. binit_inv ?s1 [0..<NBUF] t)"
  proof (rule runs_foreach)
    fix ys x zs u
    assume e: "[0..<NBUF] = ys @ x # zs" and i: "binit_inv ?s1 ys u"
    have "distinct (bhead # [0..<NBUF])" by simp
    then have "distinct (bhead # x # ys)" unfolding e by auto
    with i show "runs (binit_one x) u (\<lambda>_ v. binit_inv ?s1 (ys @ [x]) v)" by (rule binit_one_step)
  qed
  then have r: "runs binit s (\<lambda>_ t. binit_inv ?s1 [0..<NBUF] t)"
    by (simp add: binit_def initlock_def del: upt.simps NBUF_def bhead_def)
  show ?thesis
  proof (rule runs_mono [OF r])
    fix t
    assume "binit_inv ?s1 [0..<NBUF] t"
    then obtain nx pv where c: "chain nx bhead (rev [0..<NBUF]) bhead" "chain pv bhead [0..<NBUF] bhead"
      and t1: "t = ?s1\<lparr>bnext := nx, bprev := pv,
         bufs := (\<lambda>b. if b \<in> set [0..<NBUF] then (bufs ?s1 b)\<lparr>bdev := - 1\<rparr> else bufs ?s1 b)\<rparr>"
      unfolding binit_inv_def by blast
    have "bufs ?s1 = bufs s" by simp
    with t1 have t: "t = ?s0\<lparr>bnext := nx, bprev := pv,
         bufs := (\<lambda>b. if b < NBUF then (bufs s b)\<lparr>bdev := - 1\<rparr> else bufs s b)\<rparr>" by (simp only:) simp
    have no: "\<not> bcached t sec b" for sec b by (simp add: bcached_def t)
    have "ring nx pv (rev [0..<NBUF])" using c by (auto simp: ring_def)
    then have "bio_inv t" using assms(2) no unfolding bio_inv_def by (auto simp: t buf_ok_def)
    moreover have "lk t = lk ?s0" by (simp add: t)
    then have "quiet t" using quiet_initlock [OF assms(1), of BcacheLock] by (simp only: quiet_cong [of t ?s0])
    moreover have "bheld t = Map.empty" by (auto simp: bheld_def find_None_iff bholds_def no)
    moreover have "bview t = disk s" using bview_miss [of t] no by (auto simp: t)
    ultimately show "bio_ok t \<and> bview t = disk s \<and> disk t = disk s \<and> bdirty t = {}
      \<and> bheld t = Map.empty \<and> disksize t = disksize s \<and> dtrace t = dtrace s \<and> bmach.more t = bmach.more s
      \<and> (\<forall>sec b. \<not> bcached t sec b)"
      using no by (simp add: bio_ok_def bdirty_def t)
  qed
qed

section \<open>Properties\<close>

text \<open>A machine after power-on: nothing cached, an empty disk of a thousand sectors.\<close>

definition buf0 :: buf where
  "buf0 = \<lparr>b_busy = False, b_valid = False, b_dirty = False, bdev = 0, bsector = 0, bdata = (\<lambda>_. 0)\<rparr>"

definition bmach0 :: bmach where
  "bmach0 = \<lparr>lk = lk0, pmem = (\<lambda>_. 0), use_lock = True, freelist = 0, kend = 0x80108000,
     kdata = 0x80107000, kpgdir = 0, cr3 = 0, esp0 = 0,
     ptable = (\<lambda>_. proc0), nextpid = 1, initproc = None, bufs = (\<lambda>_. buf0), bnext = (\<lambda>_. 0),
     bprev = (\<lambda>_. 0), disk = (\<lambda>_ _. 0), disksize = 1000, dtrace = []\<rparr>"

definition booted :: "bmach \<Rightarrow> bool" where
  "booted t \<longleftrightarrow> bio_ok t \<and> bview t = (\<lambda>_ _. 0) \<and> bheld t = Map.empty \<and> bdirty t = {}
     \<and> disksize t = 1000 \<and> (\<forall>sec b. \<not> bcached t sec b)"

lemma booted_ex: "\<exists>t. booted t"
proof -
  have "runs binit bmach0 (\<lambda>_ t. bio_ok t \<and> bview t = disk bmach0 \<and> disk t = disk bmach0 \<and> bdirty t = {}
    \<and> bheld t = Map.empty \<and> disksize t = disksize bmach0 \<and> dtrace t = dtrace bmach0
    \<and> bmach.more t = bmach.more bmach0 \<and> (\<forall>sec b. \<not> bcached t sec b))"
    by (rule binit_runs) (simp_all add: bmach0_def buf0_def quiet_lk0)
  then show ?thesis by (auto simp: runs_def bmach0_def booted_def)
qed

text \<open>C14: read-modify-write through the cache. Fetching a sector, changing its data, writing it
  and releasing it returns; the disk and the logical content change at that sector only and to
  the same value, the one write is recorded, and no buffer stays held or dirty because of it.\<close>

theorem read_modify_write:
  assumes "quiet s" and "bio_inv s" and "sec < disksize s" and "bheld s sec = None"
    and "card (insert sec (dom (bheld s) \<union> bdirty s)) \<le> NBUF"
  shows "\<exists>t. bindk (bread 1 sec) (\<lambda>b. thenk (set_data b f) (thenk (bwrite b) (brelse b))) s = Ok () t
    \<and> bio_inv t \<and> bview t = (bview s)(sec := f (bview s sec)) \<and> disk t = (disk s)(sec := f (bview s sec))
    \<and> bheld t = bheld s \<and> bdirty t = bdirty s - {sec} \<and> dtrace t = dtrace s @ [(sec, f (bview s sec))]"
  using bc.update_block [of s sec f] assms by (auto simp: runs_def bpost_def bio_ok_def)

theorem read_modify_write_witness:
  "\<exists>s t :: bmach. bindk (bread 1 7) (\<lambda>b. thenk (set_data b (\<lambda>d. d(3 := 5))) (thenk (bwrite b) (brelse b))) s = Ok () t
    \<and> disk t 7 3 = 5 \<and> bheld t = Map.empty"
proof -
  obtain s where "booted s" using booted_ex ..
  then have s: "bio_ok s" "bheld s = Map.empty" "bdirty s = {}" "disksize s = 1000"
    by (simp_all add: booted_def)
  have pre: "quiet s" "bio_inv s" "7 < disksize s" "bheld s 7 = None"
    "card (insert 7 (dom (bheld s) \<union> bdirty s)) \<le> NBUF" using s by (simp_all add: bio_ok_def)
  from read_modify_write [OF pre, of "\<lambda>d. d(3 := 5)"] obtain t where
    t: "bindk (bread 1 7) (\<lambda>b. thenk (set_data b (\<lambda>d. d(3 := 5))) (thenk (bwrite b) (brelse b))) s = Ok () t
      \<and> bio_inv t \<and> bview t = (bview s)(7 := (bview s 7)(3 := 5)) \<and> disk t = (disk s)(7 := (bview s 7)(3 := 5))
      \<and> bheld t = bheld s \<and> bdirty t = bdirty s - {7} \<and> dtrace t = dtrace s @ [(7, (bview s 7)(3 := 5))]" ..
  show ?thesis by (intro exI conjI, rule t [THEN conjunct1]) (simp_all add: t s(2))
qed

text \<open>C21: the replacement policy. Releasing a buffer puts it at the front of the ring and keeps the
  order of the others; a sector that is not cached goes into the buffer nearest to the end
  of the ring that is neither held nor dirty, which is the least recently released one.\<close>

theorem lru_replacement:
  assumes "quiet s" and "ring (bnext s) (bprev s) (xs @ b # ys)"
  shows "(b_busy (bufs s b) \<longrightarrow> (\<exists>t. brelse b s = Ok () t \<and> ring (bnext t) (bprev t) (b # xs @ ys)))
    \<and> ((\<forall>c < NBUF. \<not> (bdev (bufs s c) = dev \<and> bsector (bufs s c) = sec)) \<longrightarrow>
        \<not> b_busy (bufs s b) \<and> \<not> b_dirty (bufs s b) \<longrightarrow>
        (\<forall>c \<in> set ys. b_busy (bufs s c) \<or> b_dirty (bufs s c)) \<longrightarrow>
        (\<exists>t. bget dev sec s = Ok b t))"
proof (intro conjI impI)
  assume "b_busy (bufs s b)"
  with assms obtain nx pv where "ring nx pv (b # xs @ ys)"
    and "brelse b s = Ok () (s\<lparr>bufs := (bufs s)(b := (bufs s b)\<lparr>b_busy := False\<rparr>),
       bnext := nx, bprev := pv, ptable := wake (Some (ChBuf b)) (ptable s)\<rparr>)"
    by (rule brelse_run)
  then show "\<exists>t. brelse b s = Ok () t \<and> ring (bnext t) (bprev t) (b # xs @ ys)" by simp
next
  assume miss: "\<forall>c < NBUF. \<not> (bdev (bufs s c) = dev \<and> bsector (bufs s c) = sec)"
    and v: "\<not> b_busy (bufs s b) \<and> \<not> b_dirty (bufs s b)"
    and later: "\<forall>c \<in> set ys. b_busy (bufs s c) \<or> b_dirty (bufs s c)"
  have st: "set (xs @ b # ys) = {0..<NBUF}" using assms(2) by (simp add: ring_def)
  then have m: "find (\<lambda>c. bdev (bufs s c) = dev \<and> bsector (bufs s c) = sec) (xs @ b # ys) = None"
    using miss unfolding find_None_iff by auto
  have "find (\<lambda>c. \<not> b_busy (bufs s c) \<and> \<not> b_dirty (bufs s c)) (rev (xs @ b # ys)) = Some b"
    using v later by (induction ys rule: rev_induct) auto
  then show "\<exists>t. bget dev sec s = Ok b t"
    using assms(1) ring_bscan [OF assms(2)] m
    by (simp add: bget_def acquire_ok release_acq set_buf_def del: bscan.simps bhead_def NBUF_def)
qed

theorem lru_replacement_witness:
  "\<exists>s t :: bmach. \<exists>xs b. ring (bnext s) (bprev s) (xs @ [b]) \<and> bget 1 7 s = Ok b t"
proof -
  obtain s where "booted s" using booted_ex ..
  then have s: "bio_ok s" and no: "\<forall>sec b. \<not> bcached s sec b" by (simp_all add: booted_def)
  have q: "quiet s" and i: "bio_inv s" using s by (auto simp: bio_ok_def)
  obtain bs where r: "ring (bnext s) (bprev s) bs" using i by (auto simp: bio_inv_def)
  then have "bs \<noteq> []" using ring_length by fastforce
  then obtain xs b where bs: "bs = xs @ [b]" by (cases bs rule: rev_cases) auto
  have "b < NBUF" using r bs by (auto simp: ring_def)
  then have v: "\<not> b_busy (bufs s b) \<and> \<not> b_dirty (bufs s b)"
    using bio_inv_ok [OF i, of b] no by (auto simp: buf_ok_def bcached_def split: if_splits)
  have miss: "\<forall>c < NBUF. \<not> (bdev (bufs s c) = 1 \<and> bsector (bufs s c) = 7)"
    using no by (auto simp: bcached_def)
  have "\<exists>t. bget 1 7 s = Ok b t"
    using lru_replacement [OF q r [unfolded bs], of 1 7] miss v by simp
  with r bs show ?thesis by blast
qed

end
