(* ===== verification/Log.thy ===== *)
theory Log
  imports Bio
begin

text \<open>
  \<^verbatim>\<open>log.c\<close>: the redo log that makes the disk writes of one system call atomic, and
  \<open>readsb\<close> of \<^verbatim>\<open>fs.c\<close>, which \<open>initlog\<close> calls.

  The in-memory header \<^verbatim>\<open>log.lh\<close> is the two fields \<open>lh_n\<close> and \<open>lh_sector\<close>; on disk it is
  stored in the first bytes of block \<open>lstart\<close>, and the \<open>i\<close>-th logged block in block
  \<open>lstart + 1 + i\<close>. A \<^verbatim>\<open>memmove\<close> of a whole block is an assignment of the block.

  After the definitions come the effect of each operation, the state of the log inside a
  transaction (\<open>in_trans\<close>), the interface \<open>trans_disk\<close> that the file system is written
  against, and the behaviour of \<open>commit_trans\<close> under a crash after any number of its disk
  writes.
\<close>

section \<open>State and operations\<close>

record lmach = bmach +
  lstart :: u32
  lsize :: int
  lbusy :: bool
  ldev :: u32
  lh_n :: int
  lh_sector :: "nat \<Rightarrow> u32"

text \<open>\<open>sizeof(struct logheader)\<close>\<close>

definition logheader_size :: nat where [simp]: "logheader_size = 4 + 4 * nat LOGSIZE"

definition get_sb :: "bytes \<Rightarrow> superblock" where
  "get_sb d = \<lparr>sb_size = get32 d 0, sb_nblocks = get32 d 4, sb_ninodes = get32 d 8,
     sb_nlog = get32 d 12\<rparr>"

definition readsb :: "u32 \<Rightarrow> ('z bmach_scheme, superblock) kern" where
  "readsb dev =
     bindk (bread dev 1) (\<lambda>bp.
     bindk (bp_data bp) (\<lambda>d.
     thenk (brelse bp)
     (retk (get_sb d))))"

text \<open>The header as it is stored: \<open>hb->n\<close> and the first \<open>n\<close> entries of \<open>hb->sector\<close>.\<close>

definition put_head :: "int \<Rightarrow> (nat \<Rightarrow> u32) \<Rightarrow> bytes \<Rightarrow> bytes" where
  "put_head n sec d = foldl (\<lambda>e i. put32 e (4 + 4 * i) (sec i)) (put32 d 0 (word_of_int n)) [0..<nat n]"

definition install_one :: "nat \<Rightarrow> ('z lmach_scheme, unit) kern" where
  "install_one tail =
     bindk (readk (\<lambda>s. (ldev s, lstart s, lh_sector s))) (\<lambda>(dev, start, sector).
     bindk (bread dev (start + of_nat tail + 1)) (\<lambda>lbuf.
     bindk (bread dev (sector tail)) (\<lambda>dbuf.
     bindk (bp_data lbuf) (\<lambda>d.
     thenk (set_data dbuf (\<lambda>_. d))
     (thenk (bwrite dbuf)
     (thenk (brelse lbuf)
     (brelse dbuf)))))))"

definition install_trans :: "('z lmach_scheme, unit) kern" where
  "install_trans = bindk (readk lh_n) (\<lambda>n. foreach [0..<nat n] install_one)"

text \<open>\<open>read_head\<close>. More than \<open>LOGSIZE\<close> entries would overrun \<^verbatim>\<open>log.lh.sector\<close>; what C does then
  is undefined, and the model stops.\<close>

definition read_head :: "('z lmach_scheme, unit) kern" where
  "read_head =
     bindk (readk (\<lambda>s. (ldev s, lstart s))) (\<lambda>(dev, start).
     bindk (bread dev start) (\<lambda>buf.
     bindk (bp_data buf) (\<lambda>d.
     let n = sint (get32 d 0) in
     thenk (modk (\<lambda>s. s\<lparr>lh_n := n\<rparr>))
     (if LOGSIZE < n then panic ''undefined: log.lh.sector''
      else
      thenk (foreach [0..<nat n] (\<lambda>i. modk (\<lambda>s. s\<lparr>lh_sector := (lh_sector s)(i := get32 d (4 + 4 * i))\<rparr>)))
      (brelse buf)))))"

definition write_head :: "('z lmach_scheme, unit) kern" where
  "write_head =
     bindk (readk (\<lambda>s. (ldev s, lstart s))) (\<lambda>(dev, start).
     bindk (bread dev start) (\<lambda>buf.
     bindk (readk (\<lambda>s. (lh_n s, lh_sector s))) (\<lambda>(n, sector).
     thenk (set_data buf (put_head n sector))
     (thenk (bwrite buf)
     (brelse buf)))))"

definition recover_from_log :: "('z lmach_scheme, unit) kern" where
  "recover_from_log =
     thenk read_head
     (thenk install_trans
     (thenk (modk (\<lambda>s. s\<lparr>lh_n := 0\<rparr>))
     write_head))"

definition initlog :: "('z lmach_scheme, unit) kern" where
  "initlog =
     (if BSIZE \<le> logheader_size then panic ''initlog: too big logheader'' else
     thenk (initlock LogLock)
     (bindk (readsb ROOTDEV) (\<lambda>sb.
     thenk (modk (\<lambda>s. s\<lparr>lstart := sb_size sb - sb_nlog sb\<rparr>))
     (thenk (modk (\<lambda>s. s\<lparr>lsize := sint (sb_nlog sb)\<rparr>))
     (thenk (modk (\<lambda>s. s\<lparr>ldev := ROOTDEV\<rparr>))
     recover_from_log)))))"

definition begin_trans :: "('z lmach_scheme, unit) kern" where
  "begin_trans =
     thenk (acquire LogLock)
     (bindk (readk lbusy) (\<lambda>busy.
     if busy then sleep ChLog LogLock
     else
     thenk (modk (\<lambda>s. s\<lparr>lbusy := True\<rparr>))
     (release LogLock)))"

definition commit_trans :: "('z lmach_scheme, unit) kern" where
  "commit_trans =
     bindk (readk lh_n) (\<lambda>n.
     thenk (whenk (0 < n)
        (thenk write_head
        (thenk install_trans
        (thenk (modk (\<lambda>s. s\<lparr>lh_n := 0\<rparr>))
        write_head))))
     (thenk (acquire LogLock)
     (thenk (modk (\<lambda>s. s\<lparr>lbusy := False\<rparr>))
     (thenk (wakeup ChLog)
     (release LogLock)))))"

text \<open>The search of \<open>log_write\<close>: the first entry for the sector, or the first unused one.\<close>

definition log_slot :: "(nat \<Rightarrow> u32) \<Rightarrow> int \<Rightarrow> u32 \<Rightarrow> nat" where
  "log_slot sector n x =
     (case find (\<lambda>i. sector i = x) [0..<nat n] of Some i \<Rightarrow> i | None \<Rightarrow> nat n)"

definition log_write :: "nat \<Rightarrow> ('z lmach_scheme, unit) kern" where
  "log_write b =
     bindk (readk (\<lambda>s. (lh_n s, lsize s))) (\<lambda>(n, size).
     if LOGSIZE \<le> n \<or> size - 1 \<le> n then panic ''too big a transaction'' else
     bindk (readk lbusy) (\<lambda>busy.
     if \<not> busy then panic ''write outside of trans'' else
     bindk (readk (\<lambda>s. bufs s b)) (\<lambda>f.
     bindk (readk (\<lambda>s. log_slot (lh_sector s) n (bsector f))) (\<lambda>i.
     thenk (modk (\<lambda>s. s\<lparr>lh_sector := (lh_sector s)(i := bsector f)\<rparr>))
     (bindk (readk lstart) (\<lambda>start.
     bindk (bread (bdev f) (start + of_nat i + 1)) (\<lambda>lbuf.
     bindk (bp_data b) (\<lambda>d.
     thenk (set_data lbuf (\<lambda>_. d))
     (thenk (bwrite lbuf)
     (thenk (brelse lbuf)
     (thenk (whenk (int i = n) (modk (\<lambda>s. s\<lparr>lh_n := lh_n s + 1\<rparr>)))
     (mark_dirty b))))))))))))"

section \<open>The cache below the log\<close>

text \<open>The log fields are no business of the cache, and the other way round.\<close>

lemma cache_cong:
  assumes "lk s = lk t" "bufs s = bufs t" "bnext s = bnext t" "bprev s = bprev t" "disk s = disk t"
    "disksize s = disksize t"
  shows "bio_ok s = bio_ok t" and "bview s = bview t" and "bheld s = bheld t" and "bdirty s = bdirty t"
proof -
  have c: "bcached s = bcached t" by (intro ext) (simp only: bcached_def assms)
  then have h: "bholds s = bholds t" by (intro ext) (simp only: bholds_def assms)
  show "bio_ok s = bio_ok t" by (simp only: bio_ok_def quiet_def bio_inv_def assms c)
  show "bview s = bview t" by (intro ext) (simp only: bview_def assms c)
  show "bheld s = bheld t" by (intro ext) (simp only: bheld_def h)
  show "bdirty s = bdirty t" by (simp only: bdirty_def assms c)
qed

lemma cache_log_update [simp]:
  "bio_ok (s\<lparr>lstart := a\<rparr>) = bio_ok s" "bio_ok (s\<lparr>lsize := b\<rparr>) = bio_ok s"
  "bio_ok (s\<lparr>lbusy := c\<rparr>) = bio_ok s" "bio_ok (s\<lparr>ldev := e\<rparr>) = bio_ok s"
  "bio_ok (s\<lparr>lh_n := g\<rparr>) = bio_ok s" "bio_ok (s\<lparr>lh_sector := h\<rparr>) = bio_ok s"
  "bview (s\<lparr>lstart := a\<rparr>) = bview s" "bview (s\<lparr>lsize := b\<rparr>) = bview s"
  "bview (s\<lparr>lbusy := c\<rparr>) = bview s" "bview (s\<lparr>ldev := e\<rparr>) = bview s"
  "bview (s\<lparr>lh_n := g\<rparr>) = bview s" "bview (s\<lparr>lh_sector := h\<rparr>) = bview s"
  "bheld (s\<lparr>lstart := a\<rparr>) = bheld s" "bheld (s\<lparr>lsize := b\<rparr>) = bheld s"
  "bheld (s\<lparr>lbusy := c\<rparr>) = bheld s" "bheld (s\<lparr>ldev := e\<rparr>) = bheld s"
  "bheld (s\<lparr>lh_n := g\<rparr>) = bheld s" "bheld (s\<lparr>lh_sector := h\<rparr>) = bheld s"
  "bdirty (s\<lparr>lstart := a\<rparr>) = bdirty s" "bdirty (s\<lparr>lsize := b\<rparr>) = bdirty s"
  "bdirty (s\<lparr>lbusy := c\<rparr>) = bdirty s" "bdirty (s\<lparr>ldev := e\<rparr>) = bdirty s"
  "bdirty (s\<lparr>lh_n := g\<rparr>) = bdirty s" "bdirty (s\<lparr>lh_sector := h\<rparr>) = bdirty s"
  by (rule cache_cong; simp)+

lemma bframe_log:
  assumes "bframe s t"
  shows "lstart t = lstart s" "lsize t = lsize s" "lbusy t = lbusy s" "ldev t = ldev s"
    "lh_n t = lh_n s" "lh_sector t = lh_sector s" "lmach.more t = lmach.more s"
proof -
  have t: "t = s\<lparr>ptable := ptable t, bufs := bufs t, bnext := bnext t, bprev := bprev t,
     disk := disk t, dtrace := dtrace t\<rparr>" using assms by (simp add: bframe_def)
  show "lstart t = lstart s" by (subst t) simp
  show "lsize t = lsize s" by (subst t) simp
  show "lbusy t = lbusy s" by (subst t) simp
  show "ldev t = ldev s" by (subst t) simp
  show "lh_n t = lh_n s" by (subst t) simp
  show "lh_sector t = lh_sector s" by (subst t) simp
  show "lmach.more t = lmach.more s" by (subst t) simp
qed

section \<open>Where the log is\<close>

definition log_geom :: "'z lmach_scheme \<Rightarrow> bool" where
  "log_geom s \<longleftrightarrow> ldev s = 1 \<and> 2 \<le> lsize s \<and> unat (lstart s) + nat (lsize s) \<le> unat (disksize s)"

definition logsecs :: "'z lmach_scheme \<Rightarrow> u32 set" where
  "logsecs s = {x. unat (lstart s) \<le> unat x \<and> unat x < unat (lstart s) + nat (lsize s)}"

definition lslot :: "'z lmach_scheme \<Rightarrow> nat \<Rightarrow> u32" where
  "lslot s i = lstart s + of_nat i + 1"

lemma unat_lslot:
  assumes "log_geom s" and "int i < lsize s - 1"
  shows "unat (lslot s i) = unat (lstart s) + i + 1"
proof -
  have "unat (lstart s) + i + 1 < unat (disksize s)" using assms by (auto simp: log_geom_def)
  then have "unat (lstart s) + i + 1 < 4294967296" using unat32_lt [of "disksize s"] by linarith
  moreover have "lslot s i = of_nat (unat (lstart s) + i + 1)" by (simp add: lslot_def)
  ultimately show ?thesis by (metis unat32_of_nat)
qed

lemma lslot_facts:
  assumes "log_geom s" and "int i < lsize s - 1"
  shows "lslot s i \<in> logsecs s" and "lslot s i < disksize s" and "lslot s i \<noteq> lstart s"
proof -
  have u: "unat (lslot s i) = unat (lstart s) + i + 1" using assms by (rule unat_lslot)
  have "unat (lstart s) + i + 1 < unat (disksize s)" using assms by (auto simp: log_geom_def)
  then show "lslot s i < disksize s" using u by (simp add: word_less_nat_alt)
  show "lslot s i \<in> logsecs s" using u assms(2) by (simp add: logsecs_def)
  show "lslot s i \<noteq> lstart s" using u by auto
qed

lemma lslot_inj:
  assumes "log_geom s" and "int i < lsize s - 1" and "int j < lsize s - 1"
  shows "lslot s i = lslot s j \<longleftrightarrow> i = j"
  using unat_lslot [OF assms(1,2)] unat_lslot [OF assms(1,3)] by (metis add_left_cancel add_right_cancel)

lemma lstart_facts:
  assumes "log_geom s"
  shows "lstart s \<in> logsecs s" and "lstart s < disksize s"
  using assms by (auto simp: logsecs_def log_geom_def word_less_nat_alt)

lemma bframe_geom:
  assumes "bframe s t"
  shows "log_geom t = log_geom s" and "logsecs t = logsecs s" and "lslot t i = lslot s i"
  using bframe_log [OF assms] bframe_same [OF assms] by (simp_all add: log_geom_def logsecs_def lslot_def)

section \<open>Installing logged blocks\<close>

text \<open>\<open>inst sec c is d\<close>: the disk \<open>d\<close> after block \<open>c i\<close> has been copied to sector \<open>sec i\<close> for each
  \<open>i\<close> of the list.\<close>

definition inst :: "(nat \<Rightarrow> u32) \<Rightarrow> (nat \<Rightarrow> bytes) \<Rightarrow> nat list \<Rightarrow> (u32 \<Rightarrow> bytes) \<Rightarrow> (u32 \<Rightarrow> bytes)" where
  "inst sec c ys d = foldl (\<lambda>d i. d(sec i := c i)) d ys"

lemma inst_Nil [simp]: "inst sec c [] d = d"
  by (simp add: inst_def)

lemma inst_snoc [simp]: "inst sec c (ys @ [x]) d = (inst sec c ys d)(sec x := c x)"
  by (simp add: inst_def)

lemma inst_other: "x \<notin> sec ` set ys \<Longrightarrow> inst sec c ys d x = d x"
  by (induction ys rule: rev_induct) auto

lemma inst_at: "i \<in> set ys \<Longrightarrow> inj_on sec (set ys) \<Longrightarrow> inst sec c ys d (sec i) = c i"
  by (induction ys rule: rev_induct) (auto simp: inj_on_def)

lemma inst_cong: "(\<And>i. i \<in> set ys \<Longrightarrow> c i = c' i) \<Longrightarrow> inst sec c ys d = inst sec c' ys d"
  by (induction ys rule: rev_induct) auto

lemma inst_agree: "(\<And>i. i \<in> set ys \<Longrightarrow> d (sec i) = c i) \<Longrightarrow> inst sec c ys d = d"
  by (induction ys rule: rev_induct) auto

lemma install_one_runs:
  assumes "bpost s V D Map.empty k w u" and "log_geom s" and "int i < lsize s - 1"
    and "lh_sector s i \<notin> logsecs s" and "lh_sector s i < disksize s"
    and "V (lslot s i) = k (lslot s i)" and "lslot s i \<notin> D"
    and "card (insert (lh_sector s i) D) < NBUF" and "finite D"
  shows "runs (install_one i) u (\<lambda>_. bpost s (V(lh_sector s i := V (lslot s i))) (D - {lh_sector s i})
      Map.empty (k(lh_sector s i := V (lslot s i))) (w @ [(lh_sector s i, V (lslot s i))]))"
proof -
  have fr: "bframe s u" using assms(1) by (simp add: bpost_def)
  note f = bframe_log [OF fr]
  have dev: "ldev s = 1" using assms(2) by (simp add: log_geom_def)
  let ?l = "lslot s i" and ?x = "lh_sector s i"
  have ne: "?l \<noteq> ?x" "?x \<noteq> ?l" using lslot_facts(1) [OF assms(2,3)] assms(4) by auto
  have c: "card (insert ?l D) \<le> NBUF" "card (insert ?x (insert ?l D)) \<le> NBUF"
    using assms(8,9) by (auto simp: card_insert_if insert_commute split: if_splits)
  show ?thesis
    apply (simp only: install_one_def runs_vc f dev lslot_def [symmetric])
    apply (rule bc.rd_vc [OF assms(1)])
       apply (use lslot_facts(2) [OF assms(2,3)] c(1) in \<open>simp_all del: NBUF_def\<close>)[3]
    apply (rule bc.rd_vc, assumption)
       apply (use assms(5) c(2) ne in \<open>simp_all del: NBUF_def\<close>)[3]
    apply (rule bc.look_vc [where sec = ?l], assumption)
     apply (use ne in simp)
    apply (rule bc.edit_vc [where sec = ?x], assumption)
     apply simp
    apply (rule bc.wr_vc [where sec = ?x], assumption)
     apply simp
    apply (rule bc.rel_vc [where sec = ?l], assumption)
      apply (use ne assms(6) in \<open>simp_all\<close>)[2]
    apply (rule bc.rel_vc [where sec = ?x], assumption)
    apply (use ne in \<open>simp_all add: fun_upd_idem_iff\<close>)
    done
qed

lemma install_trans_runs:
  assumes "bpost s V D Map.empty k w u" and "log_geom s" and "lh_n s \<le> lsize s - 1"
    and "\<And>i. i < nat (lh_n s) \<Longrightarrow> lh_sector s i \<notin> logsecs s \<and> lh_sector s i < disksize s"
    and "\<And>x. x \<in> logsecs s \<Longrightarrow> V x = k x" and "D \<inter> logsecs s = {}"
    and "\<And>i. i < nat (lh_n s) \<Longrightarrow> card (insert (lh_sector s i) D) < NBUF" and "finite D"
  shows "runs install_trans u (\<lambda>_. bpost s
      (inst (lh_sector s) (\<lambda>i. V (lslot s i)) [0..<nat (lh_n s)] V)
      (D - lh_sector s ` set [0..<nat (lh_n s)]) Map.empty
      (inst (lh_sector s) (\<lambda>i. V (lslot s i)) [0..<nat (lh_n s)] k)
      (w @ map (\<lambda>i. (lh_sector s i, V (lslot s i))) [0..<nat (lh_n s)]))"
proof -
  let ?sec = "lh_sector s" and ?c = "\<lambda>i. V (lslot s i)" and ?n = "nat (lh_n s)"
  define I where "I ys = bpost s (inst ?sec ?c ys V) (D - ?sec ` set ys) Map.empty
      (inst ?sec ?c ys k) (w @ map (\<lambda>i. (?sec i, ?c i)) ys)" for ys
  have "runs (foreach [0..<?n] install_one) u (\<lambda>_. I [0..<?n])"
  proof (rule runs_foreach)
    show "I [] u" using assms(1) by (simp add: I_def)
  next
    fix ys x zs u
    assume e: "[0..<?n] = ys @ x # zs" and i: "I ys u"
    have "set (ys @ x # zs) = {0..<?n}" using arg_cong [OF e, of set] by simp
    then have xn: "x < ?n" and ys: "set ys \<subseteq> {0..<?n}" by auto
    have xs: "int x < lsize s - 1" using xn assms(3) by simp
    have slot: "lslot s x \<in> logsecs s" using lslot_facts(1) [OF assms(2) xs] .
    then have nd: "lslot s x \<notin> D - ?sec ` set ys" using assms(6) by auto
    have no: "lslot s x \<notin> ?sec ` set ys" using slot assms(4) ys by fastforce
    have card: "card (insert (?sec x) (D - ?sec ` set ys)) < NBUF"
      by (rule le_less_trans [OF card_mono assms(7) [OF xn]]) (use assms(8) in auto)
    have "runs (install_one x) u (\<lambda>_. bpost s ((inst ?sec ?c ys V)(?sec x := ?c x))
        (D - ?sec ` set ys - {?sec x}) Map.empty ((inst ?sec ?c ys k)(?sec x := ?c x))
        ((w @ map (\<lambda>i. (?sec i, ?c i)) ys) @ [(?sec x, ?c x)]))"
      using install_one_runs [OF i [unfolded I_def] assms(2) xs _ _ _ nd card] assms(4) [OF xn]
        assms(5) [OF slot] assms(8) by (simp add: inst_other [OF no])
    moreover have "D - ?sec ` set ys - {?sec x} = D - ?sec ` set (ys @ [x])" by auto
    ultimately show "runs (install_one x) u (\<lambda>_ v. I (ys @ [x]) v)" by (simp add: I_def)
  qed
  moreover have "lh_n u = lh_n s" using assms(1) bframe_log by (auto simp: bpost_def)
  ultimately show ?thesis by (simp only: install_trans_def runs_vc I_def)
qed

section \<open>The header block\<close>

abbreviation head_n :: "bytes \<Rightarrow> int" where
  "head_n d \<equiv> sint (get32 d 0)"

abbreviation head_sec :: "bytes \<Rightarrow> nat \<Rightarrow> u32" where
  "head_sec d i \<equiv> get32 d (4 + 4 * i)"

lemma put_head_get:
  "get32 (foldl (\<lambda>e i. put32 e (4 + 4 * i) (sec i)) d [0..<k]) 0 = get32 d 0"
  "i < k \<Longrightarrow> get32 (foldl (\<lambda>e i. put32 e (4 + 4 * i) (sec i)) d [0..<k]) (4 + 4 * i) = sec i"
proof (induction k)
  case (Suc k)
  { case 1 then show ?case using Suc by (simp add: get32_put32_other)
  next case 2 then show ?case using Suc by (cases "i = k") (auto simp: get32_put32_other) }
qed auto

lemma head_put_head:
  assumes "0 \<le> n" and "n \<le> LOGSIZE"
  shows "head_n (put_head n sec d) = n" and "i < nat n \<Longrightarrow> head_sec (put_head n sec d) i = sec i"
proof -
  have "sint (word_of_int n :: u32) = n" using assms by (simp add: sint_uint uint_word_of_int signed_take_bit_int_eq_self)
  then show "head_n (put_head n sec d) = n" by (simp add: put_head_def put_head_get(1))
  show "i < nat n \<Longrightarrow> head_sec (put_head n sec d) i = sec i" by (simp add: put_head_def put_head_get(2))
qed

lemma write_head_runs:
  assumes "bpost s V D Map.empty k w u" and "log_geom s" and "card (insert (lstart s) D) \<le> NBUF"
  shows "runs write_head u (\<lambda>_. bpost s (V(lstart s := put_head (lh_n s) (lh_sector s) (V (lstart s))))
      (D - {lstart s}) Map.empty (k(lstart s := put_head (lh_n s) (lh_sector s) (V (lstart s))))
      (w @ [(lstart s, put_head (lh_n s) (lh_sector s) (V (lstart s)))]))"
proof -
  have f: "ldev v = ldev s" "lstart v = lstart s" "lh_n v = lh_n s" "lh_sector v = lh_sector s"
    if "bpost s V' D' H' k' w' v" for V' D' H' k' w' v
    using that bframe_log [of s v] by (auto simp: bpost_def)
  have dev: "ldev s = 1" using assms(2) by (simp add: log_geom_def)
  show ?thesis
    apply (simp only: write_head_def runs_vc f [OF assms(1)] dev)
    apply (rule bc.rd_vc [OF assms(1)])
       apply (use lstart_facts [OF assms(2)] assms(3) in \<open>simp_all del: NBUF_def\<close>)[3]
    apply (simp only: f)
    apply (rule bc.edit_vc [where sec = "lstart s"], assumption)
     apply simp
    apply (rule bc.wr_vc [where sec = "lstart s"], assumption)
     apply simp
    apply (rule bc.rel_vc [where sec = "lstart s"], assumption)
    apply (simp_all add: fun_upd_idem_iff)
    done
qed

text \<open>Assignments to the fields of \<^verbatim>\<open>log\<close> between cache operations.\<close>

lemma bframe_log_update:
  assumes "bframe s t"
  shows "bframe (s\<lparr>lstart := a\<rparr>) (t\<lparr>lstart := a\<rparr>)"
    and "bframe (s\<lparr>lsize := b\<rparr>) (t\<lparr>lsize := b\<rparr>)"
    and "bframe (s\<lparr>ldev := e\<rparr>) (t\<lparr>ldev := e\<rparr>)"
    and "bframe (s\<lparr>lbusy := c\<rparr>) (t\<lparr>lbusy := c\<rparr>)"
    and "bframe (s\<lparr>lh_n := g\<rparr>) (t\<lparr>lh_n := g\<rparr>)"
    and "bframe (s\<lparr>lh_sector := h\<rparr>) (t\<lparr>lh_sector := h\<rparr>)"
proof -
  obtain pt bf nx pv dk tr where t: "t = s\<lparr>ptable := pt, bufs := bf, bnext := nx, bprev := pv, disk := dk, dtrace := tr\<rparr>"
    and p: "pt_woken (ptable s) pt" using assms unfolding bframe_def by blast
  show "bframe (s\<lparr>lstart := a\<rparr>) (t\<lparr>lstart := a\<rparr>)" using p by (simp add: bframe_def t)
  show "bframe (s\<lparr>lsize := b\<rparr>) (t\<lparr>lsize := b\<rparr>)" using p by (simp add: bframe_def t)
  show "bframe (s\<lparr>ldev := e\<rparr>) (t\<lparr>ldev := e\<rparr>)" using p by (simp add: bframe_def t)
  show "bframe (s\<lparr>lbusy := c\<rparr>) (t\<lparr>lbusy := c\<rparr>)" using p by (simp add: bframe_def t)
  show "bframe (s\<lparr>lh_n := g\<rparr>) (t\<lparr>lh_n := g\<rparr>)" using p by (simp add: bframe_def t)
  show "bframe (s\<lparr>lh_sector := h\<rparr>) (t\<lparr>lh_sector := h\<rparr>)" using p by (simp add: bframe_def t)
qed

lemma bpost_log_update:
  assumes "bpost s V D H k w t"
  shows "bpost (s\<lparr>lstart := a\<rparr>) V D H k w (t\<lparr>lstart := a\<rparr>)"
    and "bpost (s\<lparr>lsize := b\<rparr>) V D H k w (t\<lparr>lsize := b\<rparr>)"
    and "bpost (s\<lparr>ldev := e\<rparr>) V D H k w (t\<lparr>ldev := e\<rparr>)"
    and "bpost (s\<lparr>lbusy := c\<rparr>) V D H k w (t\<lparr>lbusy := c\<rparr>)"
    and "bpost (s\<lparr>lh_n := g\<rparr>) V D H k w (t\<lparr>lh_n := g\<rparr>)"
    and "bpost (s\<lparr>lh_sector := h\<rparr>) V D H k w (t\<lparr>lh_sector := h\<rparr>)"
  using assms by (simp_all add: bpost_def bframe_log_update)

lemma bpost_start: "bio_ok s \<Longrightarrow> bpost s (bview s) (bdirty s) (bheld s) (disk s) (dtrace s) s"
  by (simp add: bpost_def)

lemma foreach_sectors:
  assumes "\<And>i s. m i s = Ok () (s\<lparr>lh_sector := (lh_sector s)(i := g i)\<rparr>)"
  shows "foreach [0..<k] m s = Ok () (s\<lparr>lh_sector := (\<lambda>i. if i < k then g i else lh_sector s i)\<rparr>)"
proof (induction k)
  case 0
  then show ?case by simp
next
  case (Suc k)
  have "(\<lambda>i. if i < k then g i else lh_sector s i)(k := g k) = (\<lambda>i. if i < Suc k then g i else lh_sector s i)"
    by (auto simp: less_Suc_eq)
  note fn = this
  have "[0..<Suc k] = [0..<k] @ [k]" by simp
  then have "foreach [0..<Suc k] m s = thenk (foreach [0..<k] m) (foreach [k] m) s"
    by (simp only: foreach_append)
  also have "\<dots> = foreach [k] m (s\<lparr>lh_sector := (\<lambda>i. if i < k then g i else lh_sector s i)\<rparr>)"
    by (rule thenk_runs(1), rule Suc.IH)
  also have "\<dots> = Ok () (s\<lparr>lh_sector := (\<lambda>i. if i < Suc k then g i else lh_sector s i)\<rparr>)"
    using fn by (simp add: assms)
  finally show ?case .
qed

lemma read_sectors:
  "foreach [0..<k] (\<lambda>i. modk (\<lambda>s. s\<lparr>lh_sector := (lh_sector s)(i := g i)\<rparr>)) s =
     Ok () (s\<lparr>lh_sector := (\<lambda>i. if i < k then g i else lh_sector s i)\<rparr>)"
  by (rule foreach_sectors) (simp only: modk_def)

definition read_log :: "bytes \<Rightarrow> 'z lmach_scheme \<Rightarrow> 'z lmach_scheme" where
  "read_log d s = s\<lparr>lh_n := head_n d,
     lh_sector := (\<lambda>i. if i < nat (head_n d) then head_sec d i else lh_sector s i)\<rparr>"

lemma read_head_runs:
  assumes "bpost s V D Map.empty k w u" and "log_geom s" and "card (insert (lstart s) D) \<le> NBUF"
    and "V (lstart s) = k (lstart s)" and "head_n (V (lstart s)) \<le> LOGSIZE"
  shows "runs read_head u (\<lambda>_. bpost (read_log (V (lstart s)) s) V D Map.empty k w)"
proof -
  let ?d = "V (lstart s)"
  let ?sec = "\<lambda>i. if i < nat (head_n ?d) then head_sec ?d i else lh_sector s i"
  have f: "ldev v = ldev s" "lstart v = lstart s" "lh_sector v = lh_sector s"
    if "bpost s V' D' H' k' w' v" for V' D' H' k' w' v
    using that bframe_log [of s v] by (auto simp: bpost_def)
  have dev: "ldev s = 1" using assms(2) by (simp add: log_geom_def)
  have g: "(LOGSIZE < head_n ?d) = False" using assms(5) by simp
  show ?thesis
    apply (simp only: read_head_def runs_vc f [OF assms(1)] dev Let_def)
    apply (rule bc.rd_vc [OF assms(1)])
       apply (use lstart_facts [OF assms(2)] assms(3) in \<open>simp_all del: NBUF_def\<close>)[3]
    apply (rule bc.look_vc [where sec = "lstart s"], assumption)
     apply simp
    apply (simp only: runs_vc g if_False runs_Ok [OF read_sectors])
    subgoal premises p for b v
    proof -
      have "bpost (read_log ?d s) V D [lstart s \<mapsto> b] k w (v\<lparr>lh_n := head_n ?d, lh_sector := ?sec\<rparr>)"
        unfolding read_log_def by (intro bpost_log_update(5,6) p)
      moreover have "lh_sector (v\<lparr>lh_n := head_n ?d\<rparr>) = lh_sector s" using f [OF p] by simp
      ultimately show ?thesis
        by (simp only:) (erule bc.rel_vc [where sec = "lstart s"]; use assms(4) in \<open>auto simp: fun_upd_idem_iff\<close>)
    qed
    done
qed

section \<open>Recovery\<close>

text \<open>\<open>head_ok s d\<close>: the header on disk \<open>d\<close> describes a log that fits. \<open>recovered s d\<close>: the disk with
  the blocks of that log installed.\<close>

definition head_ok :: "'z lmach_scheme \<Rightarrow> (u32 \<Rightarrow> bytes) \<Rightarrow> bool" where
  "head_ok s d \<longleftrightarrow> (let h = d (lstart s) in head_n h \<le> LOGSIZE \<and> head_n h \<le> lsize s - 1
     \<and> (\<forall>i < nat (head_n h). head_sec h i \<notin> logsecs s \<and> head_sec h i < disksize s))"

definition recovered :: "'z lmach_scheme \<Rightarrow> (u32 \<Rightarrow> bytes) \<Rightarrow> (u32 \<Rightarrow> bytes)" where
  "recovered s d = (let h = d (lstart s) in inst (head_sec h) (\<lambda>i. d (lslot s i)) [0..<nat (head_n h)] d)"

text \<open>No transaction is active: nothing is dirty, the log on disk is empty, and the disk is what
  readers see.\<close>

definition log_idle :: "'z lmach_scheme \<Rightarrow> bool" where
  "log_idle s \<longleftrightarrow> bio_ok s \<and> log_geom s \<and> \<not> lbusy s \<and> lh_n s = 0 \<and> bdirty s = {}
     \<and> head_n (disk s (lstart s)) = 0 \<and> bview s = disk s \<and> dom (bheld s) \<inter> logsecs s = {}"

lemma read_log_simps [simp]:
  "lstart (read_log d s) = lstart s" "lsize (read_log d s) = lsize s" "ldev (read_log d s) = ldev s"
  "lbusy (read_log d s) = lbusy s" "lh_n (read_log d s) = head_n d" "disksize (read_log d s) = disksize s"
  "log_geom (read_log d s) = log_geom s" "logsecs (read_log d s) = logsecs s" "lslot (read_log d s) i = lslot s i"
  by (simp_all add: read_log_def log_geom_def logsecs_def lslot_def)

lemma lh_sector_read_log: "i < nat (head_n d) \<Longrightarrow> lh_sector (read_log d s) i = head_sec d i"
  by (simp add: read_log_def)

lemma inst_cong_sec: "(\<And>i. i \<in> set ys \<Longrightarrow> f i = g i) \<Longrightarrow> inst f c ys d = inst g c ys d"
  by (induction ys rule: rev_induct) auto

lemma log_cleared:
  "log_geom (s\<lparr>lh_n := z\<rparr>) = log_geom s" "logsecs (s\<lparr>lh_n := z\<rparr>) = logsecs s"
  "lslot (s\<lparr>lh_n := z\<rparr>) i = lslot s i"
  by (simp_all add: log_geom_def logsecs_def lslot_def)

text \<open>The disk writes of a recovery.\<close>

definition recover_writes :: "'z lmach_scheme \<Rightarrow> (u32 \<Rightarrow> bytes) \<Rightarrow> (u32 \<times> bytes) list" where
  "recover_writes s d = (let h = d (lstart s) in
     map (\<lambda>i. (head_sec h i, d (lslot s i))) [0..<nat (head_n h)] @ [(lstart s, put32 h 0 0)])"

definition rec_post :: "'z lmach_scheme \<Rightarrow> (u32 \<Rightarrow> bytes) \<Rightarrow> (u32 \<times> bytes) list \<Rightarrow> 'z lmach_scheme \<Rightarrow> bool" where
  "rec_post s d w t \<longleftrightarrow> (\<exists>h sec. head_n h = 0 \<and> bpost (s\<lparr>lh_n := 0, lh_sector := sec\<rparr>)
      ((recovered s d)(lstart s := h)) {} Map.empty ((recovered s d)(lstart s := h)) (w @ recover_writes s d) t)"

lemma put_head_0: "put_head 0 sec d = put32 d 0 0"
  by (simp add: put_head_def)

lemma recovered_lstart:
  assumes "log_geom s" and "head_ok s d"
  shows "recovered s d (lstart s) = d (lstart s)"
  unfolding recovered_def Let_def
  by (rule inst_other) (use assms lstart_facts(1) [OF assms(1)] in \<open>auto simp: head_ok_def Let_def\<close>)

lemma recover_runs:
  assumes "bpost s d {} Map.empty d w u" and "log_geom s" and "head_ok s d"
  shows "runs recover_from_log u (\<lambda>_. rec_post s d w)"
proof -
  let ?h = "d (lstart s)" and ?r = "read_log (d (lstart s)) s"
  let ?n = "nat (head_n ?h)"
  let ?i = "inst (lh_sector ?r) (\<lambda>i. d (lslot s i)) [0..<?n]"
  have i: "?i d = recovered s d"
    unfolding recovered_def Let_def by (rule inst_cong_sec) (simp add: lh_sector_read_log)
  have ok: "head_n ?h \<le> LOGSIZE" "head_n ?h \<le> lsize s - 1"
    "\<And>i. i < ?n \<Longrightarrow> head_sec ?h i \<notin> logsecs s \<and> head_sec ?h i < disksize s"
    using assms(3) by (auto simp: head_ok_def Let_def)
  have 1: "runs read_head u (\<lambda>_. bpost ?r d {} Map.empty d w)"
    by (rule read_head_runs [OF assms(1,2)]) (use ok(1) in simp_all)
  let ?w = "w @ map (\<lambda>i. (lh_sector ?r i, d (lslot s i))) [0..<?n]"
  have 2: "runs install_trans v (\<lambda>_. bpost ?r (recovered s d) {} Map.empty (recovered s d) ?w)"
    if "bpost ?r d {} Map.empty d w v" for v
    using install_trans_runs [OF that, unfolded read_log_simps] assms(2) ok i
    by (simp add: lh_sector_read_log)
  let ?s0 = "?r\<lparr>lh_n := 0\<rparr>"
  let ?h0 = "put_head 0 (lh_sector ?r) (recovered s d (lstart s))"
  have 3: "runs write_head v (\<lambda>_. bpost ?s0 ((recovered s d)(lstart s := ?h0)) {} Map.empty
      ((recovered s d)(lstart s := ?h0)) (?w @ [(lstart s, ?h0)]))"
    if "bpost ?s0 (recovered s d) {} Map.empty (recovered s d) ?w v" for v
    using write_head_runs [OF that] assms(2) by (simp add: log_cleared)
  have s0: "?s0 = s\<lparr>lh_n := 0, lh_sector := lh_sector ?r\<rparr>" by (simp add: read_log_def)
  have "runs recover_from_log u (\<lambda>_. bpost ?s0 ((recovered s d)(lstart s := ?h0)) {} Map.empty
      ((recovered s d)(lstart s := ?h0)) (?w @ [(lstart s, ?h0)]))"
    unfolding recover_from_log_def runs_vc
    by (rule runs_mono [OF 1], rule runs_mono [OF 2], assumption, rule 3, rule bpost_log_update)
  moreover have "?w @ [(lstart s, ?h0)] = w @ recover_writes s d"
    unfolding recover_writes_def Let_def put_head_0 recovered_lstart [OF assms(2,3)]
    by (simp add: lh_sector_read_log)
  moreover have "head_n ?h0 = 0" using head_put_head(1) [of 0] by simp
  ultimately show ?thesis unfolding s0 rec_post_def by (auto elim!: runs_mono)
qed

lemma initlock_quiet: "quiet s \<Longrightarrow> initlock l s = Ok () s"
proof -
  assume "quiet s"
  then have "locks (lk s) l = free_lock" by (simp add: quiet_def unl_def)
  then have "set_lock l (\<lambda>_. free_lock) (lk s) = lk s" by (intro set_lock_id) simp
  then show ?thesis by (simp add: initlock_def)
qed

lemma readsb_runs:
  assumes "bpost s V D H k w u" and "1 < disksize s" and "H 1 = None"
    and "card (insert 1 (dom H \<union> D)) \<le> NBUF" and "1 \<in> D \<or> V 1 = k 1"
  shows "runs (readsb 1) u (\<lambda>sb t. sb = get_sb (V 1) \<and> bpost s V D H k w t)"
proof -
  have h: "H(1 := None) = H" using assms(3) by auto
  show ?thesis
    unfolding readsb_def runs_vc
    apply (rule bc.rd_vc [OF assms(1-4)])
    apply (rule bc.look_vc [where sec = 1], assumption, simp)
    apply (rule bc.rel_vc [where sec = 1], assumption)
    using assms(5) h by auto
qed

text \<open>The geometry of the log according to the superblock of disk \<open>d\<close>.\<close>

definition log_at :: "(u32 \<Rightarrow> bytes) \<Rightarrow> 'z lmach_scheme \<Rightarrow> 'z lmach_scheme" where
  "log_at d s = s\<lparr>lstart := sb_size (get_sb (d 1)) - sb_nlog (get_sb (d 1)),
     lsize := sint (sb_nlog (get_sb (d 1))), ldev := ROOTDEV\<rparr>"

lemma log_at_simps [simp]:
  "disksize (log_at d s) = disksize s" "lbusy (log_at d s) = lbusy s" "lmach.more (log_at d s) = lmach.more s"
  "disk (log_at d s) = disk s"
  by (simp_all add: log_at_def)

lemma initlog_runs:
  assumes "bio_ok s" and "bheld s = Map.empty" and "bdirty s = {}" and "bview s = d" and "disk s = d"
    and "1 < disksize s" and "\<not> lbusy s" and "log_geom (log_at d s)" and "head_ok (log_at d s) d"
  shows "runs initlog s (\<lambda>_ t. log_idle t \<and> bheld t = Map.empty \<and> logsecs t = logsecs (log_at d s)
    \<and> lstart t = lstart (log_at d s) \<and> lsize t = lsize (log_at d s) \<and> ldev t = ROOTDEV \<and> disksize t = disksize s \<and> lmach.more t = lmach.more s
    \<and> dtrace t = dtrace s @ recover_writes (log_at d s) d
    \<and> (\<forall>x. x \<noteq> lstart t \<longrightarrow> disk t x = recovered (log_at d s) d x))"
proof -
  let ?s = "log_at d s"
  have q: "initlock LogLock s = Ok () s" using assms(1) by (simp add: bio_ok_def initlock_quiet)
  have b0: "bpost s d {} Map.empty d (dtrace s) s" using bpost_start [OF assms(1)] assms(2-5) by simp
  have 1: "runs (readsb 1) s (\<lambda>sb t. sb = get_sb (d 1) \<and> bpost s d {} Map.empty d (dtrace s) t)"
    by (rule readsb_runs [OF b0]) (use assms(6) in simp_all)
  note 2 = recover_runs [OF _ assms(8,9), of "dtrace s"]
  have "runs initlog s (\<lambda>_. rec_post ?s d (dtrace s))"
    unfolding initlog_def
    apply (simp add: runs_Ok [of "initlock LogLock" s "()" s] q)
    apply (rule runs_mono [OF 1], elim conjE, rule 2)
    apply (simp only: log_at_def ROOTDEV_def)
    apply (intro bpost_log_update)
    apply assumption
    done
  then show ?thesis
  proof (rule runs_mono)
    fix t
    assume "rec_post ?s d (dtrace s) t"
    then obtain h sec where h: "head_n h = 0" and t: "bpost (?s\<lparr>lh_n := 0, lh_sector := sec\<rparr>)
      ((recovered ?s d)(lstart ?s := h)) {} Map.empty ((recovered ?s d)(lstart ?s := h))
      (dtrace s @ recover_writes ?s d) t"
      unfolding rec_post_def by blast
    then have fr: "bframe (?s\<lparr>lh_n := 0, lh_sector := sec\<rparr>) t" by (simp add: bpost_def)
    note f = bframe_log [OF fr] bframe_same(2) [OF fr] bframe_geom [OF fr]
    have "log_idle t" using t f h assms(7,8)
      by (simp add: log_idle_def bpost_def log_geom_def)
    with t f show "log_idle t \<and> bheld t = Map.empty \<and> logsecs t = logsecs ?s
      \<and> lstart t = lstart ?s \<and> lsize t = lsize ?s \<and> ldev t = ROOTDEV \<and> disksize t = disksize s \<and> lmach.more t = lmach.more s
      \<and> dtrace t = dtrace s @ recover_writes ?s d
      \<and> (\<forall>x. x \<noteq> lstart t \<longrightarrow> disk t x = recovered ?s d x)"
      by (simp add: bpost_def logsecs_def log_at_def)
  qed
qed

section \<open>Inside a transaction\<close>

definition lhset :: "'z lmach_scheme \<Rightarrow> u32 set" where
  "lhset s = lh_sector s ` {..<nat (lh_n s)}"

text \<open>
  \<open>in_trans s M\<close>: a transaction is active, and the held blocks in \<open>M\<close> have been changed since they
  were last logged. The dirty buffers are exactly the logged sectors; the log on disk
  has a copy of each logged block as readers see it, and no commit record; every other
  block is as on disk.
\<close>

definition in_trans :: "'z lmach_scheme \<Rightarrow> u32 set \<Rightarrow> bool" where
  "in_trans s M \<longleftrightarrow> bio_ok s \<and> log_geom s \<and> lbusy s
     \<and> 0 \<le> lh_n s \<and> lh_n s \<le> LOGSIZE \<and> lh_n s \<le> lsize s - 1
     \<and> inj_on (lh_sector s) {..<nat (lh_n s)}
     \<and> lhset s \<inter> logsecs s = {} \<and> (\<forall>x \<in> lhset s. x < disksize s)
     \<and> bdirty s = lhset s
     \<and> (\<forall>i < nat (lh_n s). lh_sector s i \<notin> M \<longrightarrow> disk s (lslot s i) = bview s (lh_sector s i))
     \<and> head_n (disk s (lstart s)) = 0
     \<and> M \<subseteq> dom (bheld s) \<and> dom (bheld s) \<inter> logsecs s = {}
     \<and> (\<forall>x. x \<notin> lhset s \<union> M \<longrightarrow> bview s x = disk s x)"

text \<open>What file-system code sees of the disk: everything but the log.\<close>

definition tview :: "'z lmach_scheme \<Rightarrow> u32 \<Rightarrow> bytes" where
  "tview s x = (if x \<in> logsecs s then (\<lambda>_. 0) else bview s x)"

definition tframe :: "'z lmach_scheme \<Rightarrow> 'z lmach_scheme \<Rightarrow> bool" where
  "tframe s t \<longleftrightarrow> t = s\<lparr>ptable := ptable t, bufs := bufs t, bnext := bnext t, bprev := bprev t,
     disk := disk t, dtrace := dtrace t, lh_n := lh_n t, lh_sector := lh_sector t\<rparr>
     \<and> pt_woken (ptable s) (ptable t)"

definition tpost :: "'z lmach_scheme \<Rightarrow> (u32 \<Rightarrow> bytes) \<Rightarrow> u32 set \<Rightarrow> u32 set \<Rightarrow> (u32 \<Rightarrow> nat option)
    \<Rightarrow> 'z lmach_scheme \<Rightarrow> bool" where
  "tpost s V L M H t \<longleftrightarrow> in_trans t M \<and> tframe s t \<and> tview t = V \<and> lhset t = L \<and> bheld t = H
     \<and> (\<forall>x. x \<notin> logsecs s \<longrightarrow> disk t x = disk s x)"

lemma tframe_refl [simp]: "tframe s s"
  by (simp add: tframe_def)

lemma tframeE:
  assumes "tframe s t"
  obtains pt bf nx pv dk tr n sec where
    "t = s\<lparr>ptable := pt, bufs := bf, bnext := nx, bprev := pv, disk := dk, dtrace := tr, lh_n := n, lh_sector := sec\<rparr>"
    and "pt_woken (ptable s) pt"
  using assms unfolding tframe_def by blast

lemma tframe_trans: "tframe s t \<Longrightarrow> tframe t u \<Longrightarrow> tframe s u"
  by (elim tframeE) (auto simp: tframe_def intro: pt_woken_trans)

lemma bframe_tframe: "bframe s t \<Longrightarrow> tframe s t"
proof -
  assume b: "bframe s t"
  note f = bframe_log(5,6) [OF b]
  have t: "t = s\<lparr>ptable := ptable t, bufs := bufs t, bnext := bnext t, bprev := bprev t,
     disk := disk t, dtrace := dtrace t\<rparr>" and p: "pt_woken (ptable s) (ptable t)"
    using b by (simp_all add: bframe_def)
  have "s\<lparr>ptable := ptable t, bufs := bufs t, bnext := bnext t, bprev := bprev t, disk := disk t,
     dtrace := dtrace t, lh_n := lh_n t, lh_sector := lh_sector t\<rparr> = t"
    unfolding f by (subst (7) t) simp
  with p show ?thesis by (simp add: tframe_def)
qed

lemma tframe_same:
  assumes "tframe s t"
  shows "lk t = lk s" "disksize t = disksize s" "lstart t = lstart s" "lsize t = lsize s" "lbusy t = lbusy s"
    "ldev t = ldev s" "lmach.more t = lmach.more s" "logsecs t = logsecs s" "log_geom t = log_geom s"
    "lslot t i = lslot s i"
  using assms by (auto elim!: tframeE simp: logsecs_def log_geom_def lslot_def)

lemma tpost_trans: "tpost s V L M H t \<Longrightarrow> tpost t V' L' M' H' u \<Longrightarrow> tpost s V' L' M' H' u"
  unfolding tpost_def using tframe_trans tframe_same(8) by metis

lemma tview_log: "x \<notin> logsecs s \<Longrightarrow> tview s x = bview s x"
  by (simp add: tview_def)

text \<open>Cache operations that leave the log alone.\<close>

lemma in_trans_cache:
  assumes "in_trans u M" and "bpost u V (bdirty u) H (disk u) w t"
    and "M' \<subseteq> dom H" and "dom H \<inter> logsecs u = {}" and "\<And>x. x \<notin> lhset u \<union> M' \<Longrightarrow> V x = disk u x"
    and "\<And>x. x \<in> lhset u \<Longrightarrow> x \<notin> M' \<Longrightarrow> x \<notin> M \<and> V x = bview u x"
    and "\<And>x. x \<notin> logsecs u \<Longrightarrow> V x = T x" and "\<And>x. x \<in> logsecs u \<Longrightarrow> T x = (\<lambda>_. 0)"
  shows "tpost u T (lhset u) M' H t"
proof -
  have fr: "bframe u t" using assms(2) by (simp add: bpost_def)
  note f = bframe_log [OF fr] bframe_same(2) [OF fr] bframe_geom [OF fr]
  have lh: "lhset t = lhset u" by (simp add: lhset_def f)
  have mem: "lh_sector u i \<in> lhset u" if "i < nat (lh_n u)" for i using that by (auto simp: lhset_def)
  have "in_trans t M'"
    using assms(1-6) mem unfolding in_trans_def bpost_def lh f by auto
  moreover have "tview t = T" using assms(2,7,8) by (auto simp: tview_def bpost_def f)
  ultimately show ?thesis
    using assms(2) bframe_tframe [OF fr] lh by (simp add: tpost_def bpost_def)
qed

lemma tread_law:
  assumes "in_trans u M" and "sec \<notin> logsecs u" and "sec < disksize u" and "bheld u sec = None"
    and "card (insert sec (dom (bheld u) \<union> lhset u)) \<le> NBUF"
  shows "runs (bread 1 sec) u (\<lambda>b. tpost u (tview u) (lhset u) M ((bheld u)(sec \<mapsto> b)))"
proof -
  have b: "bio_ok u" "bdirty u = lhset u" using assms(1) by (auto simp: in_trans_def)
  have "runs (bread 1 sec) u (bread_post u sec)"
    using assms(3-5) b(2) by (intro bread_runs b) (simp_all del: NBUF_def)
  then show ?thesis
  proof (rule runs_mono)
    fix x t
    assume "bread_post u sec x t"
    then show "tpost u (tview u) (lhset u) M ((bheld u)(sec \<mapsto> x)) t"
      by (rule in_trans_cache [OF assms(1)])
        (use assms(1,2) in \<open>auto simp: in_trans_def tview_def\<close>)
  qed
qed

lemma tedit_law:
  assumes "in_trans u M" and "bheld u sec = Some b"
  shows "runs (set_data b f) u (\<lambda>_. tpost u ((tview u)(sec := f (tview u sec))) (lhset u) (insert sec M) (bheld u))"
proof -
  have b: "bio_ok u" "sec \<notin> logsecs u" using assms by (auto simp: in_trans_def)
  show ?thesis
  proof (rule runs_mono [OF set_data_runs [OF b(1) assms(2)]])
    fix t
    assume "bpost u ((bview u)(sec := f (bview u sec))) (bdirty u) (bheld u) (disk u) (dtrace u) t"
    then show "tpost u ((tview u)(sec := f (tview u sec))) (lhset u) (insert sec M) (bheld u) t"
      by (rule in_trans_cache [OF assms(1)])
        (use assms b(2) in \<open>auto simp: in_trans_def tview_def\<close>)
  qed
qed

lemma trel_law:
  assumes "in_trans u M" and "bheld u sec = Some b" and "sec \<notin> M"
  shows "runs (brelse b) u (\<lambda>_. tpost u (tview u) (lhset u) M ((bheld u)(sec := None)))"
proof -
  have b: "bio_ok u" "sec \<in> bdirty u \<or> bview u sec = disk u sec"
    using assms by (auto simp: in_trans_def)
  show ?thesis
  proof (rule runs_mono [OF brelse_runs [OF b(1) assms(2) b(2)]])
    fix t
    assume "bpost u (bview u) (bdirty u) ((bheld u)(sec := None)) (disk u) (dtrace u) t"
    then show "tpost u (tview u) (lhset u) M ((bheld u)(sec := None)) t"
      by (rule in_trans_cache [OF assms(1)])
        (use assms in \<open>auto simp: in_trans_def tview_def\<close>)
  qed
qed

lemma log_slot_cases:
  assumes "inj_on sec {..<nat n}" and "0 \<le> n"
  shows "(\<exists>i < nat n. log_slot sec n x = i \<and> sec i = x)
    \<or> (log_slot sec n x = nat n \<and> x \<notin> sec ` {..<nat n})"
proof (cases "find (\<lambda>i. sec i = x) [0..<nat n]")
  case None
  then have "x \<notin> sec ` {..<nat n}" by (auto simp: find_None_iff)
  with None show ?thesis by (simp add: log_slot_def)
next
  case (Some i)
  then show ?thesis using find_SomeD [OF Some] by (simp add: log_slot_def)
qed

lemma log_sector_update [simp]:
  "lslot (s\<lparr>lh_sector := h\<rparr>) i = lslot s i" "logsecs (s\<lparr>lh_sector := h\<rparr>) = logsecs s"
  "log_geom (s\<lparr>lh_sector := h\<rparr>) = log_geom s"
  by (simp_all add: lslot_def logsecs_def log_geom_def)

lemma mark_dirty_vc:
  assumes "bpost s V D H k w u" and "H sec = Some b" and "\<And>v. bpost s V (insert sec D) H k w v \<Longrightarrow> Q () v"
  shows "runs (mark_dirty b) u Q"
  using mark_dirty_runs [of u sec b] assms(1,2) bpost_trans [OF assms(1)]
  by (auto simp: bpost_def elim!: runs_mono intro!: assms(3))

text \<open>The effect of \<open>log_write\<close> on cache, disk and header.\<close>

lemma log_write_runs:
  assumes "bio_ok u" and "log_geom u" and "lbusy u" and "0 \<le> lh_n u" and "lh_n u < LOGSIZE" and "lh_n u < lsize u - 1"
    and "bheld u sec = Some b" and "i = log_slot (lh_sector u) (lh_n u) sec" and "int i \<le> lh_n u"
    and "sec \<notin> logsecs u" and "bheld u (lslot u i) = None"
    and "card (insert (lslot u i) (dom (bheld u) \<union> bdirty u)) \<le> NBUF"
  shows "runs (log_write b) u (\<lambda>_. bpost
      (u\<lparr>lh_sector := (lh_sector u)(i := sec), lh_n := (if int i = lh_n u then lh_n u + 1 else lh_n u)\<rparr>)
      ((bview u)(lslot u i := bview u sec)) (insert sec (bdirty u - {lslot u i})) (bheld u)
      ((disk u)(lslot u i := bview u sec)) (dtrace u @ [(lslot u i, bview u sec)]))"
proof -
  let ?l = "lslot u i" and ?u1 = "u\<lparr>lh_sector := (lh_sector u)(i := sec)\<rparr>"
  obtain y where y: "bufs u b = held_buf y sec (bview u sec)" using bheld_buf [OF assms(1,7)] .
  have slot: "int i < lsize u - 1" using assms(6,9) by simp
  have ne: "sec \<noteq> ?l" "?l \<noteq> sec" using lslot_facts(1) [OF assms(2) slot] assms(10) by auto
  have g: "(LOGSIZE \<le> lh_n u \<or> lsize u - 1 \<le> lh_n u) = False" "(\<not> lbusy u) = False"
    using assms(3,5,6) by auto
  have st: "bpost ?u1 (bview u) (bdirty u) (bheld u) (disk u) (dtrace u) ?u1"
    by (rule bpost_log_update(6) [OF bpost_start [OF assms(1)]])
  have n: "lh_n v = lh_n u" if "bpost ?u1 V' D' H' k' w' v" for V' D' H' k' w' v
    using that bframe_log(5) [of ?u1 v] by (simp add: bpost_def)
  have h: "(bheld u)(?l := None) = bheld u" using assms(11) by auto
  show ?thesis
    apply (simp only: log_write_def runs_vc g if_False y held_buf_simps assms(8) [symmetric])
    apply (simp only: lmach.simps lslot_def [symmetric] log_sector_update)
    apply (rule bc.rd_vc [OF st])
       apply (use lslot_facts(2) [OF assms(2) slot] assms(11,12) in \<open>simp_all del: NBUF_def\<close>)[3]
    apply (rule bc.look_vc [where sec = sec], assumption)
     apply (use ne assms(7) in simp)
    apply (rule bc.edit_vc [where sec = ?l], assumption)
     apply simp
    apply (rule bc.wr_vc [where sec = ?l], assumption)
     apply simp
    apply (rule bc.rel_vc [where sec = ?l], assumption)
      apply simp_all[2]
    subgoal premises p for lb v1 v2 v3 v4
    proof -
      let ?n = "if int i = lh_n u then lh_n u + 1 else lh_n u"
      let ?v = "if int i = lh_n u then v4\<lparr>lh_n := lh_n u + 1\<rparr> else v4"
      have v4: "bpost ?u1 ((bview u)(?l := bview u sec)) (bdirty u - {?l}) (bheld u)
          ((disk u)(?l := bview u sec)) (dtrace u @ [(?l, bview u sec)]) v4"
        using p(4) h by simp
      have "bpost (?u1\<lparr>lh_n := ?n\<rparr>) ((bview u)(?l := bview u sec)) (bdirty u - {?l}) (bheld u)
          ((disk u)(?l := bview u sec)) (dtrace u @ [(?l, bview u sec)]) ?v"
        using bpost_log_update(5) [OF v4] v4 by simp
      then have "runs (mark_dirty b) ?v (\<lambda>_. bpost (?u1\<lparr>lh_n := ?n\<rparr>) ((bview u)(?l := bview u sec))
          (insert sec (bdirty u - {?l})) (bheld u) ((disk u)(?l := bview u sec))
          (dtrace u @ [(?l, bview u sec)]))"
        by (rule mark_dirty_vc [where sec = sec]) (use assms(7) in simp_all)
      then show ?thesis using n [OF v4] by (simp add: runs_whenk split: if_splits)
    qed
    done
qed

text \<open>The header after the slot of \<open>sec\<close> has been filled in.\<close>

lemma log_slot_header:
  assumes "inj_on g {..<nat n}" and "0 \<le> n" and "i = log_slot g n sec"
    and "n' = (if int i = n then n + 1 else n)"
  shows "g(i := sec) ` {..<nat n'} = insert sec (g ` {..<nat n}) \<and> inj_on (g(i := sec)) {..<nat n'}
    \<and> i < nat n' \<and> int i \<le> n \<and> (\<forall>j < nat n'. j \<noteq> i \<longrightarrow> j < nat n \<and> g j \<noteq> sec)"
proof -
  consider "i < nat n" "g i = sec" "n' = n" | "i = nat n" "sec \<notin> g ` {..<nat n}" "n' = n + 1"
    using log_slot_cases [OF assms(1,2), of sec] assms(2,3,4) by auto
  then show ?thesis
  proof cases
    case 1
    then have g: "g(i := sec) = g" by auto
    show ?thesis using 1 assms(1) unfolding g by (auto simp: inj_on_def)
  next
    case 2
    have s: "{..<nat n'} = insert i {..<nat n}" using 2 assms(2) by auto
    have "g(i := sec) ` {..<nat n'} = insert sec (g ` {..<nat n})" "inj_on (g(i := sec)) {..<nat n'}"
      unfolding s using 2 assms(1) by (auto simp: inj_on_def)
    with 2 assms(2) show ?thesis by auto
  qed
qed

lemma tlog_law:
  assumes "in_trans u M" and "bheld u sec = Some b" and "lh_n u < LOGSIZE" and "lh_n u < lsize u - 1"
    and "card (dom (bheld u) \<union> lhset u) < NBUF"
  shows "runs (log_write b) u (\<lambda>_. tpost u (tview u) (insert sec (lhset u)) (M - {sec}) (bheld u))"
proof -
  define i where "i = log_slot (lh_sector u) (lh_n u) sec"
  define n' where "n' = (if int i = lh_n u then lh_n u + 1 else lh_n u)"
  let ?l = "lslot u i" and ?s = "u\<lparr>lh_sector := (lh_sector u)(i := sec), lh_n := n'\<rparr>"
  have tr: "bio_ok u" "log_geom u" "lbusy u" "0 \<le> lh_n u" "inj_on (lh_sector u) {..<nat (lh_n u)}"
    "bdirty u = lhset u" "dom (bheld u) \<inter> logsecs u = {}" "lhset u \<inter> logsecs u = {}"
    using assms(1) by (auto simp: in_trans_def)
  have hd: "(lh_sector u)(i := sec) ` {..<nat n'} = insert sec (lhset u)" "inj_on ((lh_sector u)(i := sec)) {..<nat n'}"
    "i < nat n'" "int i \<le> lh_n u" "\<forall>j < nat n'. j \<noteq> i \<longrightarrow> j < nat (lh_n u) \<and> lh_sector u j \<noteq> sec"
    using log_slot_header [OF tr(5,4) i_def n'_def] unfolding lhset_def by blast+
  have slot: "int i < lsize u - 1" using hd(4) assms(4) by simp
  have l: "?l \<in> logsecs u" "?l \<noteq> lstart u" using lslot_facts [OF tr(2) slot] by auto
  have sec: "sec \<notin> logsecs u" "bholds u sec b" using assms(2) tr(1,7) bheld_Some by (auto simp: bio_ok_def)
  then have ds: "sec < disksize u" using bholds_buf(2) tr(1) by (auto simp: bio_ok_def)
  have nh: "bheld u ?l = None" "?l \<notin> lhset u" using l(1) tr(7,8) by auto
  have card: "card (insert ?l (dom (bheld u) \<union> bdirty u)) \<le> NBUF"
    using assms(5) bheld_bdirty_finite [of u] tr(6) by (auto simp: card_insert_if)
  have "runs (log_write b) u (\<lambda>_. bpost ?s ((bview u)(?l := bview u sec)) (insert sec (bdirty u - {?l})) (bheld u)
      ((disk u)(?l := bview u sec)) (dtrace u @ [(?l, bview u sec)]))"
    unfolding n'_def by (rule log_write_runs [OF tr(1-4) assms(3,4,2) i_def hd(4) sec(1) nh(1) card])
  then show ?thesis
  proof (rule runs_mono)
    fix t
    assume t: "bpost ?s ((bview u)(?l := bview u sec)) (insert sec (bdirty u - {?l})) (bheld u)
      ((disk u)(?l := bview u sec)) (dtrace u @ [(?l, bview u sec)]) t"
    then have fr: "bframe ?s t" by (simp add: bpost_def)
    note f = bframe_log [OF fr] bframe_same(2) [OF fr] bframe_geom [OF fr]
    have lh: "lhset t = insert sec (lhset u)" using hd(1) unfolding lhset_def [of t] f by simp
    have gs: "logsecs ?s = logsecs u" "log_geom ?s = log_geom u" "\<And>j. lslot ?s j = lslot u j"
      by (simp_all add: log_cleared)
    have n: "0 \<le> n'" "n' \<le> LOGSIZE" "n' \<le> lsize u - 1" using tr(4) assms(3,4) by (auto simp: n'_def)
    have cp: "disk t (lslot u j) = bview t ((lh_sector t) j)"
      if "j < nat n'" "(lh_sector t) j \<notin> M - {sec}" for j
    proof (cases "j = i")
      case True
      with t sec(1) l(1) show ?thesis by (auto simp: bpost_def f)
    next
      case False
      with hd(5) that(1) have j: "j < nat (lh_n u)" "lh_sector u j \<noteq> sec" by auto
      then have "lslot u j \<noteq> ?l" using lslot_inj [OF tr(2) _ slot, of j] False assms(4) by simp
      moreover have "lh_sector u j \<noteq> ?l" using nh(2) j(1) unfolding lhset_def by (metis imageI lessThan_iff)
      moreover have "disk u (lslot u j) = bview u (lh_sector u j)"
        using assms(1) that(2) j False by (auto simp: in_trans_def f)
      ultimately show ?thesis using t False by (simp add: bpost_def f)
    qed
    have "in_trans t (M - {sec})"
      using assms(1) t lh gs n cp hd(2) l nh(2) sec(1) ds unfolding in_trans_def bpost_def f
      by auto
    moreover have "tview t = tview u" using t l(1) by (auto simp: tview_def bpost_def f gs)
    moreover have "tframe u t"
      using bframe_tframe [OF fr] by (elim tframeE) (auto simp: tframe_def)
    ultimately show "tpost u (tview u) (insert sec (lhset u)) (M - {sec}) (bheld u) t"
      using t l(1) lh by (auto simp: tpost_def bpost_def)
  qed
qed

section \<open>Begin and commit\<close>

lemma cache_ptable_update [simp]:
  "bio_ok (s\<lparr>ptable := p\<rparr>) = bio_ok s" "bview (s\<lparr>ptable := p\<rparr>) = bview s"
  "bheld (s\<lparr>ptable := p\<rparr>) = bheld s" "bdirty (s\<lparr>ptable := p\<rparr>) = bdirty s"
  by (rule cache_cong; simp)+

lemma begin_trans_run:
  assumes "quiet s"
  shows "begin_trans s = (if lbusy s then sleep ChLog LogLock (s\<lparr>lk := lk_acq LogLock (lk s)\<rparr>)
    else Ok () (s\<lparr>lbusy := True\<rparr>))"
  using assms by (simp add: begin_trans_def acquire_ok release_acq)

lemma log_idle_begin:
  assumes "log_idle s"
  shows "in_trans (s\<lparr>lbusy := True\<rparr>) {}" and "lhset (s\<lparr>lbusy := True\<rparr>) = {}" and "tview (s\<lparr>lbusy := True\<rparr>) = tview s"
proof -
  have lh: "lhset (s\<lparr>lbusy := True\<rparr>) = {}" using assms by (simp add: log_idle_def lhset_def)
  have "logsecs (s\<lparr>lbusy := True\<rparr>) = logsecs s" "log_geom (s\<lparr>lbusy := True\<rparr>) = log_geom s"
    by (simp_all add: logsecs_def log_geom_def)
  then show "in_trans (s\<lparr>lbusy := True\<rparr>) {}" "tview (s\<lparr>lbusy := True\<rparr>) = tview s"
    using assms lh by (auto simp: in_trans_def log_idle_def log_geom_def tview_def fun_eq_iff)
  show "lhset (s\<lparr>lbusy := True\<rparr>) = {}" by (rule lh)
qed

text \<open>The disk writes of a commit: the header with the commit record, the logged blocks at their
  places, and the header of an empty log.\<close>

definition commit_head :: "'z lmach_scheme \<Rightarrow> bytes" where
  "commit_head s = put_head (lh_n s) (lh_sector s) (bview s (lstart s))"

definition commit_writes :: "'z lmach_scheme \<Rightarrow> (u32 \<times> bytes) list" where
  "commit_writes s = (if lh_n s = 0 then [] else
     [(lstart s, commit_head s)]
     @ map (\<lambda>i. (lh_sector s i, bview s (lh_sector s i))) [0..<nat (lh_n s)]
     @ [(lstart s, put_head 0 (lh_sector s) (commit_head s))])"

lemma in_trans_slots:
  assumes "in_trans s {}" and "i < nat (lh_n s)"
  shows "bview s (lslot s i) = bview s (lh_sector s i)" and "disk s (lslot s i) = bview s (lh_sector s i)"
    and "lslot s i \<noteq> lstart s" and "lh_sector s i \<noteq> lstart s" and "lslot s i \<notin> lhset s"
proof -
  have i: "int i < lsize s - 1" "log_geom s" using assms by (auto simp: in_trans_def)
  show d: "disk s (lslot s i) = bview s (lh_sector s i)" using assms by (auto simp: in_trans_def)
  show nl: "lslot s i \<notin> lhset s" using lslot_facts(1) [OF i(2,1)] assms(1) by (auto simp: in_trans_def)
  then have "bview s (lslot s i) = disk s (lslot s i)" using assms(1) by (auto simp: in_trans_def)
  with d show "bview s (lslot s i) = bview s (lh_sector s i)" by simp
  show "lslot s i \<noteq> lstart s" using lslot_facts(3) [OF i(2,1)] .
  have "lh_sector s i \<in> lhset s" using assms(2) by (auto simp: lhset_def)
  then show "lh_sector s i \<noteq> lstart s" using assms(1) lstart_facts(1) [OF i(2)] by (auto simp: in_trans_def)
qed

lemma lhset_card: "in_trans s M \<Longrightarrow> card (lhset s) = nat (lh_n s)"
  by (simp add: in_trans_def lhset_def card_image)

text \<open>The part of \<open>commit_trans\<close> that writes the disk.\<close>

lemma commit_body_runs:
  assumes "in_trans s {}" and "bheld s = Map.empty" and "0 < lh_n s" and "lh_n s < int NBUF"
  shows "runs (thenk write_head (thenk install_trans (thenk (modk (\<lambda>s. s\<lparr>lh_n := 0\<rparr>)) write_head))) s
    (\<lambda>_. bpost (s\<lparr>lh_n := 0\<rparr>) ((bview s)(lstart s := put_head 0 (lh_sector s) (commit_head s))) {} Map.empty
       ((bview s)(lstart s := put_head 0 (lh_sector s) (commit_head s))) (dtrace s @ commit_writes s))"
proof -
  let ?n = "nat (lh_n s)" and ?sec = "lh_sector s" and ?V1 = "(bview s)(lstart s := commit_head s)"
  let ?k1 = "(disk s)(lstart s := commit_head s)" and ?L = "lhset s"
  have tr: "bio_ok s" "log_geom s" "bdirty s = ?L" "lh_n s \<le> lsize s - 1" "?L \<inter> logsecs s = {}"
    "\<And>x. x \<in> ?L \<Longrightarrow> x < disksize s" "inj_on ?sec {..<?n}" "\<And>x. x \<notin> ?L \<Longrightarrow> bview s x = disk s x"
    using assms(1) by (auto simp: in_trans_def)
  have mem: "?sec i \<in> ?L" if "i < ?n" for i using that by (auto simp: lhset_def)
  have fin: "finite ?L" by (simp add: lhset_def)
  have card: "card ?L < NBUF" using lhset_card [OF assms(1)] assms(4) by simp
  have ls: "lstart s \<notin> ?L" "?L - {lstart s} = ?L" using lstart_facts(1) [OF tr(2)] tr(5) by auto
  have 0: "bpost s (bview s) ?L Map.empty (disk s) (dtrace s) s"
    using bpost_start [OF tr(1)] assms(2) tr(3) by simp
  have 1: "runs write_head s (\<lambda>_. bpost s ?V1 ?L Map.empty ?k1 (dtrace s @ [(lstart s, commit_head s)]))"
    using write_head_runs [OF 0 tr(2)] card fin ls unfolding commit_head_def by (simp add: card_insert_if)
  have c: "?V1 (lslot s i) = ?V1 (?sec i)" if "i < ?n" for i
    using in_trans_slots [OF assms(1) that] by simp
  have V2: "inst ?sec (\<lambda>i. ?V1 (lslot s i)) [0..<?n] ?V1 = ?V1" by (rule inst_agree) (use c in simp)
  have k2: "inst ?sec (\<lambda>i. ?V1 (lslot s i)) [0..<?n] ?k1 = ?V1"
  proof
    fix x
    show "inst ?sec (\<lambda>i. ?V1 (lslot s i)) [0..<?n] ?k1 x = ?V1 x"
    proof (cases "x \<in> ?L")
      case True
      then obtain i where i: "i < ?n" "x = ?sec i" by (auto simp: lhset_def)
      have "inst ?sec (\<lambda>i. ?V1 (lslot s i)) [0..<?n] ?k1 (?sec i) = ?V1 (lslot s i)"
        by (rule inst_at) (use i tr(7) in \<open>auto simp: atLeast0LessThan\<close>)
      with i c show ?thesis by simp
    next
      case False
      then have "x \<notin> ?sec ` set [0..<?n]" by (auto simp: lhset_def)
      then show ?thesis using inst_other [of x ?sec "[0..<?n]"] tr(8) [OF False] by simp
    qed
  qed
  let ?w2 = "dtrace s @ (lstart s, commit_head s) # map (\<lambda>i. (?sec i, bview s (?sec i))) [0..<?n]"
  have D2: "?L - ?sec ` set [0..<?n] = {}" by (auto simp: lhset_def)
  have w2: "map (\<lambda>i. (?sec i, ?V1 (lslot s i))) [0..<?n] = map (\<lambda>i. (?sec i, bview s (?sec i))) [0..<?n]"
    by (rule map_cong [OF refl]) (use in_trans_slots [OF assms(1)] in simp)
  have 2: "runs install_trans v (\<lambda>_. bpost s ?V1 {} Map.empty ?V1 ?w2)"
    if v: "bpost s ?V1 ?L Map.empty ?k1 (dtrace s @ [(lstart s, commit_head s)]) v" for v
  proof -
    have pre: "\<And>i. i < ?n \<Longrightarrow> ?sec i \<notin> logsecs s \<and> ?sec i < disksize s" "\<And>x. x \<in> logsecs s \<Longrightarrow> ?V1 x = ?k1 x"
      "\<And>i. i < ?n \<Longrightarrow> card (insert (?sec i) ?L) < NBUF"
      using mem tr(5,6,8) card by (auto simp: insert_absorb simp del: NBUF_def)
    show ?thesis
      using install_trans_runs [OF v tr(2,4) pre(1,2) tr(5) pre(3) fin] unfolding V2 k2 D2 w2 by simp
  qed
  let ?s0 = "s\<lparr>lh_n := 0\<rparr>" and ?h0 = "put_head 0 ?sec (commit_head s)"
  have 3: "runs write_head v (\<lambda>_. bpost ?s0 (?V1(lstart s := ?h0)) {} Map.empty (?V1(lstart s := ?h0)) (?w2 @ [(lstart s, ?h0)]))"
    if "bpost ?s0 ?V1 {} Map.empty ?V1 ?w2 v" for v
    using write_head_runs [OF that] tr(2) by (simp add: log_cleared)
  have fin: "?V1(lstart s := ?h0) = (bview s)(lstart s := ?h0)" "?w2 @ [(lstart s, ?h0)] = dtrace s @ commit_writes s"
    using assms(3) by (simp_all add: commit_writes_def)
  show ?thesis unfolding runs_vc
    by (rule runs_mono [OF 1], rule runs_mono [OF 2], assumption)
      (rule 3 [unfolded fin], rule bpost_log_update)
qed

lemma commit_trans_runs:
  assumes "in_trans s {}" and "bheld s = Map.empty" and "lh_n s < int NBUF"
  shows "runs commit_trans s (\<lambda>_ t. log_idle t \<and> bheld t = Map.empty \<and> tframe (s\<lparr>lbusy := False\<rparr>) t
    \<and> (\<forall>x. x \<notin> logsecs s \<longrightarrow> disk t x = bview s x) \<and> dtrace t = dtrace s @ commit_writes s)"
proof -
  let ?h0 = "put_head 0 (lh_sector s) (commit_head s)"
  let ?V = "if lh_n s = 0 then bview s else (bview s)(lstart s := ?h0)"
  have tr: "bio_ok s" "log_geom s" "0 \<le> lh_n s" "bdirty s = lhset s" "head_n (disk s (lstart s)) = 0"
    "\<And>x. x \<notin> lhset s \<Longrightarrow> bview s x = disk s x" using assms(1) by (auto simp: in_trans_def)
  have nl: "lstart s \<notin> lhset s" using assms(1) lstart_facts(1) [OF tr(2)] by (auto simp: in_trans_def)
  have body: "runs (whenk (0 < lh_n s) (thenk write_head (thenk install_trans
      (thenk (modk (\<lambda>s. s\<lparr>lh_n := 0\<rparr>)) write_head)))) s
    (\<lambda>_. bpost (s\<lparr>lh_n := 0\<rparr>) ?V {} Map.empty ?V (dtrace s @ commit_writes s))"
  proof (cases "lh_n s = 0")
    case True
    then have "lhset s = {}" by (simp add: lhset_def)
    then have "bview s = disk s" "bdirty s = {}" using tr(4,6) by auto
    moreover have e: "s\<lparr>lh_n := 0\<rparr> = s" using True by simp
    ultimately show ?thesis
      unfolding e using True bpost_start [OF tr(1)] assms(2) by (simp add: commit_writes_def)
  next
    case False
    then show ?thesis
      using commit_body_runs [OF assms(1,2) _ assms(3)] tr(3) by (simp del: runs_thenk NBUF_def)
  qed
  have hd: "head_n (?V (lstart s)) = 0"
    using tr(5) tr(6) [OF nl] head_put_head(1) [of 0 "lh_sector s"] by simp
  have fin: "runs (thenk (acquire LogLock) (thenk (modk (\<lambda>s. s\<lparr>lbusy := False\<rparr>)) (thenk (wakeup ChLog) (release LogLock)))) u
     (\<lambda>_ t. log_idle t \<and> bheld t = Map.empty \<and> tframe (s\<lparr>lbusy := False\<rparr>) t
    \<and> (\<forall>x. x \<notin> logsecs s \<longrightarrow> disk t x = bview s x) \<and> dtrace t = dtrace s @ commit_writes s)"
    if u: "bpost (s\<lparr>lh_n := 0\<rparr>) ?V {} Map.empty ?V (dtrace s @ commit_writes s) u" for u
  proof -
    let ?t = "u\<lparr>lbusy := False, ptable := wake (Some ChLog) (ptable u)\<rparr>"
    have q: "quiet u" using u by (simp add: bpost_def bio_ok_def)
    have r: "thenk (acquire LogLock) (thenk (modk (\<lambda>s. s\<lparr>lbusy := False\<rparr>)) (thenk (wakeup ChLog) (release LogLock))) u = Ok () ?t"
      using q by (simp add: acquire_ok release_acq wakeup_run)
    have fr: "bframe (s\<lparr>lh_n := 0\<rparr>) u" using u by (simp add: bpost_def)
    note f = bframe_log [OF fr] bframe_same(2) [OF fr]
    have "logsecs ?t = logsecs s" "log_geom ?t" using tr(2) f by (simp_all add: logsecs_def log_geom_def)
    then have "log_idle ?t" using u hd f by (simp add: log_idle_def bpost_def)
    moreover have "tframe (s\<lparr>lbusy := False\<rparr>) ?t"
      using bframe_tframe [OF fr] pt_woken_trans [OF _ pt_woken_wake]
      by (elim tframeE) (auto simp: tframe_def)
    moreover have "disk ?t x = bview s x" if "x \<notin> logsecs s" for x
      using u that lstart_facts(1) [OF tr(2)] by (auto simp: bpost_def)
    ultimately have "log_idle ?t \<and> bheld ?t = Map.empty \<and> tframe (s\<lparr>lbusy := False\<rparr>) ?t
        \<and> (\<forall>x. x \<notin> logsecs s \<longrightarrow> disk ?t x = bview s x) \<and> dtrace ?t = dtrace s @ commit_writes s"
      using u by (simp add: bpost_def)
    then show ?thesis by (rule runsI [where m = "thenk (acquire LogLock) n" for n, OF r])
  qed
  show ?thesis
    unfolding commit_trans_def runs_bindk runs_simps runs_thenk [of "whenk c m" for c m]
    by (rule runs_mono [OF body fin])
qed

section \<open>Crashes\<close>

text \<open>The disk after a sequence of writes; a crash keeps a prefix of them.\<close>

definition replay :: "(u32 \<times> bytes) list \<Rightarrow> (u32 \<Rightarrow> bytes) \<Rightarrow> (u32 \<Rightarrow> bytes)" where
  "replay ws d = foldl (\<lambda>d (x, c). d(x := c)) d ws"

lemma replay_simps:
  "replay [] d = d" "replay ((x, c) # ws) d = replay ws (d(x := c))"
  by (simp_all add: replay_def)

lemma replay_append: "replay (xs @ ys) d = replay ys (replay xs d)"
  by (simp add: replay_def)

lemma replay_map: "replay (map (\<lambda>i. (sec i, c i)) ys) d = inst sec c ys d"
  by (simp add: replay_def inst_def foldl_map)

text \<open>\<open>part s j\<close>: the disk when \<open>j\<close> of the logged blocks have been installed.\<close>

definition part :: "'z lmach_scheme \<Rightarrow> nat \<Rightarrow> (u32 \<Rightarrow> bytes)" where
  "part s j = inst (lh_sector s) (\<lambda>i. bview s (lh_sector s i)) [0..<j] ((disk s)(lstart s := commit_head s))"

lemma part_log:
  assumes "in_trans s {}" and "j \<le> nat (lh_n s)"
  shows "x \<in> logsecs s \<Longrightarrow> part s j x = ((disk s)(lstart s := commit_head s)) x"
proof -
  assume "x \<in> logsecs s"
  moreover have "lhset s \<inter> logsecs s = {}" using assms(1) by (simp add: in_trans_def)
  moreover have "lh_sector s ` set [0..<j] \<subseteq> lhset s" using assms(2) by (auto simp: lhset_def)
  ultimately have "x \<notin> lh_sector s ` set [0..<j]" by blast
  then show ?thesis unfolding part_def by (rule inst_other)
qed

lemma part_data:
  assumes "in_trans s {}" and "j \<le> nat (lh_n s)" and "x \<notin> logsecs s" and "x \<in> lhset s \<longrightarrow> j = nat (lh_n s)"
  shows "part s j x = bview s x"
proof (cases "x \<in> lhset s")
  case True
  then obtain i where i: "i < nat (lh_n s)" "x = lh_sector s i" by (auto simp: lhset_def)
  have "inj_on (lh_sector s) (set [0..<j])"
    using assms(1,2) by (auto simp: in_trans_def intro: inj_on_subset)
  then show ?thesis
    unfolding part_def i(2) by (intro inst_at) (use i(1) True assms(4) in auto)
next
  case False
  then have n: "x \<notin> lh_sector s ` set [0..<j]" using assms(2) by (auto simp: lhset_def)
  have "x \<noteq> lstart s" using assms(1,3) lstart_facts(1) by (auto simp: in_trans_def)
  with False show ?thesis
    unfolding part_def inst_other [OF n] using assms(1) by (auto simp: in_trans_def)
qed

lemma commit_writes_split:
  assumes "0 < lh_n s"
  shows "commit_writes s = (lstart s, commit_head s)
    # map (\<lambda>i. (lh_sector s i, bview s (lh_sector s i))) [0..<nat (lh_n s)]
    @ [(lstart s, put_head 0 (lh_sector s) (commit_head s))]"
  using assms by (simp add: commit_writes_def)

lemma replay_commit_part:
  assumes "0 < lh_n s" and "j \<le> nat (lh_n s)"
  shows "replay (take (Suc j) (commit_writes s)) (disk s) = part s j"
proof -
  have "take (Suc j) (commit_writes s) = (lstart s, commit_head s)
      # map (\<lambda>i. (lh_sector s i, bview s (lh_sector s i))) [0..<j]"
    using assms(2) unfolding commit_writes_split [OF assms(1)] by (simp add: take_map)
  then show ?thesis by (simp only: replay_simps replay_map part_def)
qed

lemma replay_commit_all:
  assumes "0 < lh_n s"
  shows "replay (commit_writes s) (disk s) =
    (part s (nat (lh_n s)))(lstart s := put_head 0 (lh_sector s) (commit_head s))"
proof -
  have "commit_writes s = ((lstart s, commit_head s)
      # map (\<lambda>i. (lh_sector s i, bview s (lh_sector s i))) [0..<nat (lh_n s)])
      @ [(lstart s, put_head 0 (lh_sector s) (commit_head s))]"
    by (simp add: commit_writes_split [OF assms])
  then show ?thesis by (simp only: replay_append replay_simps replay_map part_def)
qed

text \<open>Recovery of any prefix of a commit: nothing of the transaction if the commit record was not
  written, all of it otherwise.\<close>

lemma recovered_empty: "head_n (d (lstart s)) = 0 \<Longrightarrow> recovered s d = d \<and> (2 \<le> lsize s \<longrightarrow> head_ok s d)"
  by (simp add: recovered_def head_ok_def)

lemma recovered_part:
  assumes "in_trans s {}" and "0 < lh_n s" and "j \<le> nat (lh_n s)" and "x \<notin> logsecs s"
  shows "recovered s (part s j) x = bview s x" and "head_ok s (part s j)"
proof -
  let ?d = "part s j" and ?n = "nat (lh_n s)"
  have tr: "log_geom s" "0 \<le> lh_n s" "lh_n s \<le> LOGSIZE" "lh_n s \<le> lsize s - 1" "lhset s \<inter> logsecs s = {}"
    "\<forall>x \<in> lhset s. x < disksize s" "inj_on (lh_sector s) {..<?n}" using assms(1) by (auto simp: in_trans_def)
  have h: "?d (lstart s) = commit_head s"
    using part_log [OF assms(1,3) lstart_facts(1) [OF tr(1)]] by simp
  have n: "head_n (commit_head s) = lh_n s" "\<And>i. i < ?n \<Longrightarrow> head_sec (commit_head s) i = lh_sector s i"
    using head_put_head [OF tr(2,3)] by (simp_all add: commit_head_def)
  have mem: "lh_sector s i \<in> lhset s" if "i < ?n" for i using that by (auto simp: lhset_def)
  show "head_ok s ?d"
    unfolding head_ok_def Let_def h n(1) using tr(3-6) mem n(2) by auto
  have c: "?d (lslot s i) = bview s (lh_sector s i)" if "i < ?n" for i
    using part_log [OF assms(1,3)] lslot_facts(1) [OF tr(1)] in_trans_slots [OF assms(1) that] that tr(4) by simp
  have r: "recovered s ?d = inst (lh_sector s) (\<lambda>i. bview s (lh_sector s i)) [0..<?n] ?d"
    unfolding recovered_def Let_def h n(1)
    by (rule trans [OF inst_cong_sec inst_cong]) (use n(2) c in auto)
  show "recovered s ?d x = bview s x"
  proof (cases "x \<in> lhset s")
    case True
    then obtain i where i: "i < ?n" "x = lh_sector s i" by (auto simp: lhset_def)
    show ?thesis unfolding r i(2)
      by (rule inst_at) (use i(1) tr(7) in \<open>auto simp: atLeast0LessThan\<close>)
  next
    case False
    then have "x \<notin> lh_sector s ` set [0..<?n]" by (auto simp: lhset_def)
    then show ?thesis
      unfolding r using inst_other part_data [OF assms(1,3,4)] False by metis
  qed
qed

lemma recovered_commit:
  assumes "in_trans s {}" and "k \<le> length (commit_writes s)" and "x \<notin> logsecs s"
    and "d = replay (take k (commit_writes s)) (disk s)"
  shows "recovered s d x = (if k = 0 then disk s x else bview s x) \<and> head_ok s d"
proof (cases "k = 0")
  case True
  then have "d = disk s" using assms(4) by (simp add: replay_simps)
  moreover have "head_n (disk s (lstart s)) = 0" "2 \<le> lsize s"
    using assms(1) by (simp_all add: in_trans_def log_geom_def)
  ultimately show ?thesis using True recovered_empty [of d s] by simp
next
  case False
  then obtain j where j: "k = Suc j" by (cases k) auto
  have n: "0 < lh_n s" using False assms(1,2) by (auto simp: commit_writes_def in_trans_def split: if_splits)
  show ?thesis
  proof (cases "j \<le> nat (lh_n s)")
    case True
    then show ?thesis
      using recovered_part [OF assms(1) n True assms(3)] replay_commit_part [OF n True] assms(4) j by simp
  next
    case no: False
    let ?h0 = "put_head 0 (lh_sector s) (commit_head s)"
    have "k = length (commit_writes s)" using assms(2) j no by (simp add: commit_writes_split [OF n])
    then have d: "d = (part s (nat (lh_n s)))(lstart s := ?h0)"
      using assms(4) replay_commit_all [OF n] by simp
    have g: "log_geom s" using assms(1) by (simp add: in_trans_def)
    have x: "x \<noteq> lstart s" using assms(3) lstart_facts(1) [OF g] by auto
    have "head_n (d (lstart s)) = 0" using d head_put_head(1) [of 0] by simp
    moreover have "d x = bview s x" using d x part_data [OF assms(1) le_refl assms(3)] by simp
    ultimately show ?thesis using recovered_empty [of d s] False g by (simp add: log_geom_def)
  qed
qed

text \<open>What a starting kernel does to cache and log: \<open>binit\<close> from \<^verbatim>\<open>main\<close>, \<open>initlog\<close> from the first
  \<^verbatim>\<open>forkret\<close>.\<close>

definition boot :: "('z lmach_scheme, unit) kern" where
  "boot = thenk binit initlog"

text \<open>A machine restarted with disk \<open>d\<close>: memory is zeroed, no lock is held. (The fields that
  recovery does not use keep their values.)\<close>

definition reboot :: "(u32 \<Rightarrow> bytes) \<Rightarrow> 'z lmach_scheme \<Rightarrow> 'z lmach_scheme" where
  "reboot d s = s\<lparr>lk := lk0, bufs := (\<lambda>_. buf0), bnext := (\<lambda>_. 0), bprev := (\<lambda>_. 0), disk := d,
     lstart := 0, lsize := 0, lbusy := False, ldev := 0, lh_n := 0, lh_sector := (\<lambda>_. 0)\<rparr>"

lemma more_log:
  assumes "bmach.more t = bmach.more s"
  shows "lbusy t = lbusy s" and "lmach.more t = lmach.more s"
  using assms by (cases s; cases t; simp)+

text \<open>The superblock on disk \<open>d\<close> says where the log of \<open>s\<close> is.\<close>

definition sb_matches :: "'z lmach_scheme \<Rightarrow> (u32 \<Rightarrow> bytes) \<Rightarrow> bool" where
  "sb_matches s d \<longleftrightarrow> lstart s = sb_size (get_sb (d 1)) - sb_nlog (get_sb (d 1))
     \<and> lsize s = sint (sb_nlog (get_sb (d 1))) \<and> ldev s = ROOTDEV \<and> 1 < disksize s"

lemma reboot_recovers:
  assumes "sb_matches s d" and "log_geom s" and "head_ok s d"
  shows "runs boot (reboot d s) (\<lambda>_ t. log_idle t \<and> bheld t = Map.empty
    \<and> logsecs t = logsecs s \<and> (\<forall>x. x \<notin> logsecs s \<longrightarrow> disk t x = recovered s d x)
    \<and> dtrace t = dtrace s @ recover_writes s d
    \<and> lstart t = lstart s \<and> lsize t = lsize s \<and> ldev t = ldev s \<and> disksize t = disksize s)"
proof -
  let ?r = "reboot d s"
  have r: "quiet ?r" "disk ?r = d" "disksize ?r = disksize s" "bufs ?r = (\<lambda>_. buf0)" "\<not> lbusy ?r"
    by (simp_all add: reboot_def quiet_lk0)
  show ?thesis
    unfolding boot_def runs_thenk
  proof (rule runs_mono [OF binit_runs])
    show "quiet ?r" by (rule r(1))
    show "\<not> b_busy (bufs ?r b) \<and> \<not> b_valid (bufs ?r b) \<and> \<not> b_dirty (bufs ?r b)" for b
      unfolding r(4) by (simp add: buf0_def)
  next
    fix x u
    assume u: "bio_ok u \<and> bview u = disk ?r \<and> disk u = disk ?r \<and> bdirty u = {} \<and> bheld u = Map.empty
      \<and> disksize u = disksize ?r \<and> dtrace u = dtrace ?r \<and> bmach.more u = bmach.more ?r
      \<and> (\<forall>sec b. \<not> bcached u sec b)"
    then have nb: "\<not> lbusy u" using more_log(1) [of u ?r] r(5) by simp
    let ?a = "log_at d u"
    have g: "lstart ?a = lstart s" "lsize ?a = lsize s" "ldev ?a = ldev s" "disksize ?a = disksize s"
      using assms(1) u r by (simp_all add: log_at_def sb_matches_def)
    then have e: "logsecs ?a = logsecs s" "log_geom ?a = log_geom s" "lslot ?a = lslot s"
      by (simp_all add: logsecs_def log_geom_def lslot_def fun_eq_iff)
    then have "head_ok ?a d = head_ok s d" "recovered ?a d = recovered s d" "recover_writes ?a d = recover_writes s d"
      using g by (simp_all add: head_ok_def recovered_def recover_writes_def)
    note e = e this
    have ne: "x \<noteq> lstart s" if "x \<notin> logsecs s" for x using that lstart_facts(1) [OF assms(2)] by auto
    have "runs initlog u (\<lambda>_ t. log_idle t \<and> bheld t = Map.empty \<and> logsecs t = logsecs ?a
      \<and> lstart t = lstart ?a \<and> lsize t = lsize ?a \<and> ldev t = ROOTDEV \<and> disksize t = disksize u \<and> lmach.more t = lmach.more u
      \<and> dtrace t = dtrace u @ recover_writes ?a d
      \<and> (\<forall>x. x \<noteq> lstart t \<longrightarrow> disk t x = recovered ?a d x))"
      by (rule initlog_runs) (use u r nb assms e in \<open>auto simp: sb_matches_def\<close>)
    then show "runs initlog u (\<lambda>_ t. log_idle t \<and> bheld t = Map.empty
      \<and> logsecs t = logsecs s \<and> (\<forall>x. x \<notin> logsecs s \<longrightarrow> disk t x = recovered s d x)
      \<and> dtrace t = dtrace s @ recover_writes s d
      \<and> lstart t = lstart s \<and> lsize t = lsize s \<and> ldev t = ldev s \<and> disksize t = disksize s)"
      by (rule runs_mono) (use g assms(1) e(1) e(5) e(6) ne u in \<open>auto simp: reboot_def sb_matches_def\<close>)
  qed
qed

section \<open>The transactional disk as an interface\<close>

text \<open>
  What the file system relies on inside a transaction. \<open>tr s M\<close>: the blocks of \<open>M\<close> have been
  changed and not yet logged; such a block cannot be released. \<open>view\<close> is the content of the
  disk as the transaction sees it, \<open>logged\<close> the blocks it has logged, \<open>room\<close> the number of
  blocks it may log and \<open>cap\<close> the number of buffers.
\<close>

locale trans_disk =
  fixes tr :: "'s \<Rightarrow> u32 set \<Rightarrow> bool" and view :: "'s \<Rightarrow> u32 \<Rightarrow> bytes" and logged :: "'s \<Rightarrow> u32 set"
    and heldb :: "'s \<Rightarrow> u32 \<Rightarrow> nat option" and nsec :: "'s \<Rightarrow> u32" and reserved :: "'s \<Rightarrow> u32 set"
    and room :: "'s \<Rightarrow> nat" and cap :: nat
    and post :: "'s \<Rightarrow> (u32 \<Rightarrow> bytes) \<Rightarrow> u32 set \<Rightarrow> u32 set \<Rightarrow> (u32 \<Rightarrow> nat option) \<Rightarrow> 's \<Rightarrow> bool"
    and rd :: "u32 \<Rightarrow> ('s, nat) kern" and look :: "nat \<Rightarrow> ('s, bytes) kern"
    and edit :: "nat \<Rightarrow> (bytes \<Rightarrow> bytes) \<Rightarrow> ('s, unit) kern" and logw :: "nat \<Rightarrow> ('s, unit) kern"
    and rel :: "nat \<Rightarrow> ('s, unit) kern"
  assumes post_now: "post s V L M H t \<Longrightarrow> tr t M \<and> view t = V \<and> logged t = L \<and> heldb t = H
        \<and> nsec t = nsec s \<and> reserved t = reserved s \<and> room t = room s"
    and post_trans: "post s V L M H t \<Longrightarrow> post t V' L' M' H' u \<Longrightarrow> post s V' L' M' H' u"
    and rd_law: "tr s M \<Longrightarrow> sec \<notin> reserved s \<Longrightarrow> sec < nsec s \<Longrightarrow> heldb s sec = None \<Longrightarrow>
        card (insert sec (dom (heldb s) \<union> logged s)) \<le> cap \<Longrightarrow>
        runs (rd sec) s (\<lambda>b. post s (view s) (logged s) M ((heldb s)(sec \<mapsto> b)))"
    and look_law: "tr s M \<Longrightarrow> heldb s sec = Some b \<Longrightarrow> look b s = Ok (view s sec) s"
    and edit_law: "tr s M \<Longrightarrow> heldb s sec = Some b \<Longrightarrow>
        runs (edit b f) s (\<lambda>_. post s ((view s)(sec := f (view s sec))) (logged s) (insert sec M) (heldb s))"
    and logw_law: "tr s M \<Longrightarrow> heldb s sec = Some b \<Longrightarrow> card (logged s) < room s \<Longrightarrow>
        card (dom (heldb s) \<union> logged s) < cap \<Longrightarrow>
        runs (logw b) s (\<lambda>_. post s (view s) (insert sec (logged s)) (M - {sec}) (heldb s))"
    and rel_law: "tr s M \<Longrightarrow> heldb s sec = Some b \<Longrightarrow> sec \<notin> M \<Longrightarrow>
        runs (rel b) s (\<lambda>_. post s (view s) (logged s) M ((heldb s)(sec := None)))"
begin

text \<open>The laws as rules for a sequence of operations that started in \<open>s\<close> and that holds and logs
  only blocks of the set \<open>X\<close>, which is small enough for the log and the cache.\<close>

lemma rd_vc:
  assumes "post s V L M H u" and "L \<union> dom H \<subseteq> X" and "finite X" and "card X < cap"
    and "sec \<notin> reserved s" and "sec < nsec s" and "H sec = None"
    and "\<And>b v. post s V L M (H(sec \<mapsto> b)) v \<Longrightarrow> Q b v"
  shows "runs (rd sec) u Q"
proof -
  have "card (insert sec (dom H \<union> L)) \<le> Suc (card (dom H \<union> L))" by (rule card_insert_le_m1) auto
  also have "card (dom H \<union> L) \<le> card X" by (rule card_mono) (use assms(2,3) in auto)
  finally have "card (insert sec (dom H \<union> L)) \<le> cap" using assms(4) by simp
  then show ?thesis
    using rd_law [of u M sec] post_now [OF assms(1)] assms(5-7)
    by (auto elim!: runs_mono intro!: assms(8) intro: post_trans [OF assms(1)])
qed

lemma look_vc:
  assumes "post s V L M H u" and "H sec = Some b" and "Q (V sec) u"
  shows "runs (look b) u Q"
  using look_law [of u M sec b] post_now [OF assms(1)] assms(2,3) by (auto simp: runs_Ok)

lemma edit_vc:
  assumes "post s V L M H u" and "H sec = Some b"
    and "\<And>v. post s (V(sec := f (V sec))) L (insert sec M) H v \<Longrightarrow> Q () v"
  shows "runs (edit b f) u Q"
  using edit_law [of u M sec b f] post_now [OF assms(1)] assms(2)
  by (auto elim!: runs_mono intro!: assms(3) intro: post_trans [OF assms(1)])

lemma logw_vc:
  assumes "post s V L M H u" and "L \<union> dom H \<subseteq> X" and "finite X" and "card X < cap" and "card X < room s"
    and "H sec = Some b" and "\<And>v. post s V (insert sec L) (M - {sec}) H v \<Longrightarrow> Q () v"
  shows "runs (logw b) u Q"
proof -
  have "card (dom H \<union> L) \<le> card X" "card L \<le> card X" by (rule card_mono; use assms(2,3) in auto)+
  then show ?thesis
    using logw_law [of u M sec b] post_now [OF assms(1)] assms(4-6)
    by (auto elim!: runs_mono intro!: assms(7) intro: post_trans [OF assms(1)])
qed

lemma rel_vc:
  assumes "post s V L M H u" and "H sec = Some b" and "sec \<notin> M"
    and "\<And>v. post s V L M (H(sec := None)) v \<Longrightarrow> Q () v"
  shows "runs (rel b) u Q"
  using rel_law [of u M sec b] post_now [OF assms(1)] assms(2,3)
  by (auto elim!: runs_mono intro!: assms(4) intro: post_trans [OF assms(1)])

text \<open>Read a block, and change a block through the log: the two ways the file system uses it.\<close>

lemma read_block:
  assumes "post s V L M H u" and "L \<union> dom H \<subseteq> X" and "finite X" and "card X < cap"
    and "sec \<notin> reserved s" and "sec < nsec s" and "H sec = None" and "sec \<notin> M"
    and "\<And>v. post s V L M H v \<Longrightarrow> Q (V sec) v"
  shows "runs (bindk (rd sec) (\<lambda>b. bindk (look b) (\<lambda>d. thenk (rel b) (retk d)))) u Q"
proof -
  have h: "H(sec := None) = H" using assms(7) by auto
  show ?thesis
    unfolding runs_vc
    apply (rule rd_vc [OF assms(1-7)])
    apply (rule look_vc [where sec = sec], assumption, simp)
    apply (rule rel_vc [where sec = sec], assumption, simp, rule assms(8))
    using assms(9) h by simp
qed

lemma update_block:
  assumes "post s V L M H u" and "L \<union> dom H \<subseteq> X" and "finite X" and "card X < cap" and "card X < room s"
    and "sec \<notin> reserved s" and "sec < nsec s" and "H sec = None" and "sec \<in> X" and "sec \<notin> M"
    and "\<And>v. post s (V(sec := f (V sec))) (insert sec L) M H v \<Longrightarrow> Q () v"
  shows "runs (bindk (rd sec) (\<lambda>b. thenk (edit b f) (thenk (logw b) (rel b)))) u Q"
proof -
  have h: "(H(sec := None)) = H" "insert sec M - {sec} = M" using assms(8,10) by auto
  show ?thesis
    unfolding runs_vc
    apply (rule rd_vc [OF assms(1-4,6-8)])
    apply (rule edit_vc [where sec = sec], assumption, simp)
    apply (rule logw_vc [where sec = sec and X = X], assumption)
         apply (use assms(2-5,9) in auto)[5]
    apply (rule rel_vc [where sec = sec], assumption)
      apply simp
    using assms(10,11) h by simp_all
qed

end

definition log_room :: "'z lmach_scheme \<Rightarrow> nat" where
  "log_room s = nat (min LOGSIZE (lsize s - 1))"

interpretation td: trans_disk in_trans tview lhset bheld disksize logsecs log_room NBUF tpost
    "bread 1" bp_data set_data log_write brelse
proof unfold_locales
  fix s t u :: "'z lmach_scheme" and V V' :: "u32 \<Rightarrow> bytes" and L L' M M' :: "u32 set" and H H' :: "u32 \<Rightarrow> nat option"
    and sec b and f
  show "tpost s V L M H t \<Longrightarrow> in_trans t M \<and> tview t = V \<and> lhset t = L \<and> bheld t = H
        \<and> disksize t = disksize s \<and> logsecs t = logsecs s \<and> log_room t = log_room s"
    using tframe_same [of s t] by (simp add: tpost_def log_room_def)
  show "tpost s V L M H t \<Longrightarrow> tpost t V' L' M' H' u \<Longrightarrow> tpost s V' L' M' H' u" by (rule tpost_trans)
  show "in_trans s M \<Longrightarrow> sec \<notin> logsecs s \<Longrightarrow> sec < disksize s \<Longrightarrow> bheld s sec = None \<Longrightarrow>
        card (insert sec (dom (bheld s) \<union> lhset s)) \<le> NBUF \<Longrightarrow>
        runs (bread 1 sec) s (\<lambda>b. tpost s (tview s) (lhset s) M ((bheld s)(sec \<mapsto> b)))"
    by (rule tread_law)
  show "in_trans s M \<Longrightarrow> bheld s sec = Some b \<Longrightarrow> bp_data b s = Ok (tview s sec) s"
    using bp_data_runs [of s sec b] by (auto simp: in_trans_def tview_def)
  show "in_trans s M \<Longrightarrow> bheld s sec = Some b \<Longrightarrow>
        runs (set_data b f) s (\<lambda>_. tpost s ((tview s)(sec := f (tview s sec))) (lhset s) (insert sec M) (bheld s))"
    by (rule tedit_law)
  show "in_trans s M \<Longrightarrow> bheld s sec = Some b \<Longrightarrow> card (lhset s) < log_room s \<Longrightarrow>
        card (dom (bheld s) \<union> lhset s) < NBUF \<Longrightarrow>
        runs (log_write b) s (\<lambda>_. tpost s (tview s) (insert sec (lhset s)) (M - {sec}) (bheld s))"
    using lhset_card [of s M] by (intro tlog_law) (auto simp: log_room_def)
  show "in_trans s M \<Longrightarrow> bheld s sec = Some b \<Longrightarrow> sec \<notin> M \<Longrightarrow>
        runs (brelse b) s (\<lambda>_. tpost s (tview s) (lhset s) M ((bheld s)(sec := None)))"
    by (rule trel_law)
qed

section \<open>Properties\<close>

lemma replay_other: "x \<notin> fst ` set ws \<Longrightarrow> replay ws d x = d x"
  by (induction ws arbitrary: d) (auto simp: replay_simps)

lemma set_take_fst: "fst ` set (take k ws) \<subseteq> fst ` set ws"
  by (meson image_mono set_take_subset)

text \<open>A disk of 1024 sectors with a log of 10, and a machine that has booted from it.\<close>

definition disk0 :: "u32 \<Rightarrow> bytes" where
  "disk0 x = (if x = 1 then put32 (put32 (\<lambda>_. 0) 0 1024) 12 10 else (\<lambda>_. 0))"

definition lmach0 :: lmach where
  "lmach0 = \<lparr>lk = lk0, pmem = (\<lambda>_. 0), use_lock = True, freelist = 0, kend = 0x80108000,
     kdata = 0x80107000, kpgdir = 0, cr3 = 0, esp0 = 0,
     ptable = (\<lambda>_. proc0), nextpid = 1, initproc = None, bufs = (\<lambda>_. buf0), bnext = (\<lambda>_. 0),
     bprev = (\<lambda>_. 0), disk = disk0, disksize = 1024, dtrace = [],
     lstart = 1014, lsize = 10, lbusy = False, ldev = 1, lh_n = 0, lh_sector = (\<lambda>_. 0)\<rparr>"

definition log_booted :: "lmach \<Rightarrow> bool" where
  "log_booted t \<longleftrightarrow> log_idle t \<and> bheld t = Map.empty \<and> (\<forall>x. x \<notin> logsecs t \<longrightarrow> disk t x = disk0 x)
    \<and> lstart t = 1014 \<and> lsize t = 10 \<and> ldev t = 1 \<and> disksize t = 1024"

lemma disk0_sb: "get_sb (disk0 1) = \<lparr>sb_size = 1024, sb_nblocks = 0, sb_ninodes = 0, sb_nlog = 10\<rparr>"
  by (simp add: get_sb_def disk0_def get32_put32_other get32_put32) (simp add: get32_def)

lemma lmach0_ok: "sb_matches lmach0 disk0" "log_geom lmach0" "head_ok lmach0 disk0" "recovered lmach0 disk0 = disk0"
proof -
  show "sb_matches lmach0 disk0" by (simp add: sb_matches_def disk0_sb lmach0_def)
  show "log_geom lmach0" by (simp add: log_geom_def lmach0_def)
  have "head_n (disk0 (lstart lmach0)) = 0" by (simp add: disk0_def lmach0_def get32_def)
  then show "head_ok lmach0 disk0" "recovered lmach0 disk0 = disk0"
    using recovered_empty [of disk0 lmach0] by (simp_all add: lmach0_def)
qed

lemma log_booted_ex: "\<exists>t. log_booted t"
  using reboot_recovers [OF lmach0_ok(1-3)] lmach0_ok(4)
  by (auto simp: runs_def log_booted_def lmach0_def)

lemma one_not_log: "lstart t = 1014 \<Longrightarrow> 1 \<notin> logsecs t" "lstart t = 1014 \<Longrightarrow> 5 \<notin> logsecs t"
  by (simp_all add: logsecs_def)

lemma log_witness:
  "\<exists>s :: lmach. in_trans s {} \<and> bheld s = Map.empty \<and> lhset s = {5} \<and> lh_n s < int NBUF
    \<and> sb_matches s (disk s) \<and> 1 \<notin> logsecs s \<and> 5 \<notin> logsecs s \<and> bview s 5 0 = 7 \<and> disk s 5 0 = 0"
proof -
  obtain t where t: "log_booted t" using log_booted_ex ..
  let ?s = "t\<lparr>lbusy := True\<rparr>"
  have b: "log_idle t" "bheld t = Map.empty" "disk t 1 = disk0 1" "disk t 5 = disk0 5" "lsize t = 10" "lstart t = 1014"
    "ldev t = 1" "disksize t = 1024"
    using t one_not_log [of t] by (auto simp: log_booted_def)
  note tr = log_idle_begin [OF b(1)]
  have p: "tpost ?s (tview t) {} {} Map.empty ?s" using tr b(2) by (simp add: tpost_def)
  have s: "5 \<notin> logsecs ?s" "1 \<notin> logsecs ?s" "5 < disksize ?s" "log_room ?s = 9"
    using b by (simp_all add: one_not_log log_room_def)
  have "runs (bindk (bread 1 5) (\<lambda>b. thenk (set_data b (\<lambda>d. d(0 := 7))) (thenk (log_write b) (brelse b)))) ?s
     (\<lambda>_ v. tpost ?s ((tview t)(5 := (tview t 5)(0 := 7))) {5} {} Map.empty v)"
    by (rule td.update_block [OF p, where X = "{5}"]) (use s in auto)
  then obtain v where v: "tpost ?s ((tview t)(5 := (tview t 5)(0 := 7))) {5} {} Map.empty v"
    by (blast elim: runsE)
  then have fr: "tframe ?s v" and i: "in_trans v {}" by (simp_all add: tpost_def)
  note f = tframe_same [OF fr]
  have "disk v 1 = disk0 1" "disk v 5 = disk0 5" using v s(1,2) b by (simp_all add: tpost_def)
  then have d: "sb_matches v (disk v)" "disk v 5 0 = 0"
    using f b by (simp_all add: sb_matches_def disk0_sb) (simp add: disk0_def)
  have "tview v 5 0 = 7" using v by (simp add: tpost_def)
  then have "bview v 5 0 = 7" using s(1) f by (simp add: tview_def)
  moreover have "lhset v = {5}" "bheld v = Map.empty" using v by (simp_all add: tpost_def)
  moreover have "lh_n v = 1" using lhset_card [OF i] i \<open>lhset v = {5}\<close> by (simp add: in_trans_def)
  ultimately show ?thesis using i d s f by auto
qed

text \<open>C1: a transaction is atomic under crashes. From any state inside a transaction in which all changes
  are logged, \<open>commit_trans\<close> returns and the disk then has the new content of every block outside
  the log. If the machine stops after any number \<open>k\<close> of the disk writes of the commit, the next
  boot returns, and finds every block outside the log as it was before the transaction if \<open>k\<close> is
  zero, and every block as the transaction left it otherwise. The superblock is not part of
  a transaction.\<close>

theorem commit_crash_atomic:
  assumes "in_trans s {}" and "bheld s = Map.empty" and "lh_n s < int NBUF"
    and "sb_matches s (disk s)" and "1 \<notin> logsecs s" and "1 \<notin> lhset s"
  shows "\<exists>t ws. commit_trans s = Ok () t \<and> dtrace t = dtrace s @ ws
    \<and> (\<forall>x. x \<notin> logsecs s \<longrightarrow> disk t x = bview s x)
    \<and> (\<forall>k \<le> length ws. \<exists>r. boot (reboot (replay (take k ws) (disk s)) s) = Ok () r
        \<and> log_idle r
        \<and> (\<forall>x. x \<notin> logsecs s \<longrightarrow> disk r x = (if k = 0 then disk s x else bview s x)))"
proof -
  let ?ws = "commit_writes s"
  obtain t where t: "commit_trans s = Ok () t" "dtrace t = dtrace s @ ?ws" "\<forall>x. x \<notin> logsecs s \<longrightarrow> disk t x = bview s x"
    using commit_trans_runs [OF assms(1-3)] by (auto simp: runs_def)
  have g: "log_geom s" "lhset s \<inter> logsecs s = {}" using assms(1) by (auto simp: in_trans_def)
  have "\<exists>r. boot (reboot (replay (take k ?ws) (disk s)) s) = Ok () r \<and> log_idle r
      \<and> (\<forall>x. x \<notin> logsecs s \<longrightarrow> disk r x = (if k = 0 then disk s x else bview s x))"
    if k: "k \<le> length ?ws" for k
  proof -
    let ?d = "replay (take k ?ws) (disk s)"
    have "fst ` set ?ws \<subseteq> insert (lstart s) (lhset s)" by (auto simp: commit_writes_def lhset_def)
    moreover have "1 \<notin> insert (lstart s) (lhset s)" using assms(5,6) lstart_facts(1) [OF g(1)] by auto
    ultimately have "1 \<notin> fst ` set (take k ?ws)" using set_take_fst [of k ?ws] by blast
    then have "sb_matches s ?d" using assms(4) by (simp add: sb_matches_def replay_other)
    moreover have "head_ok s ?d" using recovered_commit [OF assms(1) k assms(5) refl] by simp
    ultimately have "runs boot (reboot ?d s) (\<lambda>_ t. log_idle t \<and> bheld t = Map.empty
        \<and> logsecs t = logsecs s \<and> (\<forall>x. x \<notin> logsecs s \<longrightarrow> disk t x = recovered s ?d x)
        \<and> dtrace t = dtrace s @ recover_writes s ?d
        \<and> lstart t = lstart s \<and> lsize t = lsize s \<and> ldev t = ldev s \<and> disksize t = disksize s)"
      using reboot_recovers g(1) by blast
    then show ?thesis using recovered_commit [OF assms(1) k _ refl] by (auto simp: runs_def)
  qed
  with t show ?thesis by blast
qed

theorem commit_crash_atomic_witness:
  "\<exists>s t r :: lmach. lhset s = {5} \<and> commit_trans s = Ok () t \<and> disk t 5 0 = 7
    \<and> boot (reboot (disk s) s) = Ok () r \<and> disk r 5 0 = 0"
proof -
  obtain s :: lmach where s: "in_trans s {}" "bheld s = Map.empty" "lh_n s < int NBUF" "sb_matches s (disk s)"
    "1 \<notin> logsecs s" "5 \<notin> logsecs s" "lhset s = {5}" "bview s 5 0 = 7" "disk s 5 0 = 0"
    using log_witness by blast
  have "1 \<notin> lhset s" using s(7) by simp
  from commit_crash_atomic [OF s(1-5) this] obtain t ws where t: "commit_trans s = Ok () t"
    "\<forall>x. x \<notin> logsecs s \<longrightarrow> disk t x = bview s x"
    and k: "\<forall>k \<le> length ws. \<exists>r. boot (reboot (replay (take k ws) (disk s)) s) = Ok () r
        \<and> log_idle r \<and> (\<forall>x. x \<notin> logsecs s \<longrightarrow> disk r x = (if k = 0 then disk s x else bview s x))"
    by blast
  obtain r where r: "boot (reboot (disk s) s) = Ok () r" "\<forall>x. x \<notin> logsecs s \<longrightarrow> disk r x = disk s x"
    using k [rule_format, of 0] by (auto simp: replay_simps)
  have "disk t 5 0 = 7" "disk r 5 0 = 0" using t(2) r(2) s(6,8,9) by auto
  with s(7) t(1) r(1) show ?thesis by blast
qed

lemma inst_start:
  "(\<And>x. x \<notin> sec ` set ys \<Longrightarrow> d x = d' x) \<Longrightarrow> inst sec c ys d = inst sec c ys d'"
proof (induction ys arbitrary: d d')
  case Nil
  then show ?case by auto
next
  case (Cons y ys)
  have "inst sec c ys (d(sec y := c y)) = inst sec c ys (d'(sec y := c y))"
    by (rule Cons.IH) (use Cons.prems in auto)
  then show ?case by (simp add: inst_def)
qed

text \<open>What recovery does is not changed by doing part of it before.\<close>

lemma recovered_again:
  assumes "log_geom s" and "head_ok s d" and "k \<le> length (recover_writes s d)"
    and "d' = replay (take k (recover_writes s d)) d"
  shows "head_ok s d' \<and> (\<forall>x. x \<notin> logsecs s \<longrightarrow> recovered s d' x = recovered s d x)"
proof -
  let ?h = "d (lstart s)"
  let ?n = "nat (head_n ?h)" and ?m = "map (\<lambda>i. (head_sec ?h i, d (lslot s i)))"
  let ?i = "inst (head_sec ?h) (\<lambda>i. d (lslot s i))"
  have ls: "lstart s \<in> logsecs s" using lstart_facts(1) [OF assms(1)] .
  have hk: "\<And>i. i < ?n \<Longrightarrow> head_sec ?h i \<notin> logsecs s" "head_n ?h \<le> lsize s - 1"
    using assms(2) by (auto simp: head_ok_def Let_def)
  have log: "?i [0..<j] d x = d x" if "x \<in> logsecs s" "j \<le> ?n" for x j
    by (rule inst_other) (use that hk(1) in fastforce)
  show ?thesis
  proof (cases "k \<le> ?n")
    case True
    have d': "d' = ?i [0..<k] d"
      using True by (simp add: assms(4) recover_writes_def Let_def take_map replay_map)
    have h: "d' (lstart s) = ?h" using log [OF ls True] d' by simp
    have sl: "d' (lslot s i) = d (lslot s i)" if "i < ?n" for i
      using log [OF lslot_facts(1) [OF assms(1)] True] that hk(2) d' by simp
    have "head_ok s d'" using assms(2) by (simp add: head_ok_def h)
    moreover have "recovered s d' = ?i [0..<?n] d'"
      unfolding recovered_def Let_def h by (rule inst_cong) (use sl in simp)
    moreover have "?i [0..<?n] d' = ?i [0..<?n] d"
    proof (rule inst_start)
      fix x
      assume "x \<notin> head_sec ?h ` set [0..<?n]"
      then have "x \<notin> head_sec ?h ` set [0..<k]" using True by auto
      then show "d' x = d x" unfolding d' by (rule inst_other)
    qed
    moreover have "recovered s d = ?i [0..<?n] d" by (simp add: recovered_def Let_def)
    ultimately show ?thesis by simp
  next
    case False
    then have "take k (recover_writes s d) = ?m [0..<?n] @ [(lstart s, put32 ?h 0 0)]"
      using assms(3) by (simp add: recover_writes_def Let_def)
    then have d': "d' = (?i [0..<?n] d)(lstart s := put32 ?h 0 0)"
      by (simp only: assms(4) replay_append replay_map replay_simps)
    then have "head_n (d' (lstart s)) = 0" by simp
    then show ?thesis
      using recovered_empty [of d' s] assms(1) ls d' by (auto simp: log_geom_def recovered_def Let_def)
  qed
qed

text \<open>C7: recovery can itself be interrupted. If the header on disk \<open>d\<close> describes a log that fits, a boot from
  \<open>d\<close> returns with the logged blocks installed; and if the machine stops after any number of the
  disk writes of that boot, the next boot returns with the same blocks on disk.\<close>

theorem recovery_crash_idempotent:
  assumes "sb_matches s d" and "log_geom s" and "head_ok s d" and "1 \<notin> logsecs s"
    and "\<forall>i < nat (head_n (d (lstart s))). head_sec (d (lstart s)) i \<noteq> 1"
  shows "\<exists>t ws. boot (reboot d s) = Ok () t \<and> dtrace t = dtrace s @ ws \<and> log_idle t
    \<and> (\<forall>x. x \<notin> logsecs s \<longrightarrow> disk t x = recovered s d x)
    \<and> (\<forall>k \<le> length ws. \<exists>r. boot (reboot (replay (take k ws) d) s) = Ok () r
        \<and> log_idle r \<and> (\<forall>x. x \<notin> logsecs s \<longrightarrow> disk r x = recovered s d x))"
proof -
  let ?ws = "recover_writes s d"
  have boot: "\<exists>r. boot (reboot e s) = Ok () r \<and> dtrace r = dtrace s @ recover_writes s e
      \<and> log_idle r \<and> (\<forall>x. x \<notin> logsecs s \<longrightarrow> disk r x = recovered s e x)"
    if "sb_matches s e" "head_ok s e" for e
    using reboot_recovers [OF that(1) assms(2) that(2)] by (auto simp: runs_def)
  have "\<exists>r. boot (reboot (replay (take k ?ws) d) s) = Ok () r
        \<and> log_idle r \<and> (\<forall>x. x \<notin> logsecs s \<longrightarrow> disk r x = recovered s d x)" if k: "k \<le> length ?ws" for k
  proof -
    let ?e = "replay (take k ?ws) d"
    have "1 \<notin> fst ` set ?ws"
      using assms(4,5) lstart_facts(1) [OF assms(2)] by (auto simp: recover_writes_def Let_def)
    then have "1 \<notin> fst ` set (take k ?ws)" using set_take_fst [of k ?ws] by blast
    then have "sb_matches s ?e" using assms(1) by (simp add: sb_matches_def replay_other)
    with recovered_again [OF assms(2,3) k refl] boot show ?thesis by metis
  qed
  note later = this
  obtain t where "boot (reboot d s) = Ok () t" "dtrace t = dtrace s @ ?ws" "log_idle t"
    "\<forall>x. x \<notin> logsecs s \<longrightarrow> disk t x = recovered s d x" using boot [OF assms(1,3)] by blast
  with later show ?thesis by (intro exI [of _ t] exI [of _ ?ws]) simp
qed

theorem recovery_crash_idempotent_witness:
  "\<exists>t ws. boot (reboot disk0 lmach0) = Ok () t \<and> dtrace t = ws \<and> disk t 1 = disk0 1
    \<and> (\<exists>r. boot (reboot (replay ws disk0) lmach0) = Ok () r \<and> log_idle r)"
proof -
  have h: "head_n (disk0 (lstart lmach0)) = 0" "dtrace lmach0 = []" "1 \<notin> logsecs lmach0"
    by (simp_all add: disk0_def lmach0_def get32_def logsecs_def)
  have nn: "\<forall>i < nat (head_n (disk0 (lstart lmach0))). head_sec (disk0 (lstart lmach0)) i \<noteq> 1"
    using h(1) by simp
  from recovery_crash_idempotent [OF lmach0_ok(1-3) h(3) nn] obtain t ws
    where t: "boot (reboot disk0 lmach0) = Ok () t" "dtrace t = dtrace lmach0 @ ws"
      "\<forall>x. x \<notin> logsecs lmach0 \<longrightarrow> disk t x = recovered lmach0 disk0 x"
    and k: "\<forall>k \<le> length ws. \<exists>r. boot (reboot (replay (take k ws) disk0) lmach0) = Ok () r
        \<and> log_idle r \<and> (\<forall>x. x \<notin> logsecs lmach0 \<longrightarrow> disk r x = recovered lmach0 disk0 x)"
    by blast
  obtain r where "boot (reboot (replay ws disk0) lmach0) = Ok () r" "log_idle r"
    using k [rule_format, of "length ws"] by auto
  moreover have "disk t 1 = disk0 1" "dtrace t = ws" using t(2,3) h(2,3) lmach0_ok(4) by simp_all
  ultimately show ?thesis using t(1) by blast
qed

end
