(* ===== verification/Rng.thy ===== *)
theory Rng
  imports Args Log
begin

text \<open>
  \<^verbatim>\<open>random.c\<close>: the system calls of the multi-stream random number generator, a prime modulus
  multiplicative generator with one seed per stream.

  \<^verbatim>\<open>long\<close> has 32 bits; \<open>s32\<close> is its wrap-around. The table \<^verbatim>\<open>zrng\<close> is the function of the words
  found from its address on, so an index outside the 101 entries reads or writes whatever the
  kernel keeps there, as the unchecked C code does. \<open>rnum\<close> is the numerator of \<^verbatim>\<open>randomValue\<close>: the
  code divides it by the constant \<^verbatim>\<open>1667772116.0\<close> and keeps the quotient as a \<^verbatim>\<open>float\<close> (before the
  first draw it is 0).
\<close>

section \<open>State and operations\<close>

record rmach = lmach +
  seed :: int
  zrng :: "int \<Rightarrow> int"
  rnum :: int

definition MODLUS :: int where [simp]: "MODLUS = 2147483647"
definition MULTONE :: int where [simp]: "MULTONE = 24112"
definition MULTTWO :: int where [simp]: "MULTTWO = 26143"

definition zrng_init :: "int list" where
  "zrng_init =
  [0,
   1973272912, 281629770,  20006270,1280689831,2096730329,1933576050,
    913566091, 246780520,1363774876, 604901985,1511192140,1259851944,
    824064364, 150493284, 242708531,  75253171,1964472944,1202299975,
    233217322,1911216000, 726370533, 403498145, 993232223,1103205531,
    762430696,1922803170,1385516923,  76271663, 413682397, 726466604,
    336157058,1432650381,1120463904, 595778810, 877722890,1046574445,
     68911991,2088367019, 748545416, 622401386,2122378830, 640690903,
   1774806513,2132545692,2079249579,  78130110, 852776735,1187867272,
   1351423507,1645973084,1997049139, 922510944,2045512870, 898585771,
    243649545,1004818771, 773686062, 403188473, 372279877,1901633463,
    498067494,2087759558, 493157915, 597104727,1530940798,1814496276,
    536444882,1663153658, 855503735,  67784357,1432404475, 619691088,
    119025595, 880802310, 176192644,1116780070, 277854671,1366580350,
   1142483975,2026948561,1053920743, 786262391,1792203830,1494667770,
   1923011392,1433700034,1244184613,1147297105, 539712780,1545929719,
    190641742,1645390429, 264907697, 620389253,1502074852, 927711160,
    364849192,2049576050, 638580085, 547070247]"

definition s32 :: "int \<Rightarrow> int" where
  "s32 x = signed_take_bit 31 x"

text \<open>One multiplication modulo \<^verbatim>\<open>MODLUS\<close> in split 16-bit parts.\<close>

definition rng_mul :: "int \<Rightarrow> int \<Rightarrow> int" where
  "rng_mul m zi =
     (let lowprd = s32 ((zi AND 65535) * m);
          hi3l = s32 (s32 (drop_bit 16 zi * m) + drop_bit 16 lowprd);
          zi = s32 (s32 (s32 ((lowprd AND 65535) - MODLUS) + s32 (push_bit 16 (hi3l AND 32767)))
                 + drop_bit 15 hi3l)
      in if zi < 0 then s32 (zi + MODLUS) else zi)"

text \<open>The common block of \<open>sys_random\<close> and \<open>sys_random_set\<close>: draw from the stream \<^verbatim>\<open>seed\<close>.\<close>

definition rng_draw :: "('z rmach_scheme, unit) kern" where
  "rng_draw =
     bindk (readk (\<lambda>s. zrng s (seed s))) (\<lambda>zi.
     let zi = rng_mul MULTTWO (rng_mul MULTONE zi) in
     thenk (modk (\<lambda>s. s\<lparr>zrng := (zrng s)(seed s := zi)\<rparr>))
     (modk (\<lambda>s. s\<lparr>rnum := s32 ((drop_bit 7 zi OR 1) + 1)\<rparr>)))"

definition sys_random :: "('z rmach_scheme, int) kern" where
  "sys_random =
     thenk (modk (\<lambda>s. if seed s \<le> 0 then s\<lparr>seed := 0\<rparr> else s))
     (bindk (readk seed) (\<lambda>sd.
     thenk (whenk (0 < sd \<and> sd < 101) rng_draw)
     (readk rnum)))"

definition sys_random_set :: "('z rmach_scheme, int) kern" where
  "sys_random_set =
     bindk (argint 0) (\<lambda>a.
     case a of None \<Rightarrow> retk (-1) | Some w \<Rightarrow>
     thenk (modk (\<lambda>s. s\<lparr>seed := sint w\<rparr>))
     (bindk (readk seed) (\<lambda>sd.
     if 0 < sd \<and> sd < 101 then thenk rng_draw (retk 0) else retk (-1))))"

definition sys_change_seed :: "('z rmach_scheme, int) kern" where
  "sys_change_seed =
     bindk (argint 0) (\<lambda>_.
     bindk (argint 1) (\<lambda>_.
     bindk (argint 0) (\<lambda>stream.
     case stream of None \<Rightarrow> retk (-1) | Some i \<Rightarrow>
     bindk (argint 1) (\<lambda>set.
     case set of None \<Rightarrow> retk (-1) | Some v \<Rightarrow>
     thenk (modk (\<lambda>s. s\<lparr>zrng := (zrng s)(sint i := sint v)\<rparr>))
     (retk 0)))))"

definition sys_actual_seed :: "('z rmach_scheme, int) kern" where
  "sys_actual_seed =
     bindk (argint 0) (\<lambda>stream.
     case stream of None \<Rightarrow> retk (-1) | Some i \<Rightarrow> readk (\<lambda>s. zrng s (sint i)))"

section \<open>The generator\<close>

lemma s32_id: "- 2147483648 \<le> x \<Longrightarrow> x < 2147483648 \<Longrightarrow> s32 x = x"
  unfolding s32_def by (rule signed_take_bit_int_eq_self) simp_all

lemma int_parts:
  fixes z :: int
  shows "z AND 65535 = z mod 65536" "z AND 32767 = z mod 32768" "drop_bit 16 z = z div 65536"
    "drop_bit 15 z = z div 32768" "push_bit 16 z = z * 65536"
  using take_bit_eq_mask [of 16 z] take_bit_eq_mask [of 15 z]
  by (simp_all add: drop_bit_eq_div push_bit_eq_mult take_bit_eq_mod mask_eq_exp_minus_1)

text \<open>The two partial products, and the sum that is congruent to the product because
  \<open>2 ^ 31 = 1\<close> modulo \<^verbatim>\<open>MODLUS\<close>.\<close>

definition rng_sum :: "int \<Rightarrow> int \<Rightarrow> int" where
  "rng_sum m z =
     (let lo = (z mod 65536) * m; hi = (z div 65536) * m + lo div 65536
      in lo mod 65536 + (hi mod 32768) * 65536 + hi div 32768)"

lemma rng_sum_cong: "rng_sum m z mod 2147483647 = m * z mod 2147483647"
proof -
  define zl zh where "zl = z mod 65536" and "zh = z div 65536"
  define lo where "lo = zl * m"
  define hi where "hi = zh * m + lo div 65536"
  have "z = 65536 * zh + zl" by (simp add: zl_def zh_def)
  then have "m * z = 65536 * (zh * m) + lo" by (simp add: lo_def algebra_simps)
  also have "\<dots> = 65536 * hi + lo mod 65536"
    using mult_div_mod_eq [of 65536 lo] by (simp add: hi_def algebra_simps)
  also have "\<dots> = lo mod 65536 + (hi mod 32768) * 65536 + hi div 32768 + 2147483647 * (hi div 32768)"
    using mult_div_mod_eq [of 32768 hi] by linarith
  also have "lo mod 65536 + (hi mod 32768) * 65536 + hi div 32768 = rng_sum m z"
    by (simp only: rng_sum_def Let_def lo_def hi_def zl_def zh_def)
  finally show ?thesis by simp
qed

lemma rng_mul_sum:
  assumes "0 \<le> z" "z < 2147483648" "0 < m" "m < 32768"
  shows "rng_mul m z = (if rng_sum m z < 2147483647 then rng_sum m z else rng_sum m z - 2147483647)"
    and "0 \<le> rng_sum m z" and "rng_sum m z < 2147516415"
proof -
  define zl zh where "zl = z mod 65536" and "zh = z div 65536"
  have z: "0 \<le> zl" "zl \<le> 65535" "0 \<le> zh" "zh \<le> 32767"
    using assms(1,2) by (simp_all add: zl_def zh_def)
  define lo where "lo = zl * m"
  have lo: "0 \<le> lo" "lo \<le> 65535 * 32767" unfolding lo_def using z assms by (simp, intro mult_mono) simp_all
  define ll lh where "ll = lo mod 65536" and "lh = lo div 65536"
  have l: "0 \<le> ll" "ll \<le> 65535" "0 \<le> lh" "lh \<le> 32766"
    using lo zdiv_mono1 [OF lo(2), of 65536] by (simp_all add: ll_def lh_def pos_imp_zdiv_nonneg_iff)
  have p: "0 \<le> zh * m" "zh * m \<le> 32767 * 32767" using z assms by (simp, intro mult_mono) simp_all
  define hi where "hi = zh * m + lh"
  have h: "0 \<le> hi" "hi \<le> 32767 * 32768 - 1" using p l by (simp_all add: hi_def)
  define hl hh where "hl = hi mod 32768" and "hh = hi div 32768"
  have b: "0 \<le> hl" "hl \<le> 32767" "0 \<le> hh" "hh \<le> 32766"
    using h zdiv_mono1 [OF h(2), of 32768] by (simp_all add: hl_def hh_def pos_imp_zdiv_nonneg_iff)
  have s: "rng_sum m z = ll + hl * 65536 + hh"
    by (simp add: rng_sum_def Let_def ll_def hl_def hh_def hi_def lh_def lo_def zl_def zh_def)
  show "0 \<le> rng_sum m z" "rng_sum m z < 2147516415" using l b unfolding s by linarith+
  have e: "s32 (zl * m) = lo" "s32 (zh * m) = zh * m" "s32 (zh * m + lh) = hi"
    unfolding lo_def [symmetric] hi_def [symmetric] using lo p h by (simp_all add: s32_id)
  have "rng_mul m z = (let zi = s32 (s32 (s32 (ll - 2147483647) + s32 (hl * 65536)) + hh)
      in if zi < 0 then s32 (zi + 2147483647) else zi)"
    unfolding rng_mul_def int_parts Let_def zl_def [symmetric] zh_def [symmetric] e
      ll_def [symmetric] lh_def [symmetric] hl_def [symmetric] hh_def [symmetric] MODLUS_def ..
  then show "rng_mul m z = (if rng_sum m z < 2147483647 then rng_sum m z else rng_sum m z - 2147483647)"
    using l b by (simp add: s s32_id Let_def)
qed

lemma rng_mul_mod:
  assumes "0 < z" "z < 2147483647" "0 < m" "m < 32768" "coprime m 2147483647"
  shows "rng_mul m z = m * z mod 2147483647" "0 < rng_mul m z" "rng_mul m z < 2147483647"
proof -
  define S where "S = rng_sum m z"
  note r = rng_mul_sum [of z m, folded S_def]
  have c: "S mod 2147483647 = m * z mod 2147483647" by (simp add: S_def rng_sum_cong)
  have "\<not> 2147483647 dvd m * z"
  proof
    assume "2147483647 dvd m * z"
    then have "2147483647 dvd z" using assms(5) by (metis coprime_commute coprime_dvd_mult_right_iff)
    then show False using zdvd_imp_le assms(1,2) by fastforce
  qed
  then have nz: "S mod 2147483647 \<noteq> 0" by (simp add: c dvd_eq_mod_eq_0)
  have b: "0 \<le> S" "S < 2147516415" "rng_mul m z = (if S < 2147483647 then S else S - 2147483647)"
    using r assms by simp_all
  have "rng_mul m z = S mod 2147483647"
  proof (cases "S < 2147483647")
    case False
    have "S mod 2147483647 = (S - 2147483647) mod 2147483647" by simp
    also have "\<dots> = S - 2147483647" using False b by (intro mod_pos_pos_trivial) simp_all
    finally show ?thesis using False b by simp
  qed (use b in simp)
  then show "rng_mul m z = m * z mod 2147483647" "0 < rng_mul m z" "rng_mul m z < 2147483647"
    using nz c pos_mod_bound [of 2147483647 S] pos_mod_sign [of 2147483647 S] by simp_all
qed

lemma rng_step:
  assumes "0 < z" "z < MODLUS"
  shows "rng_mul MULTTWO (rng_mul MULTONE z) = 630360016 * z mod MODLUS"
    "0 < rng_mul MULTTWO (rng_mul MULTONE z)" "rng_mul MULTTWO (rng_mul MULTONE z) < MODLUS"
proof -
  have "gcd 24112 (2147483647 :: int) = 1" "gcd 26143 (2147483647 :: int) = 1" by code_simp+
  then have c: "coprime 24112 (2147483647 :: int)" "coprime 26143 (2147483647 :: int)"
    by (simp_all only: coprime_iff_gcd_eq_1)
  define y where "y = rng_mul 24112 z"
  have y: "y = 24112 * z mod 2147483647" "0 < y" "y < 2147483647"
    using rng_mul_mod [of z 24112] assms c(1) by (simp_all add: y_def)
  have "26143 * y mod 2147483647 = 630360016 * z mod 2147483647"
    unfolding y(1) by (simp add: mod_mult_right_eq flip: mult.assoc)
  then show "rng_mul MULTTWO (rng_mul MULTONE z) = 630360016 * z mod MODLUS"
    "0 < rng_mul MULTTWO (rng_mul MULTONE z)" "rng_mul MULTTWO (rng_mul MULTONE z) < MODLUS"
    using rng_mul_mod [of y 26143] y c(2) by (simp_all add: y_def)
qed

lemma rnum_range: "0 \<le> z \<Longrightarrow> z < MODLUS \<Longrightarrow> 2 \<le> s32 ((drop_bit 7 z OR 1) + 1) \<and> s32 ((drop_bit 7 z OR 1) + 1) \<le> 16777216"
proof -
  assume z: "0 \<le> z" "z < MODLUS"
  define d where "d = z div 128"
  have d: "0 \<le> d" "d \<le> 16777215" using z zdiv_mono1 [of z 2147483646 128] by (simp_all add: d_def pos_imp_zdiv_nonneg_iff)
  have "d OR 1 = (if even d then d + 1 else d)" by (simp add: or_one_eq)
  moreover have "even d \<Longrightarrow> d \<le> 16777214" using d(2) by (auto simp: order_le_less)
  ultimately have "1 \<le> d OR 1" "d OR 1 \<le> 16777215" using d by (auto simp: odd_pos order_le_less)
  then show ?thesis by (simp add: drop_bit_eq_div s32_id flip: d_def)
qed

section \<open>The system calls\<close>

definition streams_ok :: "'z rmach_scheme \<Rightarrow> bool" where
  "streams_ok s \<longleftrightarrow> (\<forall>i \<in> {1..100}. 0 < zrng s i \<and> zrng s i < MODLUS)"

text \<open>The table of the source starts every stream in range.\<close>

lemma zrng_init_ok: 
  assumes "zrng s = (\<lambda>i. zrng_init ! nat i)" shows "streams_ok s"
proof -
  have "list_all (\<lambda>z. 0 < z \<and> z < MODLUS) (tl zrng_init)" "length zrng_init = 101" by (simp_all add: zrng_init_def)
  then have z: "0 < zrng_init ! Suc k \<and> zrng_init ! Suc k < MODLUS" if "k < 100" for k
    using that by (simp add: list_all_length nth_tl)
  have "nat i = Suc (nat (i - 1))" "nat (i - 1) < 100" if "i \<in> {1..100}" for i :: int
    using that by (simp_all add: Suc_nat_eq_nat_zadd1 nat_less_iff)
  then show ?thesis using z by (simp add: assms streams_ok_def)
qed

lemma user_view_rand [simp]:
  "user_view (s\<lparr>seed := x\<rparr>) = user_view s" "user_view (s\<lparr>zrng := g\<rparr>) = user_view s"
  "user_view (s\<lparr>rnum := x\<rparr>) = user_view s"
  by (simp_all add: user_view_def umem_def fun_eq_iff)

lemma rng_draw_run:
  assumes "streams_ok s" "0 < seed s" "seed s < 101"
  defines "z \<equiv> 630360016 * zrng s (seed s) mod MODLUS"
  shows "\<exists>r. rng_draw s = Ok () (s\<lparr>zrng := (zrng s)(seed s := z), rnum := r\<rparr>) \<and> 2 \<le> r \<and> r \<le> 16777216
    \<and> streams_ok (s\<lparr>zrng := (zrng s)(seed s := z), rnum := r\<rparr>)"
proof -
  have b: "0 < zrng s (seed s)" "zrng s (seed s) < MODLUS" using assms by (auto simp: streams_ok_def)
  note r = rng_step [OF this, folded z_def]
  have z: "0 < z" "z < MODLUS" using r by (simp_all add: z_def)
  show ?thesis
    using assms(1) z rnum_range [of z] r(1)
    by (intro exI [of _ "s32 ((drop_bit 7 z OR 1) + 1)"]) (simp add: rng_draw_def Let_def streams_ok_def z_def)
qed

text \<open>C26: one draw multiplies the seed of its stream by \<open>24112 \<cdot> 26143 = 630360016\<close> modulo
  \<^verbatim>\<open>MODLUS\<close>, although every intermediate value of the code fits a 32-bit \<^verbatim>\<open>long\<close>, and keeps it
  between 1 and \<^verbatim>\<open>MODLUS\<close> - 1.\<close>

theorem random_step_lcg:
  assumes "0 < z" "z < MODLUS"
  shows "rng_mul MULTTWO (rng_mul MULTONE z) = 630360016 * z mod MODLUS
    \<and> 0 < rng_mul MULTTWO (rng_mul MULTONE z) \<and> rng_mul MULTTWO (rng_mul MULTONE z) < MODLUS"
  using rng_step [OF assms] by blast

theorem random_step_lcg_witness:
  "rng_mul MULTTWO (rng_mul MULTONE 1973272912) = 630360016 * 1973272912 mod MODLUS"
  using random_step_lcg [of 1973272912] by simp

text \<open>C33: \<open>sys_random_set\<close> with a readable argument in 1 to 100 draws once from that stream and leaves
  every other stream alone; with any other argument it reports \<^verbatim>\<open>-1\<close> and no stream changes. Every
  stream stays between 1 and \<^verbatim>\<open>MODLUS\<close> - 1, and the numerator of the random value between 2 and
  \<open>2 ^ 24\<close>.\<close>

theorem random_set_draws:
  assumes "user_view s f n" "curproc s = Some i" "streams_ok s"
  shows "\<exists>r t. sys_random_set s = Ok r t \<and> streams_ok t \<and>
    (case arg_word f n (arg_addr s i 0) of
       None \<Rightarrow> r = -1 \<and> t = s
     | Some w \<Rightarrow> seed t = sint w \<and>
         (if 0 < sint w \<and> sint w < 101
          then r = 0 \<and> zrng t = (zrng s)(sint w := 630360016 * zrng s (sint w) mod MODLUS) \<and> 2 \<le> rnum t \<and> rnum t \<le> 16777216
          else r = -1 \<and> zrng t = zrng s))"
proof (cases "arg_word f n (arg_addr s i 0)")
  case None
  then show ?thesis using assms by (simp add: sys_random_set_def argint_run)
next
  case (Some w)
  have ok: "streams_ok (s\<lparr>seed := sint w\<rparr>)" using assms(3) by (simp add: streams_ok_def)
  show ?thesis
  proof (cases "0 < sint w \<and> sint w < 101")
    case True
    then show ?thesis
      using rng_draw_run [OF ok] Some assms(1,2) by (auto simp: sys_random_set_def argint_run)
  next
    case False
    then show ?thesis using Some assms(1,2) ok by (auto simp: sys_random_set_def argint_run)
  qed
qed


definition rmach0 :: rmach where
  "rmach0 = lmach.extend (lmach0\<lparr>pmem := pmem amach0, cr3 := cr3 amach0, ptable := ptable amach0\<rparr>)
     (rmach.fields 0 (\<lambda>i. zrng_init ! nat i) 0)"

lemma rmach0_simps [simp]:
  "zrng rmach0 = (\<lambda>i. zrng_init ! nat i)" "pmem rmach0 = amem0" "cr3 rmach0 = 0x1000"
  "curproc rmach0 = Some 0" "ptable rmach0 = ptable amach0"
  by (simp_all add: rmach0_def lmach.defs rmach.defs amach0_def lmach0_def)

lemma rmach0_view: "user_view rmach0 (\<lambda>va. amem0 (0x80003000 + va)) 64"
  using amach0_view by (simp add: user_view_def umem_def amach0_def)

lemma rmach0_args:
  "arg_word (\<lambda>va. amem0 (0x80003000 + va)) 64 (arg_addr rmach0 0 0) = Some 32"
  "arg_word (\<lambda>va. amem0 (0x80003000 + va)) 64 (arg_addr rmach0 0 1) = Some 0"
  unfolding arg_addr_def rmach0_simps by code_simp+

theorem random_set_draws_witness:
  "\<exists>t. sys_random_set rmach0 = Ok 0 t \<and> streams_ok t \<and> zrng t 32 = 630360016 * zrng_init ! 32 mod MODLUS"
  using random_set_draws [OF rmach0_view _ zrng_init_ok, of 0] by (auto simp: rmach0_args)


end
