(* ===== verification/Printf.thy ===== *)
theory Printf
  imports CString
begin

text \<open>
  \<^verbatim>\<open>printf.c\<close>, the formatted output of user programs. \<open>putc\<close> writes one byte to the file descriptor:
  the model returns the list of the bytes written, in order. The format, the arguments on the
  stack (\<open>ap\<close>) and the strings are read from the memory of the process.
\<close>

section \<open>Operations\<close>

text \<open>\<open>digits\<close>, the characters \<^verbatim>\<open>0123456789ABCDEF\<close>.\<close>

definition digits :: "u8 list" where
  "digits = [48, 49, 50, 51, 52, 53, 54, 55, 56, 57, 65, 66, 67, 68, 69, 70]"

text \<open>The loop that fills \<open>buf\<close>, for a table of digits. \<open>base\<close> is 10 or 16.\<close>

partial_function (option) printint_loop :: "u8 list \<Rightarrow> u32 \<Rightarrow> u32 \<Rightarrow> u8 list \<Rightarrow> u8 list option" where
  "printint_loop tab base x buf =
     (let buf = buf @ [tab ! unat (x mod base)]; x = x div base in
      if x \<noteq> 0 then printint_loop tab base x buf else Some buf)"

definition printint :: "u32 \<Rightarrow> u32 \<Rightarrow> bool \<Rightarrow> u8 list option" where
  "printint xx base sgnd =
     (let neg = (sgnd \<and> sint xx < 0); x = (if neg then - xx else xx) in
      case printint_loop digits base x [] of
        None \<Rightarrow> None
      | Some buf \<Rightarrow> Some (rev (if neg then buf @ [45] else buf)))"

text \<open>The loop of \<open>%s\<close>.\<close>

partial_function (option) printf_str :: "mem \<Rightarrow> u32 \<Rightarrow> u8 list \<Rightarrow> u8 list option" where
  "printf_str m s out = (if m s \<noteq> 0 then printf_str m (s + 1) (out @ [m s]) else Some out)"

text \<open>The characters of \<open>(null)\<close>.\<close>

definition null_str :: "u8 list" where
  "null_str = [40, 110, 117, 108, 108, 41]"

text \<open>One round of the loop of \<open>printf\<close>, for the character \<open>c\<close>: the new \<open>state\<close> (\<open>True\<close> after a
  \<open>%\<close>), the argument pointer and the output.\<close>

definition printf_step :: "mem \<Rightarrow> u8 \<Rightarrow> bool \<Rightarrow> u32 \<Rightarrow> u8 list \<Rightarrow> (bool \<times> u32 \<times> u8 list) option" where
  "printf_step m c state ap out =
     (if \<not> state then
        (if c = 37 then Some (True, ap, out) else Some (False, ap, out @ [c]))
      else if c = 100 then
        map_option (\<lambda>o'. (False, ap + 4, out @ o')) (printint (mload32 m ap) 10 True)
      else if c = 120 \<or> c = 112 then
        map_option (\<lambda>o'. (False, ap + 4, out @ o')) (printint (mload32 m ap) 16 False)
      else if c = 115 then
        (if mload32 m ap = 0 then Some (False, ap + 4, out @ null_str)
         else map_option (\<lambda>o'. (False, ap + 4, o')) (printf_str m (mload32 m ap) out))
      else if c = 99 then Some (False, ap + 4, out @ [ucast (mload32 m ap)])
      else if c = 37 then Some (False, ap, out @ [c])
      else Some (False, ap, out @ [37, c]))"

partial_function (option) printf_loop :: "mem \<Rightarrow> u32 \<Rightarrow> bool \<Rightarrow> u32 \<Rightarrow> u8 list \<Rightarrow> u8 list option" where
  "printf_loop m p state ap out =
     (if m p = 0 then Some out
      else case printf_step m (m p) state ap out of
        None \<Rightarrow> None
      | Some (state', ap', out') \<Rightarrow> printf_loop m (p + 1) state' ap' out')"

definition printf :: "mem \<Rightarrow> u32 \<Rightarrow> u32 \<Rightarrow> u8 list option" where
  "printf m fmt ap = printf_loop m fmt False ap []"

section \<open>Numbers\<close>

text \<open>The digits of a number, least significant first.\<close>

function rdigits :: "nat \<Rightarrow> nat \<Rightarrow> nat list" where
  "rdigits b n = n mod b # (if 2 \<le> b \<and> b \<le> n then rdigits b (n div b) else [])"
  by auto
termination by (relation "measure snd") auto

declare rdigits.simps [simp del]

lemma rdigits_less: "2 \<le> b \<Longrightarrow> d \<in> set (rdigits b n) \<Longrightarrow> d < b"
proof (induction b n rule: rdigits.induct)
  case (1 b n)
  then show ?case by (auto simp: rdigits.simps [of b n] split: if_splits)
qed

lemma rdigits_length: "2 \<le> b \<Longrightarrow> n < b ^ k \<Longrightarrow> 0 < k \<Longrightarrow> length (rdigits b n) \<le> k"
proof (induction b n arbitrary: k rule: rdigits.induct)
  case (1 b n)
  show ?case
  proof (cases "b \<le> n")
    case True
    then obtain j where k: "k = Suc j" "0 < j" using 1(3,4) by (cases k; cases "k - 1") auto
    have "n div b < b ^ j" using 1(2,3) by (simp add: k less_mult_imp_div_less mult.commute)
    then show ?thesis using 1 True k by (simp add: rdigits.simps [of b n])
  qed (use 1 in \<open>simp add: rdigits.simps [of b n]\<close>)
qed

lemma printint_loop_digits:
  assumes "2 \<le> b" "b < 4294967296"
  shows "n < 4294967296 \<Longrightarrow>
    printint_loop tab (of_nat b) (of_nat n) buf = Some (buf @ map (nth tab) (rdigits b n))"
  using assms
proof (induction b n arbitrary: buf rule: rdigits.induct)
  case (1 b n)
  have d: "of_nat n mod of_nat b = (of_nat (n mod b) :: u32)" "of_nat n div of_nat b = (of_nat (n div b) :: u32)"
    using 1(2-4) by (simp_all add: word_unat_eq_iff unat_mod unat_div le_less_trans [OF mod_less_eq_dividend] le_less_trans [OF div_le_dividend])
  have u: "n mod b < 4294967296" "n div b < 4294967296"
    using 1(2) by (rule le_less_trans [OF mod_less_eq_dividend], rule le_less_trans [OF div_le_dividend]) 
  have z: "(of_nat (n div b) :: u32) = 0 \<longleftrightarrow> n < b"
    using u 1(3) by (simp add: word_unat_eq_iff div_eq_0_iff)
  have "printint_loop tab (of_nat b) (of_nat n) buf =
      (if b \<le> n then printint_loop tab (of_nat b) (of_nat (n div b)) (buf @ [tab ! (n mod b)]) else Some (buf @ [tab ! (n mod b)]))"
    using u z by (subst printint_loop.simps) (simp add: d Let_def)
  then show ?case using 1 u by (simp add: rdigits.simps [of b n])
qed

lemma dec_val_rdigits: "dec_val (rev (rdigits 10 n)) = n"
proof (induction "10 :: nat" n rule: rdigits.induct)
  case (1 n)
  then show ?case by (cases "10 \<le> n") (simp_all add: rdigits.simps [of 10 n] dec_val_def)
qed

lemma digits_dec: "d < 10 \<Longrightarrow> digits ! d = of_nat (48 + d)"
proof -
  assume "d < 10"
  then have "d \<in> {0, 1, 2, 3, 4, 5, 6, 7, 8, 9}" by auto
  then show ?thesis by (elim insertE emptyE; simp add: digits_def)
qed

lemma cstr_digits:
  "cstr m s (map (nth digits) ds) \<Longrightarrow> (\<forall>d \<in> set ds. d < 10) \<Longrightarrow> digits_at m s ds"
  by (induction ds arbitrary: s) (simp_all add: digits_dec)

lemma printint_10:
  "printint_loop digits 10 x [] = Some (map (nth digits) (rdigits 10 (unat x)))"
  "printint_loop digits 16 x [] = Some (map (nth digits) (rdigits 16 (unat x)))"
  using printint_loop_digits [of 10 "unat x" digits "[]"] printint_loop_digits [of 16 "unat x" digits "[]"]
  by simp_all

text \<open>C35: \<open>printint\<close> always returns. It prints a signed number in at most ten decimal digits, after a
  minus sign if it is negative, and the digits read back by \<open>atoi\<close> give its absolute value (as
  an unsigned number, so also for the smallest one); a hexadecimal number takes at most eight
  digits. So the sixteen bytes of its buffer are enough.\<close>

theorem printint_atoi:
  "(\<exists>bs. printint v 10 True = Some (if sint v < 0 then 45 # bs else bs) \<and> length bs \<le> 10 \<and>
      (\<forall>m s. cstr m s bs \<longrightarrow> u_atoi m s = Some (if sint v < 0 then - v else v))) \<and>
   (\<exists>hs. printint v 16 False = Some hs \<and> length hs \<le> 8)"
proof -
  define x where "x = (if sint v < 0 then - v else v)"
  define bs where "bs = map (nth digits) (rev (rdigits 10 (unat x)))"
  have "printint v 10 True = Some (if sint v < 0 then 45 # bs else bs)"
    by (simp add: printint_def Let_def printint_10 bs_def x_def rev_map)
  moreover have "length bs \<le> 10"
    using rdigits_length [of 10 "unat x" 10] unat32_lt [of x] by (simp add: bs_def del: unat32_lt)
  moreover have "u_atoi m s = Some x" if "cstr m s bs" for m s
    using u_atoi_digits [OF cstr_digits [OF that [unfolded bs_def]]] rdigits_less [of 10]
    by (simp add: dec_val_rdigits)
  moreover have "length (rdigits 16 (unat v)) \<le> 8" using rdigits_length [of 16 "unat v" 8] by simp
  ultimately show ?thesis by (auto simp: printint_def printint_10 x_def)
qed

theorem printint_atoi_witness:
  "printint 2013 10 True = Some [50, 48, 49, 51] \<and>
   u_atoi (\<lambda>a. if a = 0 then 50 else if a = 1 then 48 else if a = 2 then 49 else if a = 3 then 51 else 0) 0 = Some 2013"
proof -
  have "printint 2013 10 True = Some [50, 48, 49, 51]"
    by (simp add: printint_def printint_10 rdigits.simps Let_def) (simp add: digits_def)
  then show ?thesis using printint_atoi [of 2013] by (auto dest!: spec [of _ 0])
qed

end
