(* ===== verification/Ring.thy ===== *)
theory Ring
  imports Prelude
begin

text \<open>
  Ring buffers: an array of \<open>N\<close> bytes with two 32-bit counters that are never reduced. The byte with
  number \<open>x\<close> is in the slot \<open>x mod N\<close>, and \<open>w - r\<close> bytes are in the buffer when \<open>r\<close> have been
  taken out and \<open>w\<close> put in, also after the counters have wrapped around. The input buffer of the
  console and the pipes are such buffers.
\<close>

text \<open>The \<open>n\<close> bytes from number \<open>a\<close> on.\<close>

definition rspan :: "(u32 \<Rightarrow> nat) \<Rightarrow> bytes \<Rightarrow> u32 \<Rightarrow> nat \<Rightarrow> u8 list" where
  "rspan slot f a n = map (\<lambda>k. f (slot (a + of_nat k))) [0..<n]"

lemma rspan_length [simp]: "length (rspan slot f a n) = n"
  by (simp add: rspan_def)

lemma rspan_0 [simp]: "rspan slot f a 0 = []"
  by (simp add: rspan_def)

lemma rspan_add: "rspan slot f a (m + n) = rspan slot f a m @ rspan slot f (a + of_nat m) n"
  by (rule nth_equalityI) (auto simp: rspan_def nth_append algebra_simps of_nat_diff)

lemma rspan_Suc: "rspan slot f a (Suc n) = f (slot a) # rspan slot f (a + 1) n"
  using rspan_add [of slot f a 1 n] by (simp add: rspan_def)

lemma ring_neq:
  fixes m :: nat
  assumes "k < n" "n - k < m"
  shows "(a + k) mod m \<noteq> (a + n) mod m"
proof
  assume "(a + k) mod m = (a + n) mod m"
  then have "m dvd (a + n) - (a + k)" by (metis assms(1) mod_eq_dvd_iff_nat nat_add_left_cancel_le less_imp_le)
  then have "m \<le> n - k" using assms(1) by (intro dvd_imp_le) auto
  then show False using assms(2) by simp
qed

lemma unat_add_mod:
  assumes "N dvd 4294967296"
  shows "unat ((a :: u32) + of_nat k) mod N = (unat a + k) mod N"
proof -
  have "unat (a + of_nat k) = (unat a + k) mod 4294967296"
    by (simp add: unat_word_ariths unsigned_of_nat take_bit_eq_mod mod_add_right_eq)
  then show ?thesis using assms by (simp add: mod_mod_cancel)
qed

locale ring =
  fixes slot :: "u32 \<Rightarrow> nat" and N :: nat
  assumes slot_mod: "slot a = unat a mod N" and N_dvd: "N dvd 4294967296" and N_less: "N < 4294967296"
begin

lemma slot_add: "slot (a + of_nat k) = (unat a + k) mod N"
  unfolding slot_mod by (rule unat_add_mod [OF N_dvd])

lemma span_upd: "n < N \<Longrightarrow> rspan slot (f(slot (a + of_nat n) := b)) a (Suc n) = rspan slot f a n @ [b]"
proof (rule nth_equalityI)
  fix k
  assume "n < N" "k < length (rspan slot (f(slot (a + of_nat n) := b)) a (Suc n))"
  then have "k \<le> n" "k \<noteq> n \<Longrightarrow> (unat a + k) mod N \<noteq> (unat a + n) mod N"
    using ring_neq [of k n N "unat a"] by auto
  then show "rspan slot (f(slot (a + of_nat n) := b)) a (Suc n) ! k = (rspan slot f a n @ [b]) ! k"
    by (cases "k = n") (auto simp: rspan_def slot_add nth_append simp del: upt_Suc)
qed simp

lemma count_put: "unat (w - r) < N \<Longrightarrow> unat (w + 1 - r) = Suc (unat (w - r))" for w r :: u32
proof -
  assume "unat (w - r) < N"
  then have "Suc (unat (w - r)) < 4294967296" using N_less by simp
  moreover have "w + 1 - r = w - r + 1" by simp
  ultimately show ?thesis by (simp only: unat_word_ariths) simp
qed

text \<open>Putting a byte in and taking one out, on the list of the bytes in the buffer.\<close>

lemma put:
  assumes "unat (w - r) < N"
  shows "rspan slot (f(slot w := b)) r (unat (w + 1 - r)) = rspan slot f r (unat (w - r)) @ [b]"
  using span_upd [OF assms, of f r b] by (simp add: count_put [OF assms])

lemma take:
  assumes "r \<noteq> w"
  shows "rspan slot f r (unat (w - r)) = f (slot r) # rspan slot f (r + 1) (unat (w - (r + 1)))"
    "unat (w - r) = Suc (unat (w - (r + 1)))"
proof -
  have nz: "w - r \<noteq> 0" using assms by simp
  have "unat (w - (r + 1)) = unat (w - r) - 1"
    using unat_minus_one [OF nz] by (simp only: diff_diff_eq)
  then show u: "unat (w - r) = Suc (unat (w - (r + 1)))" using nz [folded unat_gt_0] by simp
  show "rspan slot f r (unat (w - r)) = f (slot r) # rspan slot f (r + 1) (unat (w - (r + 1)))"
    unfolding u rspan_Suc ..
qed

end

end
