(* ===== verification/Console.thy ===== *)
theory Console
  imports Rng Printf Ring
begin

text \<open>
  \<^verbatim>\<open>console.c\<close> without the two device functions that need inodes, the keyboard driver \<^verbatim>\<open>kbd.c\<close>, the
  transmit and receive side of \<^verbatim>\<open>uart.c\<close>, and the two routines that print kernel state:
  \<open>getcallerpcs\<close> (\<^verbatim>\<open>spinlock.c\<close>) and \<open>procdump\<close> (\<^verbatim>\<open>proc.c\<close>).

  The screen is the array \<open>crt\<close> of 16-bit cells with the cursor position that the CRT controller
  keeps in its registers 14 and 15 (\<open>crt_pos\<close>). What the serial line has sent is \<open>uart_out\<close>; the
  bytes that wait in the keyboard controller and in the receiver are \<open>kbd_in\<close> and \<open>uart_in\<close>. The
  bounded wait for the transmitter has no effect on this state. A format string of \<open>cprintf\<close> is
  the list of its characters, and its arguments are a list of words and strings.
\<close>

section \<open>State\<close>

datatype device = ConsoleDev

record cmach = rmach +
  panicked :: bool
  cons_locking :: bool
  crt :: "nat \<Rightarrow> u16"
  crt_pos :: u16
  uart :: bool
  uart_out :: "u8 list"
  uart_in :: "u8 list"
  kbd_in :: "u8 list"
  kshift :: u8
  in_buf :: "nat \<Rightarrow> u8"
  in_r :: u32
  in_w :: u32
  in_e :: u32
  devsw :: "int \<Rightarrow> device option"

definition str :: "string \<Rightarrow> u8 list" where
  "str = map of_char"

section \<open>Output\<close>

definition BACKSPACE :: int where [simp]: "BACKSPACE = 0x100"

definition uartputc :: "int \<Rightarrow> ('z cmach_scheme, unit) kern" where
  "uartputc c = modk (\<lambda>s. if uart s then s\<lparr>uart_out := uart_out s @ [word_of_int c]\<rparr> else s)"

text \<open>The three steps of \<open>cgaputc\<close>: place the character, scroll, store the cursor.\<close>

definition cga_place :: "int \<Rightarrow> (nat \<Rightarrow> u16) \<times> int \<Rightarrow> (nat \<Rightarrow> u16) \<times> int" where
  "cga_place c = (\<lambda>(cells, pos).
     if c = 10 then (cells, pos + (80 - pos mod 80))
     else if c = BACKSPACE then (cells, if 0 < pos then pos - 1 else pos)
     else (cells(nat pos := (word_of_int c AND 0xFF) OR 0x0700), pos + 1))"

definition cga_scroll :: "(nat \<Rightarrow> u16) \<times> int \<Rightarrow> (nat \<Rightarrow> u16) \<times> int" where
  "cga_scroll = (\<lambda>(cells, pos).
     if 24 \<le> pos div 80 then
       let up = (\<lambda>i. if i < 23 * 80 then cells (i + 80) else cells i);
           pos = pos - 80;
           n = unat (word_of_int (2 * (24 * 80 - pos)) :: u32) div 2
       in (\<lambda>i. if nat pos \<le> i \<and> i < nat pos + n then 0 else up i, pos)
     else (cells, pos))"

definition cgaputc :: "int \<Rightarrow> ('z cmach_scheme, unit) kern" where
  "cgaputc c =
     modk (\<lambda>s.
       let (cells, pos) = cga_scroll (cga_place c (crt s, uint (crt_pos s))) in
       s\<lparr>crt_pos := word_of_int pos, crt := cells(nat pos := 0x20 OR 0x0700)\<rparr>)"

definition consputc :: "int \<Rightarrow> ('z cmach_scheme, unit) kern" where
  "consputc c =
     bindk (readk panicked) (\<lambda>p.
     if p then spink else
     thenk (if c = BACKSPACE then thenk (uartputc 8) (thenk (uartputc 32) (uartputc 8)) else uartputc c)
     (cgaputc c))"

definition consputs :: "u8 list \<Rightarrow> ('z cmach_scheme, unit) kern" where
  "consputs xs = foreach xs (\<lambda>b. consputc (uint b))"

text \<open>The table of \<open>printint\<close>, \<^verbatim>\<open>0123456789abcdef\<close>.\<close>

definition cdigits :: "u8 list" where
  "cdigits = [48, 49, 50, 51, 52, 53, 54, 55, 56, 57, 97, 98, 99, 100, 101, 102]"

definition cprintint :: "u32 \<Rightarrow> u32 \<Rightarrow> bool \<Rightarrow> ('z cmach_scheme, unit) kern" where
  "cprintint xx base sign =
     (let neg = (sign \<and> sint xx < 0); x = (if neg then - xx else xx) in
      case printint_loop cdigits base x [] of
        None \<Rightarrow> spink
      | Some buf \<Rightarrow> consputs (rev (if neg then buf @ [45] else buf)))"

datatype carg = CInt u32 | CStr "u8 list"

text \<open>The loop of \<open>cprintf\<close>. A conversion without an argument of its kind would read a stray word;
  no caller does.\<close>

fun cprintf_loop :: "u8 list \<Rightarrow> carg list \<Rightarrow> ('z cmach_scheme, unit) kern" where
  "cprintf_loop [] args = retk ()"
| "cprintf_loop [c] args = (if c \<noteq> 37 then consputc (uint c) else retk ())"
| "cprintf_loop (c # d # fmt) args =
     (if c \<noteq> 37 then thenk (consputc (uint c)) (cprintf_loop (d # fmt) args)
      else if d = 100 \<or> d = 120 \<or> d = 112 then
        (case args of CInt x # as \<Rightarrow>
           thenk (if d = 100 then cprintint x 10 True else cprintint x 16 False) (cprintf_loop fmt as)
         | _ \<Rightarrow> panic ''undefined: argument'')
      else if d = 115 then
        (case args of CStr x # as \<Rightarrow> thenk (consputs x) (cprintf_loop fmt as)
         | CInt x # as \<Rightarrow> if x = 0 then thenk (consputs null_str) (cprintf_loop fmt as) else panic ''undefined: argument''
         | _ \<Rightarrow> panic ''undefined: argument'')
      else if d = 37 then thenk (consputc 37) (cprintf_loop fmt args)
      else thenk (consputc 37) (thenk (consputc (uint d)) (cprintf_loop fmt args)))"

definition cprintf :: "u8 list \<Rightarrow> carg list \<Rightarrow> ('z cmach_scheme, unit) kern" where
  "cprintf fmt args =
     bindk (readk cons_locking) (\<lambda>locking.
     thenk (whenk locking (acquire ConsLock))
     (thenk (cprintf_loop fmt args)
     (whenk locking (release ConsLock))))"

section \<open>Printing kernel state\<close>

text \<open>The chain of frame pointers; \<open>n\<close> entries are still wanted.\<close>

fun getcallerpcs_loop :: "nat \<Rightarrow> mem \<Rightarrow> u32 \<Rightarrow> u32 list" where
  "getcallerpcs_loop 0 m fp = []"
| "getcallerpcs_loop (Suc n) m fp =
     (if fp = 0 \<or> fp < KERNBASE \<or> fp = 0xFFFFFFFF then replicate (Suc n) 0
      else mload32 m (fp + 4) # getcallerpcs_loop n m (mload32 m fp))"

definition getcallerpcs :: "mem \<Rightarrow> u32 \<Rightarrow> u32 list" where
  "getcallerpcs m v = getcallerpcs_loop 10 m (v - 8)"

definition state_name :: "procstate \<Rightarrow> u8 list" where
  "state_name st =
     (case st of UNUSED \<Rightarrow> str ''unused'' | EMBRYO \<Rightarrow> str ''embryo'' | SLEEPING \<Rightarrow> str ''sleep ''
      | RUNNABLE \<Rightarrow> str ''runble'' | RUNNING \<Rightarrow> str ''run   '' | ZOMBIE \<Rightarrow> str ''zombie'')"

text \<open>The characters of \<open>p->name\<close>, an array of 16.\<close>

definition name_chars :: "bytes \<Rightarrow> u8 list" where
  "name_chars f = takeWhile (\<lambda>b. b \<noteq> 0) (map f [0..<16])"

definition procdump_one :: "nat \<Rightarrow> ('z cmach_scheme, unit) kern" where
  "procdump_one i =
     bindk (readk (\<lambda>s. (ptable s i, pmem s))) (\<lambda>(p, m).
     if pstate p = UNUSED then retk () else
     thenk (cprintf (str ''%d %s %s'') [CInt (word_of_int (pid p)), CStr (state_name (pstate p)), CStr (name_chars (pname p))])
     (thenk (whenk (pstate p = SLEEPING)
        (foreach (takeWhile (\<lambda>pc. pc \<noteq> 0) (getcallerpcs m (ebp (pcontext p) + 8)))
           (\<lambda>pc. cprintf (str '' %p'') [CInt pc])))
     (cprintf [10] [])))"

definition procdump :: "('z cmach_scheme, unit) kern" where
  "procdump = foreach [0..<NPROC] procdump_one"

section \<open>Input\<close>

definition INPUT_BUF :: u32 where [simp]: "INPUT_BUF = 128"

definition in_slot :: "u32 \<Rightarrow> nat" where "in_slot x = unat (x mod INPUT_BUF)"

text \<open>The loop of \<^verbatim>\<open>C('U')\<close>; it takes back at most the characters between \<open>w\<close> and \<open>e\<close>.\<close>

fun kill_line :: "nat \<Rightarrow> ('z cmach_scheme, unit) kern" where
  "kill_line 0 = spink"
| "kill_line (Suc fuel) =
     bindk (readk (\<lambda>s. in_e s \<noteq> in_w s \<and> in_buf s (in_slot (in_e s - 1)) \<noteq> 10)) (\<lambda>go.
     if \<not> go then retk () else
     thenk (modk (\<lambda>s. s\<lparr>in_e := in_e s - 1\<rparr>))
     (thenk (consputc BACKSPACE)
     (kill_line fuel)))"

text \<open>One character of \<open>consoleintr\<close>.\<close>

definition console_char :: "int \<Rightarrow> ('z cmach_scheme, unit) kern" where
  "console_char c =
     (if c = 16 then procdump
      else if c = 21 then bindk (readk (\<lambda>s. unat (in_e s - in_w s))) (\<lambda>n. kill_line (Suc n))
      else if c = 8 \<or> c = 127 then
        bindk (readk (\<lambda>s. in_e s \<noteq> in_w s)) (\<lambda>go.
        whenk go (thenk (modk (\<lambda>s. s\<lparr>in_e := in_e s - 1\<rparr>)) (consputc BACKSPACE)))
      else
        bindk (readk (\<lambda>s. c \<noteq> 0 \<and> in_e s - in_r s < INPUT_BUF)) (\<lambda>go.
        whenk go
          (let c = (if c = 13 then 10 else c) in
           thenk (modk (\<lambda>s. s\<lparr>in_buf := (in_buf s)(in_slot (in_e s) := word_of_int c), in_e := in_e s + 1\<rparr>))
           (thenk (consputc c)
           (bindk (readk (\<lambda>s. c = 10 \<or> c = 4 \<or> in_e s = in_r s + INPUT_BUF)) (\<lambda>eol.
           whenk eol
             (thenk (modk (\<lambda>s. s\<lparr>in_w := in_e s\<rparr>))
             (wakeup ChInput)))))))) "

text \<open>The loop of \<open>consoleintr\<close>; a driver that has \<open>n\<close> bytes waiting is asked \<open>n + 1\<close> times.\<close>

fun consoleintr_loop :: "nat \<Rightarrow> ('z cmach_scheme, int) kern \<Rightarrow> ('z cmach_scheme, unit) kern" where
  "consoleintr_loop 0 getc = spink"
| "consoleintr_loop (Suc fuel) getc =
     bindk getc (\<lambda>c.
     if c < 0 then retk () else thenk (console_char c) (consoleintr_loop fuel getc))"

definition consoleintr :: "nat \<Rightarrow> ('z cmach_scheme, int) kern \<Rightarrow> ('z cmach_scheme, unit) kern" where
  "consoleintr n getc =
     thenk (acquire InputLock)
     (thenk (consoleintr_loop (Suc n) getc)
     (release InputLock))"

definition uartgetc :: "('z cmach_scheme, int) kern" where
  "uartgetc =
     bindk (readk (\<lambda>s. (uart s, uart_in s))) (\<lambda>(u, xs).
     if \<not> u then retk (-1) else
     case xs of [] \<Rightarrow> retk (-1)
     | x # ys \<Rightarrow> thenk (modk (\<lambda>s. s\<lparr>uart_in := ys\<rparr>)) (retk (uint x)))"

definition uartintr :: "('z cmach_scheme, unit) kern" where
  "uartintr = bindk (readk (\<lambda>s. length (uart_in s))) (\<lambda>n. consoleintr n uartgetc)"

section \<open>The keyboard\<close>

definition E0ESC :: u8 where [simp]: "E0ESC = 64"
definition CAPSLOCK :: u8 where [simp]: "CAPSLOCK = 8"

definition shiftcode :: "u8 \<Rightarrow> u8" where
  "shiftcode d =
     (if d = 0x1D then 2 else if d = 0x2A then 1 else if d = 0x36 then 1 else if d = 0x38 then 4
      else if d = 0x9D then 2 else if d = 0xB8 then 4 else 0)"

definition togglecode :: "u8 \<Rightarrow> u8" where
  "togglecode d = (if d = 0x3A then 8 else if d = 0x45 then 16 else if d = 0x46 then 32 else 0)"

text \<open>The entries of the three maps beyond their first rows: the keypad and cursor keys.\<close>

definition extended_key :: "u8 \<Rightarrow> u8" where
  "extended_key d =
     (if d = 0xC8 then 0xE2 else if d = 0xD0 then 0xE3 else if d = 0xC9 then 0xE6 else if d = 0xD1 then 0xE7
      else if d = 0xCB then 0xE4 else if d = 0xCD then 0xE5 else if d = 0x97 then 0xE0 else if d = 0xCF then 0xE1
      else if d = 0xD2 then 0xE8 else if d = 0xD3 then 0xE9 else 0)"

definition row :: "u8 list \<Rightarrow> u8 \<Rightarrow> u8" where
  "row xs d = (if unat d < length xs then xs ! unat d else 0)"

definition normalmap :: "u8 \<Rightarrow> u8" where
  "normalmap d =
     (if d = 0x9C then 10 else if d = 0xB5 then 47 else if unat d \<ge> 0x58 then extended_key d else
      row ([0, 27] @ str ''1234567890-='' @ [8, 9] @ str ''qwertyuiop[]'' @ [10, 0] @ str ''asdfghjkl;''
        @ [39, 96, 0, 92] @ str ''zxcvbnm,./'' @ [0, 42, 0, 32] @ replicate 13 0 @ str ''789-456+1230.'') d)"

definition shiftmap :: "u8 \<Rightarrow> u8" where
  "shiftmap d =
     (if d = 0x9C then 10 else if d = 0xB5 then 47 else if unat d \<ge> 0x58 then extended_key d else
      row ([0, 27] @ str ''!@#$%^&*()_+'' @ [8, 9] @ str ''QWERTYUIOP{}'' @ [10, 0] @ str ''ASDFGHJKL:''
        @ [34, 126, 0, 124] @ str ''ZXCVBNM<>?'' @ [0, 42, 0, 32] @ replicate 13 0 @ str ''789-456+1230.'') d)"

text \<open>\<^verbatim>\<open>C(x)\<close>, applied to the characters of a row.\<close>

definition ctl :: "string \<Rightarrow> u8 list" where
  "ctl xs = map (\<lambda>c. c - 64) (str xs)"

definition ctlmap :: "u8 \<Rightarrow> u8" where
  "ctlmap d =
     (if d = 0x9C then 13 else if d = 0xB5 then 47 - 64 else if unat d \<ge> 0x38 then extended_key d else
      row (replicate 16 0 @ ctl ''QWERTYUIOP'' @ [0, 0, 13, 0] @ ctl ''ASDFGHJKL'' @ [0, 0, 0, 0, 92 - 64]
        @ ctl ''ZXCVBNM'' @ [0, 0, 47 - 64, 0, 0]) d)"

definition charcode :: "u8 \<Rightarrow> u8 \<Rightarrow> u8" where
  "charcode sh d = (if sh = 0 then normalmap d else if sh = 1 then shiftmap d else ctlmap d)"

text \<open>\<open>kbdgetc\<close> after the data byte has been read: the new \<open>shift\<close> and the result.\<close>

definition kbd_data :: "u8 \<Rightarrow> u8 \<Rightarrow> u8 \<times> int" where
  "kbd_data shift d =
     (if d = 0xE0 then (shift OR E0ESC, 0)
      else if d AND 0x80 \<noteq> 0 then
        let d = (if shift AND E0ESC \<noteq> 0 then d else d AND 0x7F)
        in (shift AND NOT (shiftcode d OR E0ESC), 0)
      else
        let esc = (shift AND E0ESC \<noteq> 0);
            d = (if esc then d OR 0x80 else d);
            shift = (if esc then shift AND NOT E0ESC else shift);
            shift = shift OR shiftcode d;
            shift = shift XOR togglecode d;
            c = charcode (shift AND 3) d;
            c = (if shift AND CAPSLOCK \<noteq> 0 then
                   (if 97 \<le> c \<and> c \<le> 122 then c - 32 else if 65 \<le> c \<and> c \<le> 90 then c + 32 else c)
                 else c)
        in (shift, uint c))"

definition kbdgetc :: "('z cmach_scheme, int) kern" where
  "kbdgetc =
     bindk (readk (\<lambda>s. (kbd_in s, kshift s))) (\<lambda>(xs, sh).
     case xs of [] \<Rightarrow> retk (-1)
     | d # ys \<Rightarrow>
         let (sh', c) = kbd_data sh d in
         thenk (modk (\<lambda>s. s\<lparr>kbd_in := ys, kshift := sh'\<rparr>)) (retk c))"

definition kbdintr :: "('z cmach_scheme, unit) kern" where
  "kbdintr = bindk (readk (\<lambda>s. length (kbd_in s))) (\<lambda>n. consoleintr n kbdgetc)"

definition CONSOLE :: int where [simp]: "CONSOLE = 1"

declare kill_line.simps(2) [simp del] consoleintr_loop.simps(2) [simp del]

section \<open>The screen\<close>

lemma cga_place_bounds:
  assumes "0 \<le> pos" "pos < 1920" "cga_place c (cells, pos) = (cells', pos')"
  shows "0 \<le> pos' \<and> pos' \<le> 1920 \<and> (\<forall>i\<ge>1920. cells' i = cells i)"
proof -
  have "pos div 80 \<le> 23" using zdiv_mono1 [of pos 1919 80] assms(2) by simp
  then have "pos + (80 - pos mod 80) \<le> 1920" using minus_mod_eq_mult_div [of pos 80] by linarith
  moreover have "0 \<le> pos + (80 - pos mod 80)" using assms(1) pos_mod_bound [of 80 pos] by linarith
  ultimately show ?thesis using assms by (auto simp: cga_place_def split: if_splits)
qed

lemma cga_scroll_bounds:
  assumes "0 \<le> pos" "pos \<le> 1920" "cga_scroll (cells, pos) = (cells', pos')"
  shows "0 \<le> pos' \<and> pos' < 1920 \<and> (\<forall>i\<ge>1920. cells' i = cells i)"
proof (cases "pos = 1920")
  case True
  have "cga_scroll (cells, 1920) =
      (\<lambda>i. if 1840 \<le> i \<and> i < 1920 then 0 else if i < 1840 then cells (i + 80) else cells i, 1840)"
    by (simp add: cga_scroll_def)
  then have "pos' = 1840" "\<And>i. 1920 \<le> i \<Longrightarrow> cells' i = cells i" using True assms(3) by auto
  then show ?thesis by simp
next
  case False
  then have "pos div 80 \<le> 1919 div 80" using assms(2) by (intro zdiv_mono1) auto
  then have "cga_scroll (cells, pos) = (cells, pos)" by (simp add: cga_scroll_def)
  then show ?thesis using False assms by simp
qed

text \<open>C36: the cursor of the text screen never leaves the first 24 rows, and no character, newline,
  backspace or scroll touches a cell after them.\<close>

theorem cgaputc_in_screen:
  assumes "unat (crt_pos s) < 24 * 80"
  shows "\<exists>t. cgaputc c s = Ok () t \<and> unat (crt_pos t) < 24 * 80 \<and> (\<forall>i \<ge> 24 * 80. crt t i = crt s i)"
proof -
  obtain x p where a: "cga_place c (crt s, uint (crt_pos s)) = (x, p)" by (cases "cga_place c (crt s, uint (crt_pos s))")
  obtain y q where b: "cga_scroll (x, p) = (y, q)" by (cases "cga_scroll (x, p)")
  have u: "uint (crt_pos s) < 1920" 
  proof -
    have "int (unat (crt_pos s)) = uint (crt_pos s)" by simp
    with assms show ?thesis by linarith
  qed
  have p: "0 \<le> p" "p \<le> 1920" "\<And>i. 1920 \<le> i \<Longrightarrow> x i = crt s i" using cga_place_bounds [OF _ u a] by auto
  have q: "0 \<le> q" "q < 1920" "\<And>i. 1920 \<le> i \<Longrightarrow> y i = x i" using cga_scroll_bounds [OF p(1,2) b] by auto
  have "unat (word_of_int q :: u16) < 1920" using q by (simp add: unsigned_of_int take_bit_int_eq_self nat_less_iff)
  moreover have "cgaputc c s = Ok () (s\<lparr>crt_pos := word_of_int q, crt := y(nat q := 0x20 OR 0x0700)\<rparr>)"
    by (simp add: cgaputc_def a b)
  moreover have "(y(nat q := 0x20 OR 0x0700)) i = crt s i" if "1920 \<le> i" for i
  proof -
    have "i \<noteq> nat q" using that q(2) by auto
    then show ?thesis using that q(3) p(3) by simp
  qed
  ultimately show ?thesis by simp
qed

section \<open>Output changes nothing but the output\<close>

definition out_only :: "'z cmach_scheme \<Rightarrow> 'z cmach_scheme \<Rightarrow> bool" where
  "out_only s t \<longleftrightarrow> (\<exists>a b c. t = s\<lparr>crt := a, crt_pos := b, uart_out := c\<rparr>)"

lemma out_onlyE:
  assumes "out_only s t"
  obtains a b c where "t = s\<lparr>crt := a, crt_pos := b, uart_out := c\<rparr>"
  using assms by (auto simp: out_only_def)

lemma out_onlyI: "t = s\<lparr>crt := crt t, crt_pos := crt_pos t, uart_out := uart_out t\<rparr> \<Longrightarrow> out_only s t"
  unfolding out_only_def by blast

lemma out_only_refl [simp]: "out_only s s"
  by (rule out_onlyI) simp

lemma out_only_trans: "out_only s t \<Longrightarrow> out_only t u \<Longrightarrow> out_only s u"
  by (elim out_onlyE) (auto simp: out_only_def)

lemma out_only_same:
  assumes "out_only s t"
  shows "panicked t = panicked s" "lk t = lk s" "in_buf t = in_buf s" "in_r t = in_r s" "in_w t = in_w s"
    "in_e t = in_e s" "ptable t = ptable s" "pmem t = pmem s" "cons_locking t = cons_locking s"
  using assms by (auto elim!: out_onlyE)

text \<open>\<open>prints m\<close>: unless the kernel has panicked, \<open>m\<close> returns and does nothing but print.\<close>

definition prints :: "('z cmach_scheme, unit) kern \<Rightarrow> 'z cmach_scheme \<Rightarrow> bool" where
  "prints m s \<longleftrightarrow> runs m s (\<lambda>_ t. out_only s t)"

lemma prints_thenk:
  assumes "prints m s" "\<And>t. out_only s t \<Longrightarrow> prints n t"
  shows "prints (thenk m n) s"
  unfolding prints_def runs_thenk
proof (rule runs_mono [OF assms(1) [unfolded prints_def]])
  fix t assume st: "out_only s t"
  show "runs n t (\<lambda>_ u. out_only s u)"
    using assms(2) [OF st] unfolding prints_def by (rule runs_mono) (rule out_only_trans [OF st])
qed

lemma prints_foreach:
  assumes "\<And>x t. x \<in> set xs \<Longrightarrow> out_only s t \<Longrightarrow> prints (f x) t"
  shows "prints (foreach xs f) s"
  using assms
proof (induction xs arbitrary: s)
  case (Cons x xs)
  show ?case
    using Cons.prems by (auto intro!: prints_thenk Cons.IH intro: out_only_trans)
qed (simp add: prints_def)

lemma prints_bindk_readk [simp]: "prints (bindk (readk g) f) s = prints (f (g s)) s"
  by (simp add: prints_def)

lemma uartputc_prints: "prints (uartputc c) s"
  by (auto simp: prints_def uartputc_def intro!: out_onlyI)

lemma cgaputc_prints: "prints (cgaputc c) s"
  by (auto simp: prints_def cgaputc_def intro!: out_onlyI split: prod.split)

lemma consputc_prints: "\<not> panicked s \<Longrightarrow> prints (consputc c) s"
  by (auto simp: consputc_def intro!: prints_thenk uartputc_prints cgaputc_prints)

lemma consputs_prints: "\<not> panicked s \<Longrightarrow> prints (consputs xs) s"
  unfolding consputs_def by (rule prints_foreach) (simp add: consputc_prints out_only_same)

lemma cprintint_prints:
  assumes "\<not> panicked s" "base = 10 \<or> base = 16"
  shows "prints (cprintint x base sign) s"
proof -
  have "\<exists>buf. printint_loop cdigits base y [] = Some buf" for y
    using assms(2) printint_loop_digits [of 10 "unat y" cdigits "[]"]
      printint_loop_digits [of 16 "unat y" cdigits "[]"] by auto
  then show ?thesis using assms(1)
    by (auto simp: cprintint_def Let_def consputs_prints split: option.split) (metis option.distinct(1))+
qed

text \<open>The conversions of a format have arguments of their kind.\<close>

fun fmt_ok :: "u8 list \<Rightarrow> carg list \<Rightarrow> bool" where
  "fmt_ok [] args = True"
| "fmt_ok [c] args = True"
| "fmt_ok (c # d # fmt) args =
     (if c \<noteq> 37 then fmt_ok (d # fmt) args
      else if d = 100 \<or> d = 120 \<or> d = 112 then (case args of CInt x # as \<Rightarrow> fmt_ok fmt as | _ \<Rightarrow> False)
      else if d = 115 then (case args of CStr x # as \<Rightarrow> fmt_ok fmt as | _ \<Rightarrow> False)
      else fmt_ok fmt args)"

lemma prints_retk [simp]: "prints (retk ()) s"
  by (simp add: prints_def)

lemma cprintf_loop_prints: "fmt_ok fmt args \<Longrightarrow> \<not> panicked s \<Longrightarrow> prints (cprintf_loop fmt args) s"
proof (induction fmt args arbitrary: s rule: fmt_ok.induct)
  case (3 c d fmt args)
  show ?case
    using 3 by (auto intro!: prints_thenk consputc_prints cprintint_prints consputs_prints
      simp: out_only_same split: if_splits list.splits carg.splits)
qed (auto intro: consputc_prints)

lemma cprintf_prints:
  assumes "fmt_ok fmt args" "\<not> panicked s" "unl ConsLock (lk s)" "wf_cli (lk s)"
  shows "prints (cprintf fmt args) s"
proof (cases "cons_locking s")
  case True
  let ?s = "s\<lparr>lk := lk_acq ConsLock (lk s)\<rparr>"
  have "prints (cprintf_loop fmt args) ?s" using assms by (intro cprintf_loop_prints) simp_all
  then obtain a b c where "cprintf_loop fmt args ?s = Ok () (?s\<lparr>crt := a, crt_pos := b, uart_out := c\<rparr>)"
    by (auto simp: prints_def runs_def elim!: out_onlyE)
  then have "cprintf fmt args s = Ok () (s\<lparr>crt := a, crt_pos := b, uart_out := c\<rparr>)"
    using assms True by (simp add: cprintf_def acquire_ok release_acq)
  then show ?thesis by (auto simp: prints_def runs_def out_only_def)
qed (use assms in \<open>auto simp: cprintf_def out_only_same intro!: prints_thenk cprintf_loop_prints\<close>)

text \<open>The situation in which the kernel can print.\<close>

definition can_print :: "'z cmach_scheme \<Rightarrow> bool" where
  "can_print s \<longleftrightarrow> \<not> panicked s \<and> unl ConsLock (lk s) \<and> wf_cli (lk s)"

lemma cprintf_out:
  assumes "can_print s" "fmt_ok fmt args"
  obtains t where "cprintf fmt args s = Ok () t" "out_only s t"
  using cprintf_prints [OF assms(2)] assms(1) by (auto simp: can_print_def prints_def runs_def)

lemma procdump_prints:
  assumes "\<not> panicked s" "unl ConsLock (lk s)" "wf_cli (lk s)"
  shows "prints procdump s"
proof -
  have "prints (procdump_one i) t" if "\<not> panicked t" "unl ConsLock (lk t)" "wf_cli (lk t)" for i and t :: "'a cmach_scheme"
    unfolding procdump_one_def using that
    by (auto intro!: prints_thenk cprintf_prints prints_foreach simp: out_only_same str_def whenk_def)
  then show ?thesis unfolding procdump_def using assms by (auto intro!: prints_foreach simp: out_only_same)
qed

section \<open>The line discipline\<close>

text \<open>The characters of \<open>input\<close> from index \<open>a\<close> on, those a reader may take, and the line being edited.\<close>

abbreviation span :: "bytes \<Rightarrow> u32 \<Rightarrow> nat \<Rightarrow> u8 list" where
  "span \<equiv> rspan in_slot"

definition committed :: "'z cmach_scheme \<Rightarrow> u8 list" where
  "committed s = span (in_buf s) (in_r s) (unat (in_w s - in_r s))"

definition editing :: "'z cmach_scheme \<Rightarrow> u8 list" where
  "editing s = span (in_buf s) (in_w s) (unat (in_e s - in_w s))"

definition in_ok :: "'z cmach_scheme \<Rightarrow> bool" where
  "in_ok s \<longleftrightarrow> unat (in_w s - in_r s) + unat (in_e s - in_w s) \<le> 128 \<and> 10 \<notin> set (editing s)"

text \<open>What typing a character does to the committed input and the line.\<close>

definition type_char :: "int \<Rightarrow> u8 list \<times> u8 list \<Rightarrow> u8 list \<times> u8 list" where
  "type_char c = (\<lambda>(com, ed).
     if c = 16 then (com, ed)
     else if c = 21 then (com, [])
     else if c = 8 \<or> c = 127 then (com, butlast ed)
     else if c \<noteq> 0 \<and> length com + length ed < 128 then
       let c = (if c = 13 then 10 else c); ed = ed @ [word_of_int c] in
       if c = 10 \<or> c = 4 \<or> length com + length ed = 128 then (com @ ed, []) else (com, ed)
     else (com, ed))"

interpretation inp: ring in_slot 128
  by unfold_locales (simp_all add: in_slot_def unat_mod)

lemma in_ok_len: "in_ok s \<longleftrightarrow> length (committed s) + length (editing s) \<le> 128 \<and> 10 \<notin> set (editing s)"
  by (simp add: in_ok_def committed_def editing_def)

lemma in_ok_split:
  assumes "in_ok s"
  shows "span (in_buf s) (in_r s) (unat (in_e s - in_r s)) = committed s @ editing s"
    "unat (in_e s - in_r s) = length (committed s) + length (editing s)"
proof -
  have e: "in_e s - in_r s = (in_w s - in_r s) + (in_e s - in_w s)" by simp
  have u: "unat (in_e s - in_r s) = unat (in_w s - in_r s) + unat (in_e s - in_w s)"
    unfolding e by (subst unat_word_ariths(1)) (use assms in \<open>simp add: in_ok_def\<close>)
  then show "unat (in_e s - in_r s) = length (committed s) + length (editing s)"
    by (simp add: committed_def editing_def)
  have "in_r s + of_nat (unat (in_w s - in_r s)) = in_w s" by simp
  then show "span (in_buf s) (in_r s) (unat (in_e s - in_r s)) = committed s @ editing s"
    unfolding u rspan_add by (simp only: committed_def editing_def)
qed

text \<open>Taking back a character, and adding one.\<close>

lemma editing_back:
  assumes "in_ok s" "in_e s \<noteq> in_w s"
  shows "editing (s\<lparr>in_e := in_e s - 1\<rparr>) = butlast (editing s)" "in_ok (s\<lparr>in_e := in_e s - 1\<rparr>)"
    "last (editing s) = in_buf s (in_slot (in_e s - 1))" "length (editing s) = Suc (unat (in_e s - 1 - in_w s))"
proof -
  have e: "in_e s - 1 - in_w s = in_e s - in_w s - 1" by simp
  have n: "unat (in_e s - in_w s) = Suc (unat (in_e s - 1 - in_w s))"
    unfolding e using assms(2) by (simp add: unat_Suc_pred)
  have "in_w s + of_nat (unat (in_e s - 1 - in_w s)) = in_e s - 1" by simp
  then have sp: "editing s = editing (s\<lparr>in_e := in_e s - 1\<rparr>) @ [in_buf s (in_slot (in_e s - 1))]"
    unfolding editing_def n by (simp add: rspan_def)
  then show b: "editing (s\<lparr>in_e := in_e s - 1\<rparr>) = butlast (editing s)" by simp
  show "last (editing s) = in_buf s (in_slot (in_e s - 1))" by (subst sp) simp
  show "length (editing s) = Suc (unat (in_e s - 1 - in_w s))" using n by (simp add: editing_def)
  show "in_ok (s\<lparr>in_e := in_e s - 1\<rparr>)"
    using assms(1) n b by (auto simp: in_ok_def dest: in_set_butlastD)
qed

lemma typed_char:
  fixes b :: u8
  assumes "in_ok s" "unat (in_e s - in_r s) < 128"
  defines "t \<equiv> s\<lparr>in_buf := (in_buf s)(in_slot (in_e s) := b), in_e := in_e s + 1\<rparr>"
  shows "committed t = committed s" "editing t = editing s @ [b]"
    "unat (in_e t - in_r t) = Suc (unat (in_e s - in_r s))"
    "committed (t\<lparr>in_w := in_e t\<rparr>) = committed s @ editing s @ [b]" "editing (t\<lparr>in_w := in_e t\<rparr>) = []"
proof -
  define f where "f = (in_buf s)(in_slot (in_e s) := b)"
  define n where "n = unat (in_e s - in_r s)"
  have e: "in_r s + of_nat n = in_e s" by (simp add: n_def)
  have all: "span f (in_r s) (Suc n) = committed s @ editing s @ [b]"
    using inp.span_upd [of n "in_buf s" "in_r s" b] assms(2) in_ok_split(1) [OF assms(1)] unfolding e
    by (simp add: f_def n_def)
  have u: "unat (in_e s + 1 - in_r s) = Suc n" 
  proof -
    have "in_e s + 1 - in_r s = in_e s - in_r s + 1" by simp
    then show ?thesis using assms(2) unfolding n_def by (simp only: unat_word_ariths) simp
  qed
  have v: "unat (in_e s + 1 - in_w s) = Suc (length (editing s))"
  proof -
    have "in_e s + 1 - in_w s = in_e s - in_w s + 1" by simp
    moreover have "unat (in_e s - in_w s) < 129" using assms(1) by (simp add: in_ok_def)
    ultimately show ?thesis by (simp only: editing_def rspan_length unat_word_ariths) simp
  qed
  have "n = length (committed s) + length (editing s)" using in_ok_split(2) [OF assms(1)] by (simp add: n_def)
  then have "span f (in_r s) (Suc n) = committed t @ editing t"
    using rspan_add [of in_slot f "in_r s" "unat (in_w s - in_r s)" "Suc (length (editing s))"] v
    by (simp add: t_def committed_def editing_def f_def)
  then have "committed t @ editing t = committed s @ editing s @ [b]" using all by simp
  moreover have "length (committed t) = length (committed s)" by (simp add: committed_def t_def)
  ultimately show "committed t = committed s" "editing t = editing s @ [b]" by simp_all
  show "unat (in_e t - in_r t) = Suc (unat (in_e s - in_r s))" using u by (simp add: t_def n_def)
  show "committed (t\<lparr>in_w := in_e t\<rparr>) = committed s @ editing s @ [b]" "editing (t\<lparr>in_w := in_e t\<rparr>) = []"
    using all u by (simp_all add: committed_def editing_def t_def f_def rspan_def [of _ _ _ 0])
qed

lemma out_only_line:
  assumes "out_only s t"
  shows "committed t = committed s" "editing t = editing s" "in_ok t = in_ok s"
  using out_only_same [OF assms] by (simp_all add: committed_def editing_def in_ok_def)

lemma kill_line_runs:
  "in_ok s \<Longrightarrow> \<not> panicked s \<Longrightarrow> length (editing s) < n \<Longrightarrow>
    runs (kill_line n) s (\<lambda>_ t. in_ok t \<and> committed t = committed s \<and> editing t = [] \<and> in_r t = in_r s)"
proof (induction n arbitrary: s)
  case (Suc n)
  show ?case
  proof (cases "in_e s = in_w s")
    case True
    then have "editing s = []" by (simp add: editing_def rspan_def)
    then show ?thesis using Suc.prems True unfolding kill_line.simps(2) runs_vc by simp
  next
    case False
    note b = editing_back [OF Suc.prems(1) False]
    have "editing s \<noteq> []" using b(4) by auto
    then have nl: "in_buf s (in_slot (in_e s - 1)) \<noteq> 10"
      using Suc.prems(1) b(3) last_in_set [of "editing s"] by (auto simp: in_ok_def)
    let ?s = "s\<lparr>in_e := in_e s - 1\<rparr>"
    have "runs (kill_line n) t (\<lambda>_ u. in_ok u \<and> committed u = committed s \<and> editing u = [] \<and> in_r u = in_r s)"
      if "out_only ?s t" for t
      using Suc.IH [of t] out_only_line [OF that] out_only_same [OF that] Suc.prems b
      by (simp add: committed_def)
    then show ?thesis
      using consputc_prints [of ?s BACKSPACE] False nl Suc.prems(2) unfolding kill_line.simps(2) runs_vc
      by (auto simp: prints_def elim!: runs_mono)
  qed
qed simp

lemma wakeup_line:
  assumes "unl PtableLock (lk s)" "wf_cli (lk s)"
  shows "runs (wakeup ch) s (\<lambda>_ t. in_ok t = in_ok s \<and> committed t = committed s \<and> editing t = editing s \<and> in_r t = in_r s)"
  using assms by (simp add: wakeup_run runs_Ok in_ok_def committed_def editing_def)

definition line_ready :: "'z cmach_scheme \<Rightarrow> bool" where
  "line_ready s \<longleftrightarrow> in_ok s \<and> \<not> panicked s \<and> unl ConsLock (lk s) \<and> unl PtableLock (lk s) \<and> wf_cli (lk s)"

text \<open>The ordinary characters.\<close>

lemma console_typed:
  assumes "line_ready s" "0 < c" "c < 256" "c \<noteq> 16" "c \<noteq> 21" "c \<noteq> 8" "c \<noteq> 127" "length (committed s) + length (editing s) < 128"
  shows "runs (console_char c) s (\<lambda>_ t. in_ok t \<and> (committed t, editing t) = type_char c (committed s, editing s) \<and> in_r t = in_r s)"
proof -
  define c' where "c' = (if c = 13 then 10 else c)"
  define b :: u8 where "b = word_of_int c'"
  have c': "0 < c'" "c' < 256" using assms by (auto simp: c'_def)
  have b10: "b = 10 \<longleftrightarrow> c' = 10"
  proof
    assume "b = 10"
    then have "uint b = 10" by simp
    then show "c' = 10" using c' by (simp add: b_def unsigned_of_int take_bit_int_eq_self)
  qed (simp add: b_def)
  have ok: "in_ok s" "\<not> panicked s" "unl PtableLock (lk s)" "wf_cli (lk s)" using assms(1) by (auto simp: line_ready_def)
  have n: "unat (in_e s - in_r s) < 128" using in_ok_split(2) [OF ok(1)] assms(8) by simp
  define t where "t = s\<lparr>in_buf := (in_buf s)(in_slot (in_e s) := b), in_e := in_e s + 1\<rparr>"
  note ty = typed_char [OF ok(1) n, of b, folded t_def]
  have len: "unat (in_e t - in_r t) = Suc (length (committed s) + length (editing s))"
    using ty(3) in_ok_split(2) [OF ok(1)] by simp
  have "in_e t = in_r t + 128 \<longleftrightarrow> in_e t - in_r t = 128" by (auto simp: algebra_simps)
  also have "\<dots> \<longleftrightarrow> Suc (length (committed s) + length (editing s)) = 128" by (simp add: word_unat_eq_iff len)
  finally have full: "in_e t = in_r t + 128 \<longleftrightarrow> Suc (length (committed s) + length (editing s)) = 128" .
  have nl: "10 \<notin> set (editing s)" using ok(1) by (simp add: in_ok_def)
  have inn: "in_ok t" if "c' \<noteq> 10"
    using assms(8) ty(1,2) nl b10 that by (simp add: in_ok_len)
  have inw: "in_ok (t\<lparr>in_w := in_e t\<rparr>)" using assms(8) by (simp add: in_ok_len ty(4,5))
  have spec: "type_char c (committed s, editing s) =
      (if c' = 10 \<or> c' = 4 \<or> in_e t = in_r t + 128 then (committed s @ editing s @ [b], []) else (committed s, editing s @ [b]))"
    using assms(2,4-8) by (simp add: type_char_def Let_def c'_def b_def full)
  have fin: "runs (whenk (c' = 10 \<or> c' = 4 \<or> in_e u = in_r u + INPUT_BUF)
        (thenk (modk (\<lambda>s. s\<lparr>in_w := in_e s\<rparr>)) (wakeup ChInput))) u
      (\<lambda>_ v. in_ok v \<and> (committed v, editing v) = type_char c (committed s, editing s) \<and> in_r v = in_r s)"
    if "out_only t u" for u
  proof -
    note o = out_only_same [OF that] out_only_line [OF that]
    have w: "runs (wakeup ChInput) (u\<lparr>in_w := in_e u\<rparr>) (\<lambda>_ v. in_ok v = in_ok (u\<lparr>in_w := in_e u\<rparr>)
      \<and> committed v = committed (u\<lparr>in_w := in_e u\<rparr>) \<and> editing v = editing (u\<lparr>in_w := in_e u\<rparr>) \<and> in_r v = in_r (u\<lparr>in_w := in_e u\<rparr>))"
      using ok o by (intro wakeup_line) (simp_all add: t_def)
    have eq: "committed (u\<lparr>in_w := in_e u\<rparr>) = committed (t\<lparr>in_w := in_e t\<rparr>)"
      "editing (u\<lparr>in_w := in_e u\<rparr>) = editing (t\<lparr>in_w := in_e t\<rparr>)"
      using o by (simp_all add: committed_def editing_def)
    then have "in_ok (u\<lparr>in_w := in_e u\<rparr>)" using inw by (simp add: in_ok_len)
    then show ?thesis
      using runs_mono [OF w] eq o ty inn spec by (auto simp: runs_whenk t_def)
  qed
  have "runs (consputc c') t (\<lambda>_ u. out_only t u)"
    using consputc_prints [of t c'] ok(2) by (simp add: prints_def t_def)
  then have "runs (consputc c') t (\<lambda>_ u. runs (whenk (c' = 10 \<or> c' = 4 \<or> in_e u = in_r u + INPUT_BUF)
        (thenk (modk (\<lambda>s. s\<lparr>in_w := in_e s\<rparr>)) (wakeup ChInput))) u
      (\<lambda>_ v. in_ok v \<and> (committed v, editing v) = type_char c (committed s, editing s) \<and> in_r v = in_r s))"
    by (rule runs_mono) (rule fin)
  moreover have "in_e s - in_r s < 128" using n by (simp add: word_less_nat_alt)
  ultimately show ?thesis
    using assms(2,4-7) by (simp add: console_char_def Let_def t_def flip: c'_def b_def)
qed

lemma console_back:
  assumes "in_ok s" "\<not> panicked s" "c = 8 \<or> c = 127"
  shows "runs (console_char c) s (\<lambda>_ t. in_ok t \<and> (committed t, editing t) = type_char c (committed s, editing s) \<and> in_r t = in_r s)"
proof (cases "in_e s = in_w s")
  case True
  then have "editing s = []" by (simp add: editing_def rspan_def)
  then show ?thesis using assms True by (auto simp: console_char_def type_char_def)
next
  case False
  define u where "u = s\<lparr>in_e := in_e s - 1\<rparr>"
  have u: "in_ok u" "editing u = butlast (editing s)" "committed u = committed s" "in_r u = in_r s" "\<not> panicked u"
    using editing_back(1,2) [OF assms(1) False] assms(2) by (simp_all add: u_def committed_def)
  have "runs (consputc BACKSPACE) u (\<lambda>_ t. out_only u t)" using consputc_prints [OF u(5)] by (simp add: prints_def)
  then have "runs (consputc BACKSPACE) u (\<lambda>_ t. in_ok t \<and> editing t = butlast (editing s) \<and> committed t = committed s \<and> in_r t = in_r s)"
    by (rule runs_mono) (simp add: out_only_line out_only_same u)
  then show ?thesis using assms(3) False
    by (auto simp: console_char_def type_char_def u_def elim!: runs_mono)
qed

text \<open>C20: every character that reaches \<open>consoleintr\<close> acts on the input buffer as on two lists, the input
  that readers may take and the line being edited. The ring buffer never overflows, a commit
  happens at a newline, at \<^verbatim>\<open>C('D')\<close> or when the buffer is full, and no editing character changes
  input that has been committed.\<close>

theorem console_line:
  assumes "line_ready s" "0 \<le> c" "c < 256"
  shows "\<exists>t. console_char c s = Ok () t \<and> in_ok t \<and>
    (committed t, editing t) = type_char c (committed s, editing s) \<and> in_r t = in_r s"
proof -
  have ok: "in_ok s" "\<not> panicked s" "unl ConsLock (lk s)" "wf_cli (lk s)" using assms(1) by (auto simp: line_ready_def)
  let ?Q = "\<lambda>_ t. in_ok t \<and> (committed t, editing t) = type_char c (committed s, editing s) \<and> in_r t = in_r s"
  consider "c = 16" | "c = 21" | "c = 8 \<or> c = 127"
    | "c \<noteq> 16" "c \<noteq> 21" "c \<noteq> 8" "c \<noteq> 127" "c \<noteq> 0 \<and> length (committed s) + length (editing s) < 128"
    | "c \<noteq> 16" "c \<noteq> 21" "c \<noteq> 8" "c \<noteq> 127" "\<not> (c \<noteq> 0 \<and> length (committed s) + length (editing s) < 128)" by blast
  then have "runs (console_char c) s ?Q"
  proof cases
    case 1
    then show ?thesis using procdump_prints [OF ok(2-4)] ok(1)
      by (auto simp: console_char_def prints_def type_char_def out_only_line out_only_same elim!: runs_mono)
  next
    case 2
    then show ?thesis using kill_line_runs [OF ok(1,2), of "Suc (unat (in_e s - in_w s))"]
      by (auto simp: console_char_def type_char_def editing_def elim!: runs_mono)
  next
    case 3
    then show ?thesis by (rule console_back [OF ok(1,2)])
  next
    case 4
    then show ?thesis using console_typed [OF assms(1) _ assms(3)] assms(2) by simp
  next
    case 5
    then have "\<not> (c \<noteq> 0 \<and> in_e s - in_r s < 128)"
      using in_ok_split(2) [OF ok(1)] by (auto simp: word_less_nat_alt)
    then show ?thesis using 5 ok(1) by (auto simp: console_char_def type_char_def)
  qed
  then show ?thesis by (auto simp: runs_def)
qed

definition cmach0 :: cmach where
  "cmach0 = rmach.extend rmach0
     (cmach.fields False True (\<lambda>_. 0) 0 True [] [] [] 0 (\<lambda>_. 0) 0 0 0 (\<lambda>_. None))"

lemma cmach0_simps [simp]:
  "crt_pos cmach0 = 0" "panicked cmach0 = False" "lk cmach0 = lk0" "in_r cmach0 = 0" "in_w cmach0 = 0" "in_e cmach0 = 0"
  by (simp_all add: cmach0_def rmach.defs cmach.defs rmach0_def lmach.defs lmach0_def)

theorem cgaputc_in_screen_witness:
  "\<exists>t. cgaputc 10 cmach0 = Ok () t \<and> unat (crt_pos t) < 24 * 80"
  using cgaputc_in_screen [of cmach0 10] by auto

theorem console_line_witness:
  "\<exists>t. console_char 104 cmach0 = Ok () t \<and> committed t = [] \<and> editing t = [104]"
  using console_line [of cmach0 104]
  by (auto simp: line_ready_def in_ok_def committed_def editing_def rspan_def type_char_def Let_def)

end
