(* ===== verification/Inode.thy ===== *)
theory Inode
  imports Console
begin

text \<open>
  The block and inode layers of \<^verbatim>\<open>fs.c\<close>: the allocation bitmap, the inode cache and the content of
  inodes, with the two functions by which the console acts as a file (\<open>consoleread\<close> and
  \<open>consolewrite\<close> of \<^verbatim>\<open>console.c\<close>).

  A pointer to an inode is its index in \<open>icache.inode\<close>. The buffers that \<open>readi\<close> fills and
  \<open>writei\<close> empties are either a virtual address (of the current process, or of the direct map
  of physical memory) or an object on the kernel stack, whose bytes are passed along.
\<close>

section \<open>State\<close>

record inode =
  idev :: u32
  inum :: u32
  iref :: int
  ibusy :: bool
  ivalid :: bool
  itype :: u16
  imajor :: u16
  iminor :: u16
  inlink :: u16
  isize :: u32
  iaddrs :: "nat \<Rightarrow> u32"

record imach = cmach +
  icache :: "nat \<Rightarrow> inode"

definition set_ino :: "nat \<Rightarrow> (inode \<Rightarrow> inode) \<Rightarrow> ('z imach_scheme, unit) kern" where
  "set_ino ip f = modk (\<lambda>s. s\<lparr>icache := (icache s)(ip := f (icache s ip))\<rparr>)"

definition get_ino :: "nat \<Rightarrow> ('z imach_scheme, inode) kern" where
  "get_ino ip = readk (\<lambda>s. icache s ip)"

datatype kptr = Va u32 | Obj bytes

text \<open>\<open>memmove(p + tot, d + off, m)\<close> and \<open>memmove(d + off, p + tot, m)\<close> for a pointer \<open>p\<close> of
  either kind.\<close>

definition copy_to :: "kptr \<Rightarrow> nat \<Rightarrow> bytes \<Rightarrow> nat \<Rightarrow> nat \<Rightarrow> ('z vmach_scheme, kptr) kern" where
  "copy_to p tot d off m =
     (case p of
        Va a \<Rightarrow> thenk (foreach [0..<m] (\<lambda>i. vwrite8 (a + of_nat (tot + i)) (d (off + i)))) (retk (Va a))
      | Obj b \<Rightarrow> retk (Obj (blit b tot d off m)))"

fun vread_bytes :: "u32 \<Rightarrow> nat \<Rightarrow> ('z vmach_scheme, u8 list) kern" where
  "vread_bytes a 0 = retk []"
| "vread_bytes a (Suc n) = bindk (vread8 a) (\<lambda>b. bindk (vread_bytes (a + 1) n) (\<lambda>bs. retk (b # bs)))"

definition copy_from :: "kptr \<Rightarrow> nat \<Rightarrow> nat \<Rightarrow> bytes \<Rightarrow> nat \<Rightarrow> ('z vmach_scheme, bytes) kern" where
  "copy_from p tot m d off =
     (case p of
        Va a \<Rightarrow> bindk (vread_bytes (a + of_nat tot) m) (\<lambda>bs. retk (blit d off (\<lambda>i. bs ! i) 0 m))
      | Obj b \<Rightarrow> retk (blit d off b tot m))"

section \<open>Blocks\<close>

definition bzero :: "u32 \<Rightarrow> u32 \<Rightarrow> ('z lmach_scheme, unit) kern" where
  "bzero dev bno =
     bindk (bread dev bno) (\<lambda>bp.
     thenk (set_data bp (\<lambda>d. \<lambda>i. if i < BSIZE then 0 else d i))
     (thenk (log_write bp)
     (brelse bp)))"

text \<open>The byte and the mask of bit \<open>bi\<close>.\<close>

definition bit_mask :: "nat \<Rightarrow> u8" where
  "bit_mask bi = push_bit (bi mod 8) 1"

definition bit_free :: "bytes \<Rightarrow> nat \<Rightarrow> bool" where
  "bit_free d bi \<longleftrightarrow> d (bi div 8) AND bit_mask bi = 0"

text \<open>The outer loop of \<open>balloc\<close>; \<open>2 ^ 20\<close> bitmap blocks cover all block numbers.\<close>

fun balloc_loop :: "nat \<Rightarrow> u32 \<Rightarrow> superblock \<Rightarrow> u32 \<Rightarrow> ('z lmach_scheme, u32) kern" where
  "balloc_loop 0 dev sb b = spink"
| "balloc_loop (Suc fuel) dev sb b =
     (if \<not> b < sb_size sb then panic ''balloc: out of blocks'' else
      bindk (bread dev (BBLOCK b (sb_ninodes sb))) (\<lambda>bp.
      bindk (bp_data bp) (\<lambda>d.
      case find (bit_free d) (takeWhile (\<lambda>bi. b + of_nat bi < sb_size sb) [0..<BPB]) of
        Some bi \<Rightarrow>
          thenk (set_data bp (\<lambda>d. d(bi div 8 := d (bi div 8) OR bit_mask bi)))
          (thenk (log_write bp)
          (thenk (brelse bp)
          (thenk (bzero dev (b + of_nat bi))
          (retk (b + of_nat bi)))))
      | None \<Rightarrow>
          thenk (brelse bp)
          (balloc_loop fuel dev sb (b + of_nat BPB)))))"

definition balloc :: "u32 \<Rightarrow> ('z lmach_scheme, u32) kern" where
  "balloc dev = bindk (readsb dev) (\<lambda>sb. balloc_loop (2 ^ 20 + 1) dev sb 0)"

definition bfree :: "u32 \<Rightarrow> u32 \<Rightarrow> ('z lmach_scheme, unit) kern" where
  "bfree dev b =
     bindk (readsb dev) (\<lambda>sb.
     bindk (bread dev (BBLOCK b (sb_ninodes sb))) (\<lambda>bp.
     bindk (bp_data bp) (\<lambda>d.
     let bi = unat b mod BPB in
     if bit_free d bi then panic ''freeing free block'' else
     thenk (set_data bp (\<lambda>d. d(bi div 8 := d (bi div 8) AND NOT (bit_mask bi))))
     (thenk (log_write bp)
     (brelse bp)))))"

section \<open>Inodes\<close>

definition iinit :: "('z imach_scheme, unit) kern" where
  "iinit = initlock IcacheLock"

text \<open>The offset of the disk inode \<open>inum\<close> in its block, and its fields there.\<close>

definition dino_off :: "u32 \<Rightarrow> nat" where
  "dino_off i = dinode_size * (unat i mod IPB)"

definition get_dinode :: "bytes \<Rightarrow> nat \<Rightarrow> dinode" where
  "get_dinode d o' = \<lparr>di_type = get16 d o', di_major = get16 d (o' + 2), di_minor = get16 d (o' + 4),
     di_nlink = get16 d (o' + 6), di_size = get32 d (o' + 8), di_addrs = (\<lambda>i. get32 d (o' + 12 + 4 * i))\<rparr>"

definition put_dinode :: "dinode \<Rightarrow> nat \<Rightarrow> bytes \<Rightarrow> bytes" where
  "put_dinode di o' d =
     (let d = put16 d o' (di_type di);
          d = put16 d (o' + 2) (di_major di);
          d = put16 d (o' + 4) (di_minor di);
          d = put16 d (o' + 6) (di_nlink di);
          d = put32 d (o' + 8) (di_size di)
      in foldl (\<lambda>e i. put32 e (o' + 12 + 4 * i) (di_addrs di i)) d [0..<NDIRECT + 1])"

definition iget :: "u32 \<Rightarrow> u32 \<Rightarrow> ('z imach_scheme, nat) kern" where
  "iget dev i =
     thenk (acquire IcacheLock)
     (bindk (readk icache) (\<lambda>ic.
     case find (\<lambda>k. iref (ic k) > 0 \<and> idev (ic k) = dev \<and> inum (ic k) = i) [0..<NINODE] of
       Some ip \<Rightarrow>
         thenk (set_ino ip (\<lambda>x. x\<lparr>iref := iref x + 1\<rparr>))
         (thenk (release IcacheLock)
         (retk ip))
     | None \<Rightarrow>
         (case find (\<lambda>k. iref (ic k) = 0) [0..<NINODE] of
            None \<Rightarrow> panic ''iget: no inodes''
          | Some ip \<Rightarrow>
              thenk (set_ino ip (\<lambda>x. x\<lparr>idev := dev, inum := i, iref := 1, ibusy := False, ivalid := False\<rparr>))
              (thenk (release IcacheLock)
              (retk ip)))))"

fun ialloc_loop :: "u32 \<Rightarrow> u16 \<Rightarrow> nat list \<Rightarrow> ('z imach_scheme, nat) kern" where
  "ialloc_loop dev type [] = panic ''ialloc: no inodes''"
| "ialloc_loop dev type (i # is) =
     bindk (bread dev (IBLOCK (of_nat i))) (\<lambda>bp.
     bindk (bp_data bp) (\<lambda>d.
     let o' = dino_off (of_nat i) in
     if get16 d o' = 0 then
       thenk (set_data bp (\<lambda>d. put16 (\<lambda>k. if o' \<le> k \<and> k < o' + dinode_size then 0 else d k) o' type))
       (thenk (log_write bp)
       (thenk (brelse bp)
       (iget dev (of_nat i))))
     else
       thenk (brelse bp)
       (ialloc_loop dev type is)))"

definition ialloc :: "u32 \<Rightarrow> u16 \<Rightarrow> ('z imach_scheme, nat) kern" where
  "ialloc dev type = bindk (readsb dev) (\<lambda>sb. ialloc_loop dev type [1..<unat (sb_ninodes sb)])"

definition iupdate :: "nat \<Rightarrow> ('z imach_scheme, unit) kern" where
  "iupdate ip =
     bindk (get_ino ip) (\<lambda>x.
     bindk (bread (idev x) (IBLOCK (inum x))) (\<lambda>bp.
     thenk (set_data bp (put_dinode
       \<lparr>di_type = itype x, di_major = imajor x, di_minor = iminor x, di_nlink = inlink x,
        di_size = isize x, di_addrs = iaddrs x\<rparr> (dino_off (inum x))))
     (thenk (log_write bp)
     (brelse bp))))"

definition idup :: "nat \<Rightarrow> ('z imach_scheme, nat) kern" where
  "idup ip =
     thenk (acquire IcacheLock)
     (thenk (set_ino ip (\<lambda>x. x\<lparr>iref := iref x + 1\<rparr>))
     (thenk (release IcacheLock)
     (retk ip)))"

definition ilock :: "nat \<Rightarrow> ('z imach_scheme, unit) kern" where
  "ilock ip =
     bindk (get_ino ip) (\<lambda>x.
     if iref x < 1 then panic ''ilock'' else
     thenk (acquire IcacheLock)
     (bindk (get_ino ip) (\<lambda>x.
     if ibusy x then sleep (ChInode ip) IcacheLock else
     thenk (set_ino ip (\<lambda>x. x\<lparr>ibusy := True\<rparr>))
     (thenk (release IcacheLock)
     (bindk (get_ino ip) (\<lambda>x.
     if ivalid x then retk () else
     bindk (bread (idev x) (IBLOCK (inum x))) (\<lambda>bp.
     bindk (bp_data bp) (\<lambda>d.
     let di = get_dinode d (dino_off (inum x)) in
     thenk (set_ino ip (\<lambda>x. x\<lparr>itype := di_type di, imajor := di_major di, iminor := di_minor di,
        inlink := di_nlink di, isize := di_size di,
        iaddrs := (\<lambda>i. if i < NDIRECT + 1 then di_addrs di i else iaddrs x i)\<rparr>))
     (thenk (brelse bp)
     (thenk (set_ino ip (\<lambda>x. x\<lparr>ivalid := True\<rparr>))
     (if di_type di = 0 then panic ''ilock: no type'' else retk ())))))))))))"

definition iunlock :: "nat \<Rightarrow> ('z imach_scheme, unit) kern" where
  "iunlock ip =
     bindk (get_ino ip) (\<lambda>x.
     if \<not> ibusy x \<or> iref x < 1 then panic ''iunlock'' else
     thenk (acquire IcacheLock)
     (thenk (set_ino ip (\<lambda>x. x\<lparr>ibusy := False\<rparr>))
     (thenk (wakeup (ChInode ip))
     (release IcacheLock))))"

section \<open>Content\<close>

definition bmap :: "nat \<Rightarrow> u32 \<Rightarrow> ('z imach_scheme, u32) kern" where
  "bmap ip bn =
     bindk (get_ino ip) (\<lambda>x.
     if unat bn < NDIRECT then
       (if iaddrs x (unat bn) \<noteq> 0 then retk (iaddrs x (unat bn)) else
        bindk (balloc (idev x)) (\<lambda>addr.
        thenk (set_ino ip (\<lambda>x. x\<lparr>iaddrs := (iaddrs x)(unat bn := addr)\<rparr>))
        (retk addr)))
     else
       let bn = bn - of_nat NDIRECT in
       if unat bn < NINDIRECT then
         bindk (if iaddrs x NDIRECT \<noteq> 0 then retk (iaddrs x NDIRECT) else
           bindk (balloc (idev x)) (\<lambda>addr.
           thenk (set_ino ip (\<lambda>x. x\<lparr>iaddrs := (iaddrs x)(NDIRECT := addr)\<rparr>))
           (retk addr))) (\<lambda>addr.
         bindk (bread (idev x) addr) (\<lambda>bp.
         bindk (bp_data bp) (\<lambda>a.
         let addr = get32 a (4 * unat bn) in
         bindk (if addr \<noteq> 0 then retk addr else
           bindk (balloc (idev x)) (\<lambda>addr.
           thenk (set_data bp (\<lambda>d. put32 d (4 * unat bn) addr))
           (thenk (log_write bp)
           (retk addr)))) (\<lambda>addr.
         thenk (brelse bp)
         (retk addr)))))
       else panic ''bmap: out of range'')"

definition itrunc_direct :: "nat \<Rightarrow> nat \<Rightarrow> ('z imach_scheme, unit) kern" where
  "itrunc_direct ip i =
     bindk (get_ino ip) (\<lambda>x.
     whenk (iaddrs x i \<noteq> 0)
       (thenk (bfree (idev x) (iaddrs x i))
       (set_ino ip (\<lambda>x. x\<lparr>iaddrs := (iaddrs x)(i := 0)\<rparr>))))"

definition itrunc :: "nat \<Rightarrow> ('z imach_scheme, unit) kern" where
  "itrunc ip =
     thenk (foreach [0..<NDIRECT] (itrunc_direct ip))
     (thenk
       (bindk (get_ino ip) (\<lambda>x.
        whenk (iaddrs x NDIRECT \<noteq> 0)
          (bindk (bread (idev x) (iaddrs x NDIRECT)) (\<lambda>bp.
           thenk (foreach [0..<NINDIRECT] (\<lambda>j.
             bindk (bp_data bp) (\<lambda>a.
             whenk (get32 a (4 * j) \<noteq> 0) (bfree (idev x) (get32 a (4 * j))))))
           (thenk (brelse bp)
           (thenk (bfree (idev x) (iaddrs x NDIRECT))
           (set_ino ip (\<lambda>x. x\<lparr>iaddrs := (iaddrs x)(NDIRECT := 0)\<rparr>))))))))
     (thenk (set_ino ip (\<lambda>x. x\<lparr>isize := 0\<rparr>))
     (iupdate ip)))"

definition iput :: "nat \<Rightarrow> ('z imach_scheme, unit) kern" where
  "iput ip =
     thenk (acquire IcacheLock)
     (bindk (get_ino ip) (\<lambda>x.
     thenk (whenk (iref x = 1 \<and> ivalid x \<and> inlink x = 0)
       (if ibusy x then panic ''iput busy'' else
        thenk (set_ino ip (\<lambda>x. x\<lparr>ibusy := True\<rparr>))
        (thenk (release IcacheLock)
        (thenk (itrunc ip)
        (thenk (set_ino ip (\<lambda>x. x\<lparr>itype := 0\<rparr>))
        (thenk (iupdate ip)
        (thenk (acquire IcacheLock)
        (thenk (set_ino ip (\<lambda>x. x\<lparr>ibusy := False, ivalid := False\<rparr>))
        (wakeup (ChInode ip))))))))))
     (thenk (set_ino ip (\<lambda>x. x\<lparr>iref := iref x - 1\<rparr>))
     (release IcacheLock))))"

definition iunlockput :: "nat \<Rightarrow> ('z imach_scheme, unit) kern" where
  "iunlockput ip = thenk (iunlock ip) (iput ip)"

text \<open>\<open>stati\<close> stores into a \<open>struct stat\<close> in user memory: type at 0, device at 4, inode number at
  8, link count at 12 and size at 16.\<close>

definition vwrite16 :: "u32 \<Rightarrow> u16 \<Rightarrow> ('z vmach_scheme, unit) kern" where
  "vwrite16 va w = thenk (vwrite8 va (ucast w)) (vwrite8 (va + 1) (ucast (drop_bit 8 w)))"

definition stat_size :: u32 where [simp]: "stat_size = 20"

definition stati :: "nat \<Rightarrow> u32 \<Rightarrow> ('z imach_scheme, unit) kern" where
  "stati ip st =
     bindk (get_ino ip) (\<lambda>x.
     thenk (vwrite32 (st + 4) (idev x))
     (thenk (vwrite32 (st + 8) (inum x))
     (thenk (vwrite16 st (itype x))
     (thenk (vwrite16 (st + 12) (inlink x))
     (vwrite32 (st + 16) (isize x))))))"

section \<open>The console as a device\<close>

text \<open>The loop of \<open>consoleread\<close>, with \<open>n\<close> bytes still wanted: the number not read, or \<open>None\<close> for a
  process that was killed.\<close>

fun consoleread_loop :: "nat \<Rightarrow> u32 \<Rightarrow> kptr \<Rightarrow> ('z imach_scheme, nat option \<times> kptr) kern" where
  "consoleread_loop 0 target dst = retk (Some 0, dst)"
| "consoleread_loop (Suc n) target dst =
     bindk (readk (\<lambda>s. in_r s = in_w s)) (\<lambda>empty.
     if empty then
       bindk (getproc killed) (\<lambda>k. if k then retk (None, dst) else sleep ChInput InputLock)
     else
       bindk (readk (\<lambda>s. in_buf s (in_slot (in_r s)))) (\<lambda>c.
       thenk (modk (\<lambda>s. s\<lparr>in_r := in_r s + 1\<rparr>))
       (if c = 4 then
          thenk (whenk (of_nat (Suc n) < target) (modk (\<lambda>s. s\<lparr>in_r := in_r s - 1\<rparr>)))
          (retk (Some (Suc n), dst))
        else
          bindk (copy_to dst (unat target - Suc n) (\<lambda>_. c) 0 1) (\<lambda>dst.
          if c = 10 then retk (Some n, dst) else consoleread_loop n target dst))))"

definition consoleread :: "nat \<Rightarrow> kptr \<Rightarrow> u32 \<Rightarrow> ('z imach_scheme, int \<times> kptr) kern" where
  "consoleread ip dst n =
     thenk (iunlock ip)
     (thenk (acquire InputLock)
     (bindk (consoleread_loop (nat (sint n)) n dst) (\<lambda>(r, dst).
     thenk (release InputLock)
     (thenk (ilock ip)
     (retk (case r of None \<Rightarrow> -1 | Some k \<Rightarrow> if sint n < 0 then 0 else sint (n - of_nat k), dst))))))"

definition consolewrite :: "nat \<Rightarrow> kptr \<Rightarrow> u32 \<Rightarrow> ('z imach_scheme, int) kern" where
  "consolewrite ip buf n =
     thenk (iunlock ip)
     (thenk (acquire ConsLock)
     (thenk (foreach [0..<nat (sint n)] (\<lambda>i.
        bindk (copy_from buf i 1 (\<lambda>_. 0) 0) (\<lambda>b. consputc (uint (b 0)))))
     (thenk (release ConsLock)
     (thenk (ilock ip)
     (retk (sint n))))))"

section \<open>Reading and writing\<close>

text \<open>The loops; \<open>tot\<close> grows in every round, so \<open>n + 1\<close> rounds are enough.\<close>

fun readi_loop :: "nat \<Rightarrow> nat \<Rightarrow> kptr \<Rightarrow> u32 \<Rightarrow> nat \<Rightarrow> nat \<Rightarrow> ('z imach_scheme, kptr) kern" where
  "readi_loop 0 ip dst off n tot = spink"
| "readi_loop (Suc fuel) ip dst off n tot =
     (if \<not> tot < n then retk dst else
      bindk (get_ino ip) (\<lambda>x.
      bindk (bmap ip (off div of_nat BSIZE)) (\<lambda>addr.
      bindk (bread (idev x) addr) (\<lambda>bp.
      let m = min (n - tot) (BSIZE - unat off mod BSIZE) in
      bindk (bp_data bp) (\<lambda>d.
      bindk (copy_to dst tot d (unat off mod BSIZE) m) (\<lambda>dst.
      thenk (brelse bp)
      (readi_loop fuel ip dst (off + of_nat m) n (tot + m))))))))"

definition readi :: "nat \<Rightarrow> kptr \<Rightarrow> u32 \<Rightarrow> u32 \<Rightarrow> ('z imach_scheme, int \<times> kptr) kern" where
  "readi ip dst off n =
     bindk (get_ino ip) (\<lambda>x.
     if itype x = T_DEV then
       bindk (readk devsw) (\<lambda>dv.
       if sint (imajor x) < 0 \<or> NDEV \<le> sint (imajor x) then retk (-1, dst) else
       case dv (sint (imajor x)) of
         None \<Rightarrow> retk (-1, dst)
       | Some ConsoleDev \<Rightarrow> consoleread ip dst n)
     else if isize x < off \<or> off + n < off then retk (-1, dst)
     else
       let n = (if isize x < off + n then isize x - off else n) in
       bindk (readi_loop (Suc (unat n)) ip dst off (unat n) 0) (\<lambda>dst.
       retk (sint n, dst)))"

fun writei_loop :: "nat \<Rightarrow> nat \<Rightarrow> kptr \<Rightarrow> u32 \<Rightarrow> nat \<Rightarrow> nat \<Rightarrow> ('z imach_scheme, u32) kern" where
  "writei_loop 0 ip src off n tot = spink"
| "writei_loop (Suc fuel) ip src off n tot =
     (if \<not> tot < n then retk off else
      bindk (get_ino ip) (\<lambda>x.
      bindk (bmap ip (off div of_nat BSIZE)) (\<lambda>addr.
      bindk (bread (idev x) addr) (\<lambda>bp.
      let m = min (n - tot) (BSIZE - unat off mod BSIZE) in
      bindk (bp_data bp) (\<lambda>d.
      bindk (copy_from src tot m d (unat off mod BSIZE)) (\<lambda>d'.
      thenk (set_data bp (\<lambda>_. d'))
      (thenk (log_write bp)
      (thenk (brelse bp)
      (writei_loop fuel ip src (off + of_nat m) n (tot + m))))))))))"

definition writei :: "nat \<Rightarrow> kptr \<Rightarrow> u32 \<Rightarrow> u32 \<Rightarrow> ('z imach_scheme, int) kern" where
  "writei ip src off n =
     bindk (get_ino ip) (\<lambda>x.
     if itype x = T_DEV then
       bindk (readk devsw) (\<lambda>dv.
       if sint (imajor x) < 0 \<or> NDEV \<le> sint (imajor x) then retk (-1) else
       case dv (sint (imajor x)) of
         None \<Rightarrow> retk (-1)
       | Some ConsoleDev \<Rightarrow> consolewrite ip src n)
     else if isize x < off \<or> off + n < off then retk (-1)
     else if off + n > of_nat (MAXFILE * BSIZE) then retk (-1)
     else
       bindk (writei_loop (Suc (unat n)) ip src off (unat n) 0) (\<lambda>off'.
       bindk (get_ino ip) (\<lambda>x.
       thenk (whenk (0 < n \<and> isize x < off')
         (thenk (set_ino ip (\<lambda>x. x\<lparr>isize := off'\<rparr>))
         (iupdate ip)))
       (retk (sint n)))))"

text \<open>A machine with an empty inode cache.\<close>

definition imach0 :: imach where
  "imach0 = cmach.extend cmach0 (imach.fields (\<lambda>_. \<lparr>idev = 0, inum = 0, iref = 0, ibusy = False, ivalid = False,
     itype = 0, imajor = 0, iminor = 0, inlink = 0, isize = 0, iaddrs = (\<lambda>_. 0)\<rparr>))"

lemma imach0_simps [simp]:
  "lk imach0 = lk0" "iref (icache imach0 k) = 0" "quiet imach0"
  using quiet_lk0 [of imach0] by (simp_all add: imach0_def imach.defs cmach0_def rmach.defs cmach.defs rmach0_def lmach.defs lmach0_def)

end
