(* ===== verification/Dir.thy ===== *)
theory Dir
  imports Inode
begin

text \<open>
  Directories and path names of \<^verbatim>\<open>fs.c\<close>. A path or a name is the list of its characters without the
  terminating zero; a name has at most \<open>DIRSIZ\<close> characters, as much as the buffers of the code
  hold (of a longer path element, \<open>skipelem\<close> keeps the first \<open>DIRSIZ\<close>).
\<close>

section \<open>Names\<close>

text \<open>The bytes of a buffer that holds a list of characters and zeros after it.\<close>

definition lbytes :: "u8 list \<Rightarrow> bytes" where
  "lbytes xs = (\<lambda>i. if i < length xs then xs ! i else 0)"

text \<open>\<open>strncmp\<close> on two character arrays; \<open>n\<close> characters from position \<open>i\<close> on.\<close>

fun bstrncmp :: "bytes \<Rightarrow> bytes \<Rightarrow> nat \<Rightarrow> nat \<Rightarrow> int" where
  "bstrncmp p q i 0 = 0"
| "bstrncmp p q i (Suc n) =
     (if p i \<noteq> 0 \<and> p i = q i then bstrncmp p q (Suc i) n else uint (p i) - uint (q i))"

definition namecmp :: "bytes \<Rightarrow> bytes \<Rightarrow> int" where
  "namecmp s t = bstrncmp s t 0 DIRSIZ"

text \<open>A directory entry: the inode number and the name.\<close>

definition get_dirent :: "bytes \<Rightarrow> dirent" where
  "get_dirent d = \<lparr>de_inum = get16 d 0, de_name = (\<lambda>i. d (2 + i))\<rparr>"

definition put_dirent :: "dirent \<Rightarrow> bytes" where
  "put_dirent de = put16 (\<lambda>i. if 2 \<le> i \<and> i < dirent_size then de_name de (i - 2) else 0) 0 (de_inum de)"

definition obj_bytes :: "kptr \<Rightarrow> bytes" where
  "obj_bytes p = (case p of Obj b \<Rightarrow> b | Va a \<Rightarrow> (\<lambda>_. 0))"

section \<open>Directories\<close>

text \<open>The loop of \<open>dirlookup\<close>: the entry found and its offset. A directory of less than
  \<open>2 ^ 32\<close> bytes has at most \<open>2 ^ 28\<close> entries.\<close>

definition dir_fuel :: nat where "dir_fuel = 2 ^ 28 + 1"

fun dirlookup_loop :: "nat \<Rightarrow> nat \<Rightarrow> u8 list \<Rightarrow> u32 \<Rightarrow> ('z imach_scheme, (nat \<times> u32) option) kern" where
  "dirlookup_loop 0 dp name off = spink"
| "dirlookup_loop (Suc fuel) dp name off =
     bindk (get_ino dp) (\<lambda>x.
     if \<not> off < isize x then retk None else
     bindk (readi dp (Obj (\<lambda>_. 0)) off (of_nat dirent_size)) (\<lambda>(r, p).
     if r \<noteq> int dirent_size then panic ''dirlink read'' else
     let de = get_dirent (obj_bytes p) in
     if de_inum de = 0 then dirlookup_loop fuel dp name (off + of_nat dirent_size)
     else if namecmp (lbytes name) (de_name de) = 0 then
       bindk (iget (idev x) (ucast (de_inum de))) (\<lambda>ip. retk (Some (ip, off)))
     else dirlookup_loop fuel dp name (off + of_nat dirent_size)))"

definition dirlookup :: "nat \<Rightarrow> u8 list \<Rightarrow> ('z imach_scheme, (nat \<times> u32) option) kern" where
  "dirlookup dp name =
     bindk (get_ino dp) (\<lambda>x.
     if itype x \<noteq> T_DIR then panic ''dirlookup not DIR'' else dirlookup_loop dir_fuel dp name 0)"

text \<open>The search of \<open>dirlink\<close> for an unused entry: its offset, or the size of the directory.\<close>

fun dirlink_loop :: "nat \<Rightarrow> nat \<Rightarrow> u32 \<Rightarrow> ('z imach_scheme, u32) kern" where
  "dirlink_loop 0 dp off = spink"
| "dirlink_loop (Suc fuel) dp off =
     bindk (get_ino dp) (\<lambda>x.
     if \<not> off < isize x then retk off else
     bindk (readi dp (Obj (\<lambda>_. 0)) off (of_nat dirent_size)) (\<lambda>(r, p).
     if r \<noteq> int dirent_size then panic ''dirlink read'' else
     if de_inum (get_dirent (obj_bytes p)) = 0 then retk off
     else dirlink_loop fuel dp (off + of_nat dirent_size)))"

definition dirlink :: "nat \<Rightarrow> u8 list \<Rightarrow> u32 \<Rightarrow> ('z imach_scheme, int) kern" where
  "dirlink dp name i =
     bindk (dirlookup dp name) (\<lambda>r.
     case r of
       Some (ip, off) \<Rightarrow> thenk (iput ip) (retk (-1))
     | None \<Rightarrow>
         bindk (dirlink_loop dir_fuel dp 0) (\<lambda>off.
         bindk (writei dp (Obj (put_dirent \<lparr>de_inum = ucast i, de_name = lbytes name\<rparr>)) off (of_nat dirent_size)) (\<lambda>r.
         if r \<noteq> int dirent_size then panic ''dirlink'' else retk 0)))"

section \<open>Paths\<close>

definition skipelem :: "u8 list \<Rightarrow> (u8 list \<times> u8 list) option" where
  "skipelem path =
     (let s = dropWhile (\<lambda>c. c = 47) path in
      if s = [] then None
      else Some (take DIRSIZ (takeWhile (\<lambda>c. c \<noteq> 47) s), dropWhile (\<lambda>c. c = 47) (dropWhile (\<lambda>c. c \<noteq> 47) s)))"

text \<open>The loop of \<open>namex\<close>: every round takes an element off the path. The result is the inode, with
  the last element when \<open>nameiparent\<close> stops one level early.\<close>

fun namex_loop :: "nat \<Rightarrow> u8 list \<Rightarrow> bool \<Rightarrow> nat \<Rightarrow> ('z imach_scheme, (nat \<times> u8 list) option) kern" where
  "namex_loop 0 path parent' ip = spink"
| "namex_loop (Suc fuel) path parent' ip =
     (case skipelem path of
        None \<Rightarrow> if parent' then thenk (iput ip) (retk None) else retk (Some (ip, []))
      | Some (name, rest) \<Rightarrow>
          thenk (ilock ip)
          (bindk (get_ino ip) (\<lambda>x.
          if itype x \<noteq> T_DIR then thenk (iunlockput ip) (retk None)
          else if parent' \<and> rest = [] then thenk (iunlock ip) (retk (Some (ip, name)))
          else
            bindk (dirlookup ip name) (\<lambda>r.
            case r of
              None \<Rightarrow> thenk (iunlockput ip) (retk None)
            | Some (next, _) \<Rightarrow> thenk (iunlockput ip) (namex_loop fuel rest parent' next)))))"

definition namex :: "u8 list \<Rightarrow> bool \<Rightarrow> ('z imach_scheme, (nat \<times> u8 list) option) kern" where
  "namex path parent' =
     bindk (if path \<noteq> [] \<and> hd path = 47 then iget ROOTDEV ROOTINO
            else bindk (getproc cwd) (\<lambda>c. case c of None \<Rightarrow> panic ''null cwd'' | Some d \<Rightarrow> idup d))
       (namex_loop (Suc (length path)) path parent')"

definition namei :: "u8 list \<Rightarrow> ('z imach_scheme, nat option) kern" where
  "namei path = bindk (namex path False) (\<lambda>r. retk (map_option fst r))"

definition nameiparent :: "u8 list \<Rightarrow> ('z imach_scheme, (nat \<times> u8 list) option) kern" where
  "nameiparent path = namex path True"

end
