(* ===== verification/File.thy ===== *)
theory File
  imports Dir
begin

text \<open>
  \<^verbatim>\<open>pipe.c\<close> and \<^verbatim>\<open>file.c\<close>: pipes and the table of open files.

  A pipe lives in a page of its own; \<open>pipes\<close> gives the structure at the address of that page. A
  file is its index in \<open>ftable.file\<close>. The loops that may sleep follow the convention of the theory
  \<^verbatim>\<open>Proc\<close>: going to sleep gives up the CPU, with the state as it is then.
\<close>

section \<open>State\<close>

record pipe =
  pdata :: bytes
  nread :: u32
  nwrite :: u32
  readopen :: bool
  writeopen :: bool

datatype ftype = FD_NONE | FD_PIPE | FD_INODE

record openfile =
  ft :: ftype
  fref :: int
  readable :: bool
  writable :: bool
  fpipe :: u32
  fip :: nat
  foff :: u32

record fmach = imach +
  pipes :: "u32 \<Rightarrow> pipe"
  ftable :: "nat \<Rightarrow> openfile"

definition set_pipe :: "u32 \<Rightarrow> (pipe \<Rightarrow> pipe) \<Rightarrow> ('z fmach_scheme, unit) kern" where
  "set_pipe p f = modk (\<lambda>s. s\<lparr>pipes := (pipes s)(p := f (pipes s p))\<rparr>)"

definition get_pipe :: "u32 \<Rightarrow> ('z fmach_scheme, pipe) kern" where
  "get_pipe p = readk (\<lambda>s. pipes s p)"

definition set_file :: "nat \<Rightarrow> (openfile \<Rightarrow> openfile) \<Rightarrow> ('z fmach_scheme, unit) kern" where
  "set_file f g = modk (\<lambda>s. s\<lparr>ftable := (ftable s)(f := g (ftable s f))\<rparr>)"

definition get_file :: "nat \<Rightarrow> ('z fmach_scheme, openfile) kern" where
  "get_file f = readk (\<lambda>s. ftable s f)"

section \<open>Pipes\<close>

definition PIPESIZE :: u32 where [simp]: "PIPESIZE = 512"

definition pipe_slot :: "u32 \<Rightarrow> nat" where
  "pipe_slot x = unat (x mod PIPESIZE)"

definition pipeclose :: "u32 \<Rightarrow> bool \<Rightarrow> ('z fmach_scheme, unit) kern" where
  "pipeclose p writable' =
     thenk (acquire (PipeLock p))
     (thenk (if writable' then thenk (set_pipe p (\<lambda>x. x\<lparr>writeopen := False\<rparr>)) (wakeup (ChPipeRead p))
             else thenk (set_pipe p (\<lambda>x. x\<lparr>readopen := False\<rparr>)) (wakeup (ChPipeWrite p)))
     (bindk (get_pipe p) (\<lambda>x.
     if \<not> readopen x \<and> \<not> writeopen x then thenk (release (PipeLock p)) (kfree p)
     else release (PipeLock p))))"

text \<open>The loop of \<open>pipewrite\<close>; \<open>k\<close> bytes are still to be written, from index \<open>i\<close> on.\<close>

fun pipewrite_loop :: "nat \<Rightarrow> u32 \<Rightarrow> u32 \<Rightarrow> u32 \<Rightarrow> ('z fmach_scheme, bool) kern" where
  "pipewrite_loop 0 p addr i = retk True"
| "pipewrite_loop (Suc k) p addr i =
     bindk (get_pipe p) (\<lambda>x.
     if nwrite x = nread x + PIPESIZE then
       bindk (getproc killed) (\<lambda>kl.
       if \<not> readopen x \<or> kl then retk False
       else thenk (wakeup (ChPipeRead p)) (sleep (ChPipeWrite p) (PipeLock p)))
     else
       bindk (vread8 (addr + i)) (\<lambda>b.
       thenk (set_pipe p (\<lambda>x. x\<lparr>pdata := (pdata x)(pipe_slot (nwrite x) := b), nwrite := nwrite x + 1\<rparr>))
       (pipewrite_loop k p addr (i + 1))))"

definition pipewrite :: "u32 \<Rightarrow> u32 \<Rightarrow> u32 \<Rightarrow> ('z fmach_scheme, int) kern" where
  "pipewrite p addr n =
     thenk (acquire (PipeLock p))
     (bindk (pipewrite_loop (nat (sint n)) p addr 0) (\<lambda>ok.
     if \<not> ok then thenk (release (PipeLock p)) (retk (-1)) else
     thenk (wakeup (ChPipeRead p))
     (thenk (release (PipeLock p))
     (retk (sint n)))))"

text \<open>The copy loop of \<open>piperead\<close>, from index \<open>i\<close> on: the number of bytes copied.\<close>

fun piperead_loop :: "nat \<Rightarrow> u32 \<Rightarrow> u32 \<Rightarrow> u32 \<Rightarrow> ('z fmach_scheme, u32) kern" where
  "piperead_loop 0 p addr i = retk i"
| "piperead_loop (Suc k) p addr i =
     bindk (get_pipe p) (\<lambda>x.
     if nread x = nwrite x then retk i else
     thenk (set_pipe p (\<lambda>x. x\<lparr>nread := nread x + 1\<rparr>))
     (thenk (vwrite8 (addr + i) (pdata x (pipe_slot (nread x))))
     (piperead_loop k p addr (i + 1))))"

definition piperead :: "u32 \<Rightarrow> u32 \<Rightarrow> u32 \<Rightarrow> ('z fmach_scheme, int) kern" where
  "piperead p addr n =
     thenk (acquire (PipeLock p))
     (bindk (get_pipe p) (\<lambda>x.
     if nread x = nwrite x \<and> writeopen x then
       bindk (getproc killed) (\<lambda>kl.
       if kl then thenk (release (PipeLock p)) (retk (-1))
       else sleep (ChPipeRead p) (PipeLock p))
     else
       bindk (piperead_loop (nat (sint n)) p addr 0) (\<lambda>i.
       thenk (wakeup (ChPipeWrite p))
       (thenk (release (PipeLock p))
       (retk (sint i))))))"

section \<open>Open files\<close>

definition fileinit :: "('z fmach_scheme, unit) kern" where
  "fileinit = initlock FtableLock"

definition filealloc :: "('z fmach_scheme, nat option) kern" where
  "filealloc =
     thenk (acquire FtableLock)
     (bindk (readk (\<lambda>s. find (\<lambda>f. fref (ftable s f) = 0) [0..<NFILE])) (\<lambda>r.
     case r of
       Some f \<Rightarrow>
         thenk (set_file f (\<lambda>x. x\<lparr>fref := 1\<rparr>))
         (thenk (release FtableLock)
         (retk (Some f)))
     | None \<Rightarrow> thenk (release FtableLock) (retk None)))"

definition filedup :: "nat \<Rightarrow> ('z fmach_scheme, nat) kern" where
  "filedup f =
     thenk (acquire FtableLock)
     (bindk (get_file f) (\<lambda>x.
     if fref x < 1 then panic ''filedup'' else
     thenk (set_file f (\<lambda>x. x\<lparr>fref := fref x + 1\<rparr>))
     (thenk (release FtableLock)
     (retk f))))"

definition fileclose :: "nat \<Rightarrow> ('z fmach_scheme, unit) kern" where
  "fileclose f =
     thenk (acquire FtableLock)
     (bindk (get_file f) (\<lambda>x.
     if fref x < 1 then panic ''fileclose'' else
     thenk (set_file f (\<lambda>x. x\<lparr>fref := fref x - 1\<rparr>))
     (if fref x - 1 > 0 then release FtableLock else
     bindk (get_file f) (\<lambda>ff.
     thenk (set_file f (\<lambda>x. x\<lparr>fref := 0, ft := FD_NONE\<rparr>))
     (thenk (release FtableLock)
     (case ft ff of
        FD_PIPE \<Rightarrow> pipeclose (fpipe ff) (writable ff)
      | FD_INODE \<Rightarrow> thenk begin_trans (thenk (iput (fip ff)) commit_trans)
      | FD_NONE \<Rightarrow> retk ()))))))"

text \<open>\<open>pipealloc\<close>: the two ends, or \<open>None\<close> after the error path \<open>bad\<close>.\<close>

definition pipealloc_bad :: "nat option \<Rightarrow> nat option \<Rightarrow> ('z fmach_scheme, (nat \<times> nat) option) kern" where
  "pipealloc_bad f0 f1 =
     thenk (case f0 of None \<Rightarrow> retk () | Some f \<Rightarrow> fileclose f)
     (thenk (case f1 of None \<Rightarrow> retk () | Some f \<Rightarrow> fileclose f)
     (retk None))"

definition pipealloc :: "('z fmach_scheme, (nat \<times> nat) option) kern" where
  "pipealloc =
     bindk filealloc (\<lambda>r0.
     case r0 of None \<Rightarrow> pipealloc_bad None None | Some f0 \<Rightarrow>
     bindk filealloc (\<lambda>r1.
     case r1 of None \<Rightarrow> pipealloc_bad (Some f0) None | Some f1 \<Rightarrow>
     bindk kalloc (\<lambda>p.
     if p = 0 then pipealloc_bad (Some f0) (Some f1) else
     thenk (set_pipe p (\<lambda>x. x\<lparr>readopen := True, writeopen := True, nwrite := 0, nread := 0\<rparr>))
     (thenk (initlock (PipeLock p))
     (thenk (set_file f0 (\<lambda>x. x\<lparr>ft := FD_PIPE, readable := True, writable := False, fpipe := p\<rparr>))
     (thenk (set_file f1 (\<lambda>x. x\<lparr>ft := FD_PIPE, readable := False, writable := True, fpipe := p\<rparr>))
     (retk (Some (f0, f1)))))))))"

definition filestat :: "nat \<Rightarrow> u32 \<Rightarrow> ('z fmach_scheme, int) kern" where
  "filestat f st =
     bindk (get_file f) (\<lambda>x.
     if ft x = FD_INODE then
       thenk (ilock (fip x))
       (thenk (stati (fip x) st)
       (thenk (iunlock (fip x))
       (retk 0)))
     else retk (-1))"

definition fileread :: "nat \<Rightarrow> u32 \<Rightarrow> u32 \<Rightarrow> ('z fmach_scheme, int) kern" where
  "fileread f addr n =
     bindk (get_file f) (\<lambda>x.
     if \<not> readable x then retk (-1) else
     case ft x of
       FD_PIPE \<Rightarrow> piperead (fpipe x) addr n
     | FD_INODE \<Rightarrow>
         thenk (ilock (fip x))
         (bindk (readi (fip x) (Va addr) (foff x) n) (\<lambda>(r, _).
         thenk (whenk (0 < r) (set_file f (\<lambda>x. x\<lparr>foff := foff x + word_of_int r\<rparr>)))
         (thenk (iunlock (fip x))
         (retk r))))
     | FD_NONE \<Rightarrow> panic ''fileread'')"

text \<open>The loop of \<open>filewrite\<close>: each round is a transaction of at most \<open>max_write\<close> bytes.\<close>

definition max_write :: int where "max_write = ((LOGSIZE - 1 - 1 - 2) div 2) * 512"

fun filewrite_loop :: "nat \<Rightarrow> nat \<Rightarrow> u32 \<Rightarrow> int \<Rightarrow> int \<Rightarrow> ('z fmach_scheme, int) kern" where
  "filewrite_loop 0 f addr n i = spink"
| "filewrite_loop (Suc fuel) f addr n i =
     (if \<not> i < n then retk i else
      let n1 = (if n - i > max_write then max_write else n - i) in
      thenk begin_trans
      (bindk (get_file f) (\<lambda>x.
      thenk (ilock (fip x))
      (bindk (writei (fip x) (Va (addr + word_of_int i)) (foff x) (word_of_int n1)) (\<lambda>r.
      thenk (whenk (0 < r) (set_file f (\<lambda>x. x\<lparr>foff := foff x + word_of_int r\<rparr>)))
      (thenk (iunlock (fip x))
      (thenk commit_trans
      (if r < 0 then retk i else
       if r \<noteq> n1 then panic ''short filewrite'' else
       filewrite_loop fuel f addr n (i + r)))))))))"

definition filewrite :: "nat \<Rightarrow> u32 \<Rightarrow> u32 \<Rightarrow> ('z fmach_scheme, int) kern" where
  "filewrite f addr n =
     bindk (get_file f) (\<lambda>x.
     if \<not> writable x then retk (-1) else
     case ft x of
       FD_PIPE \<Rightarrow> pipewrite (fpipe x) addr n
     | FD_INODE \<Rightarrow>
         bindk (filewrite_loop (Suc (nat (sint n))) f addr (sint n) 0) (\<lambda>i.
         retk (if i = sint n then sint n else -1))
     | FD_NONE \<Rightarrow> panic ''filewrite'')"

declare pipewrite_loop.simps(2) [simp del] piperead_loop.simps(2) [simp del]

section \<open>Pipes as queues\<close>

interpretation pring: ring pipe_slot 512
  by unfold_locales (simp_all add: pipe_slot_def unat_mod)

text \<open>The bytes in a pipe, and those a writer adds.\<close>

definition pipe_bytes :: "pipe \<Rightarrow> u8 list" where
  "pipe_bytes x = rspan pipe_slot (pdata x) (nread x) (unat (nwrite x - nread x))"

definition pipe_ok :: "pipe \<Rightarrow> bool" where
  "pipe_ok x \<longleftrightarrow> length (pipe_bytes x) \<le> 512"

fun fill :: "pipe \<Rightarrow> u8 list \<Rightarrow> pipe" where
  "fill x [] = x"
| "fill x (b # bs) = fill (x\<lparr>pdata := (pdata x)(pipe_slot (nwrite x) := b), nwrite := nwrite x + 1\<rparr>) bs"

lemma pipe_bytes_put:
  "length (pipe_bytes x) < 512 \<Longrightarrow>
   pipe_bytes (x\<lparr>pdata := (pdata x)(pipe_slot (nwrite x) := b), nwrite := nwrite x + 1\<rparr>) = pipe_bytes x @ [b]"
  by (simp add: pipe_bytes_def pring.put)

lemma pipe_full: "nwrite x = nread x + 512 \<longleftrightarrow> length (pipe_bytes x) = 512"
proof -
  have "length (pipe_bytes x) = 512 \<longleftrightarrow> nwrite x - nread x = 512"
    by (simp add: pipe_bytes_def word_unat_eq_iff)
  then show ?thesis by (simp add: diff_eq_eq add.commute)
qed

lemma fill_same [simp]:
  "nread (fill x bs) = nread x" "readopen (fill x bs) = readopen x" "writeopen (fill x bs) = writeopen x"
  by (induction bs arbitrary: x) simp_all

lemma fill_bytes: "length (pipe_bytes x) + length bs \<le> 512 \<Longrightarrow> pipe_bytes (fill x bs) = pipe_bytes x @ bs"
  by (induction bs arbitrary: x) (simp_all add: pipe_bytes_put)

text \<open>The state with another structure in place of the pipe at \<open>p\<close>.\<close>

definition with_pipe :: "u32 \<Rightarrow> pipe \<Rightarrow> 'z fmach_scheme \<Rightarrow> 'z fmach_scheme" where
  "with_pipe p x s = s\<lparr>pipes := (pipes s)(p := x)\<rparr>"

lemma with_pipe_simps [simp]:
  "pipes (with_pipe p x s) r = (if r = p then x else pipes s r)" "with_pipe p y (with_pipe p x s) = with_pipe p y s"
  "lk (with_pipe p x s) = lk s" "pmem (with_pipe p x s) = pmem s" "cr3 (with_pipe p x s) = cr3 s"
  "ptable (with_pipe p x s) = ptable s" "with_pipe p x s\<lparr>pmem := m\<rparr> = with_pipe p x (s\<lparr>pmem := m\<rparr>)"
  "with_pipe p x s\<lparr>ptable := q\<rparr> = with_pipe p x (s\<lparr>ptable := q\<rparr>)" "with_pipe p x s\<lparr>lk := k\<rparr> = with_pipe p x (s\<lparr>lk := k\<rparr>)"
  by (simp_all add: with_pipe_def)

lemma set_pipe_run: "set_pipe p f s = Ok () (with_pipe p (f (pipes s p)) s)"
  by (simp add: set_pipe_def with_pipe_def)

lemma umem_pipe [simp]: "umem (with_pipe p x s) = umem s"
  by (simp add: umem_def fun_eq_iff)

lemma pipewrite_loop_fill:
  assumes "\<forall>j<length bs. umem s (addr + (i + of_nat j)) = Some (bs ! j)"
    "length (pipe_bytes (pipes s p)) + length bs \<le> 512"
  shows "pipewrite_loop (length bs + k) p addr i s =
    pipewrite_loop k p addr (i + of_nat (length bs)) (with_pipe p (fill (pipes s p) bs) s)"
  using assms
proof (induction bs arbitrary: s i)
  case Nil
  then show ?case by (simp add: with_pipe_def)
next
  case (Cons b bs)
  let ?x = "(pipes s p)\<lparr>pdata := (pdata (pipes s p))(pipe_slot (nwrite (pipes s p)) := b), nwrite := nwrite (pipes s p) + 1\<rparr>"
  have ok: "length (pipe_bytes (pipes s p)) < 512" using Cons.prems(2) by simp
  have b: "umem s (addr + i) = Some b" using Cons.prems(1) [rule_format, of 0] by simp
  have "\<forall>j<length bs. umem (with_pipe p ?x s) (addr + (i + 1 + of_nat j)) = Some (bs ! j)"
  proof (intro allI impI)
    fix j assume "j < length bs"
    then show "umem (with_pipe p ?x s) (addr + (i + 1 + of_nat j)) = Some (bs ! j)"
      using Cons.prems(1) [rule_format, of "Suc j"] by (simp add: algebra_simps)
  qed
  moreover have "length (pipe_bytes (pipes (with_pipe p ?x s) p)) + length bs \<le> 512"
    using Cons.prems(2) ok by (simp add: pipe_bytes_put)
  ultimately have "pipewrite_loop (length bs + k) p addr (i + 1) (with_pipe p ?x s) =
    pipewrite_loop k p addr (i + 1 + of_nat (length bs)) (with_pipe p (fill ?x bs) s)"
    using Cons.IH by simp
  moreover have "pipewrite_loop (Suc (length bs + k)) p addr i s = pipewrite_loop (length bs + k) p addr (i + 1) (with_pipe p ?x s)"
    using b ok by (simp add: pipewrite_loop.simps(2) get_pipe_def set_pipe_run vread8_run pipe_full)
  ultimately show ?case by (simp add: add.assoc)
qed

text \<open>A write into a full pipe: it fails when nobody can read, and sleeps otherwise.\<close>

lemma pipewrite_loop_full:
  assumes "length (pipe_bytes (pipes s p)) = 512" "curproc s = Some c"
  shows "pipewrite_loop (Suc k) p addr i s =
    (if \<not> readopen (pipes s p) \<or> killed (ptable s c) then Ok False s
     else thenk (wakeup (ChPipeRead p)) (sleep (ChPipeWrite p) (PipeLock p)) s)"
  using assms by (simp add: pipewrite_loop.simps(2) get_pipe_def pipe_full getproc_run)

lemma pipewrite_run:
  fixes p :: u32
  assumes q: "quiet s" "ncli (mycpu s) = 0" and c: "curproc s = Some c"
    and ok: "pipe_ok (pipes s p)" and bs: "user_bytes s addr bs" "length bs < 2147483648"
  defines "x \<equiv> pipes s p"
  defines "y \<equiv> fill x (take (512 - length (pipe_bytes x)) bs)"
  shows "pipewrite p addr (of_nat (length bs)) s =
    (if length (pipe_bytes x) + length bs \<le> 512 then Ok (int (length bs)) (woken (ChPipeRead p) (with_pipe p y s))
     else if \<not> readopen x \<or> killed (ptable s c) then Ok (- 1) (with_pipe p y s)
     else Swtch (asleep c (ChPipeWrite p) (woken (ChPipeRead p) (with_pipe p y s))))"
proof -
  let ?room = "512 - length (pipe_bytes x)" let ?as = "take ?room bs"
  let ?s = "s\<lparr>lk := lk_acq (PipeLock p) (lk s)\<rparr>"
  define k where "k = length bs - length ?as"
  have n: "sint (of_nat (length bs) :: u32) = int (length bs)" using bs(2) by (simp add: sint_unat)
  have nk: "length ?as + k = length bs" by (simp add: k_def)
  have [simp]: "umem ?s = umem s" by (simp add: umem_def fun_eq_iff)
  have len: "length (pipe_bytes x) + length ?as \<le> 512" using ok by (simp add: pipe_ok_def x_def)
  have "pipewrite_loop (length bs) p addr 0 ?s = pipewrite_loop k p addr (of_nat (length ?as)) (with_pipe p y ?s)"
    using pipewrite_loop_fill [of ?as ?s addr 0 p k, unfolded nk] bs(1) len by (simp add: user_bytes_def x_def y_def)
  then have loop: "pipewrite p addr (of_nat (length bs)) s =
    bindk (pipewrite_loop k p addr (of_nat (length ?as))) (\<lambda>ok.
     if \<not> ok then thenk (release (PipeLock p)) (retk (-1)) else
     thenk (wakeup (ChPipeRead p)) (thenk (release (PipeLock p)) (retk (int (length bs))))) (with_pipe p y ?s)"
    unfolding pipewrite_def n using q(1) by (simp add: acquire_ok bindk_def)
  have rel: "release (PipeLock p) (t\<lparr>lk := lk_acq (PipeLock p) (lk s)\<rparr>) = Ok () (t\<lparr>lk := lk s\<rparr>)" for t :: "'a fmach_scheme"
    using q(1) by (simp add: release_acq)
  show ?thesis
  proof (cases "length (pipe_bytes x) + length bs \<le> 512")
    case True
    then have "k = 0" by (simp add: k_def)
    then show ?thesis
      unfolding loop using True q(1) release_acq [of "woken (ChPipeRead p) (with_pipe p y ?s)" "PipeLock p" "lk s"]
      by (simp add: wakeup_run woken_def)
  next
    case False
    then have "length ?as < length bs" using len by simp
    then obtain k' where k': "k = Suc k'" using nk by (cases k) simp_all
    have full: "length (pipe_bytes y) = 512" using False len by (simp add: y_def fill_bytes)
    have same: "readopen y = readopen x" by (simp add: y_def)
    have "sleep (ChPipeWrite p) (PipeLock p) (woken (ChPipeRead p) (with_pipe p y ?s)) =
        (Swtch (asleep c (ChPipeWrite p) (woken (ChPipeRead p) (with_pipe p y s))) :: (bool, _) outcome)"
      using q c by (subst sleep_run [of _ "PipeLock p" "lk s" c]) (simp_all add: woken_def asleep_def)
    then show ?thesis
      unfolding loop k' using False full same q(1) c
        pipewrite_loop_full [of "with_pipe p y ?s" p c k' addr "of_nat (length ?as)"]
      by (auto simp: wakeup_run woken_def release_acq bindk_def)
  qed
qed


definition drained :: "nat \<Rightarrow> pipe \<Rightarrow> pipe" where
  "drained m x = x\<lparr>nread := nread x + of_nat m\<rparr>"

lemma drained_0 [simp]: "drained 0 x = x"
  by (simp add: drained_def)

lemma with_pipe_id [simp]: "with_pipe p (pipes s p) s = s"
  by (simp add: with_pipe_def)

lemma drained_bytes: "m \<le> length (pipe_bytes x) \<Longrightarrow> pipe_bytes (drained m x) = drop m (pipe_bytes x)"
proof -
  assume m: "m \<le> length (pipe_bytes x)"
  have "unat (nwrite x - (nread x + of_nat m)) = unat (nwrite x - nread x) - m"
  proof -
    have "unat (of_nat m :: u32) = m" using m unat32_lt [of "nwrite x - nread x"] by (intro unat32_of_nat) (simp add: pipe_bytes_def del: unat32_lt)
    then have "unat (nwrite x - nread x - of_nat m) = unat (nwrite x - nread x) - m"
      using m by (simp add: unat_sub word_le_nat_alt pipe_bytes_def)
    then show ?thesis by (simp only: diff_diff_eq)
  qed
  then show ?thesis
    using m rspan_add [of pipe_slot "pdata x" "nread x" m "length (pipe_bytes x) - m"]
    by (simp add: drained_def pipe_bytes_def)
qed

lemma piperead_loop_run:
  fixes p :: u32 and s :: "'z fmach_scheme"
  assumes "inj_on \<phi> {..<n}" "\<And>m j. agree_but (\<phi> ` {..<n}) m m0 \<Longrightarrow> j < n \<Longrightarrow>
      addr + of_nat j < KERNBASE \<and> translate m (p2v (cr3 s)) (addr + of_nat j) = Some (\<phi> j)"
    and "agree_but (\<phi> ` {..<n}) (pmem s) m0" "j + k \<le> n"
  defines "x \<equiv> pipes s p"
  defines "m \<equiv> min k (length (pipe_bytes x))"
  shows "piperead_loop k p addr (of_nat j) s =
    Ok (of_nat (j + m)) (with_pipe p (drained m x) (s\<lparr>pmem := stores \<phi> j (take m (pipe_bytes x)) (pmem s)\<rparr>))"
  using assms(2-4) unfolding m_def x_def
proof (induction k arbitrary: s j)
  case 0
  then show ?case by simp
next
  case (Suc k)
  let ?x = "pipes s p"
  show ?case
  proof (cases "nread ?x = nwrite ?x")
    case True
    then have "pipe_bytes ?x = []" by (simp add: pipe_bytes_def)
    then show ?thesis using True by (simp add: piperead_loop.simps(2) get_pipe_def)
  next
    case False
    let ?b = "pdata ?x (pipe_slot (nread ?x))"
    let ?s = "with_pipe p (drained 1 ?x) (s\<lparr>pmem := (pmem s)(\<phi> j := ?b)\<rparr>)"
    have b: "pipe_bytes ?x = ?b # pipe_bytes (drained 1 ?x)"
      using pring.take(1) [OF False] by (simp add: pipe_bytes_def drained_def)
    have tr: "addr + of_nat j < KERNBASE" "translate (pmem s) (p2v (cr3 s)) (addr + of_nat j) = Some (\<phi> j)"
      using Suc.prems(1) [OF Suc.prems(2), of j] Suc.prems(3) by auto
    define t where "t = ?s"
    have t: "pipes t p = drained 1 ?x" "cr3 t = cr3 s" "agree_but (\<phi> ` {..<n}) (pmem t) m0"
      using Suc.prems(2,3) by (auto simp: agree_but_def t_def)
    have IH: "piperead_loop k p addr (of_nat (Suc j)) t = Ok (of_nat (Suc j + min k (length (pipe_bytes (drained 1 ?x)))))
      (with_pipe p (drained (min k (length (pipe_bytes (drained 1 ?x)))) (drained 1 ?x))
        (t\<lparr>pmem := stores \<phi> (Suc j) (take (min k (length (pipe_bytes (drained 1 ?x)))) (pipe_bytes (drained 1 ?x))) (pmem t)\<rparr>))"
      using Suc.IH [of t "Suc j"] Suc.prems t by simp
    have "drained r (drained 1 ?x) = drained (Suc r) ?x" for r by (simp add: drained_def add.assoc)
    moreover have "piperead_loop (Suc k) p addr (of_nat j) s = piperead_loop k p addr (of_nat (Suc j)) t"
      using False tr
      by (simp add: t_def piperead_loop.simps(2) get_pipe_def set_pipe_run vwrite8_def drained_def add.commute)
    ultimately show ?thesis using IH by (simp add: b t_def)
  qed
qed

lemma piperead_run:
  fixes p :: u32
  assumes q: "quiet s" "ncli (mycpu s) = 0" and c: "curproc s = Some c"
    and buf: "user_buffer s addr \<phi> n" "n < 2147483648"
  defines "x \<equiv> pipes s p"
  defines "m \<equiv> min n (length (pipe_bytes x))"
  shows "piperead p addr (of_nat n) s =
    (if pipe_bytes x \<noteq> [] \<or> \<not> writeopen x then Ok (int m) (woken (ChPipeWrite p)
        (with_pipe p (drained m x) (s\<lparr>pmem := stores \<phi> 0 (take m (pipe_bytes x)) (pmem s)\<rparr>)))
     else if killed (ptable s c) then Ok (- 1) s
     else Swtch (asleep c (ChPipeRead p) s))"
proof -
  let ?s = "s\<lparr>lk := lk_acq (PipeLock p) (lk s)\<rparr>"
  have n: "sint (of_nat n :: u32) = int n" "sint (of_nat m :: u32) = int m" using buf(2) by (simp_all add: sint_unat m_def)
  have e: "nread x = nwrite x \<longleftrightarrow> pipe_bytes x = []"
    by (auto simp: pipe_bytes_def rspan_def unat_eq_0)
  have loop: "piperead_loop n p addr 0 ?s =
     Ok (of_nat m) (with_pipe p (drained m x) (?s\<lparr>pmem := stores \<phi> 0 (take m (pipe_bytes x)) (pmem s)\<rparr>))"
    using piperead_loop_run [of \<phi> n "pmem s" addr ?s 0 n p] buf(1)
    by (simp add: user_buffer_def m_def x_def agree_but_def)
  have sl: "sleep (ChPipeRead p) (PipeLock p) ?s = (Swtch (asleep c (ChPipeRead p) s) :: (int, _) outcome)"
    using q c by (subst sleep_run [of _ "PipeLock p" "lk s" c]) (simp_all add: asleep_def)
  show ?thesis
    unfolding piperead_def n
    using q c loop sl
    by (auto simp: acquire_ok get_pipe_def x_def [symmetric] e getproc_run release_acq wakeup_run woken_def n)
qed


text \<open>C12: a pipe is a bounded queue. Writing \<open>bs\<close> appends as much of it as fits into 512 bytes. When
  all of it fits, the call returns its length and wakes the readers; otherwise it returns -1 when the
  read end is closed or the process has been killed, and goes to sleep until a reader makes room when
  not. Nothing but the pipe and the process table changes.\<close>

theorem pipewrite_queue:
  fixes p :: u32
  assumes "quiet s" "ncli (mycpu s) = 0" "curproc s = Some c" "pipe_ok (pipes s p)"
    and "user_bytes s addr bs" "length bs < 2147483648"
  shows "\<exists>y. pipe_bytes y = take 512 (pipe_bytes (pipes s p) @ bs) \<and> pipe_ok y
    \<and> readopen y = readopen (pipes s p) \<and> writeopen y = writeopen (pipes s p)
    \<and> pipewrite p addr (of_nat (length bs)) s =
       (if length (pipe_bytes (pipes s p)) + length bs \<le> 512
        then Ok (int (length bs)) (woken (ChPipeRead p) (with_pipe p y s))
        else if \<not> readopen (pipes s p) \<or> killed (ptable s c) then Ok (- 1) (with_pipe p y s)
        else Swtch (asleep c (ChPipeWrite p) (woken (ChPipeRead p) (with_pipe p y s))))"
proof -
  let ?x = "pipes s p" let ?y = "fill ?x (take (512 - length (pipe_bytes ?x)) bs)"
  have "pipe_bytes ?y = take 512 (pipe_bytes ?x @ bs)"
    using assms(4) by (subst fill_bytes) (auto simp: pipe_ok_def)
  then show ?thesis using pipewrite_run [OF assms] by (intro exI [of _ ?y]) (simp add: pipe_ok_def)
qed

text \<open>C13: reading takes the oldest bytes of the queue, at most \<open>n\<close> of them, into the buffer of the
  caller, and wakes the writers; an empty pipe whose write end is closed gives 0. An empty pipe with an
  open write end makes the reader sleep, or fail with -1 when it has been killed.\<close>

theorem piperead_queue:
  fixes p :: u32
  assumes "quiet s" "ncli (mycpu s) = 0" "curproc s = Some c"
    and "user_buffer s addr \<phi> n" "n < 2147483648"
  shows "(pipe_bytes (pipes s p) \<noteq> [] \<or> \<not> writeopen (pipes s p) \<longrightarrow>
      (\<exists>y m'. piperead p addr (of_nat n) s =
          Ok (int (min n (length (pipe_bytes (pipes s p))))) (woken (ChPipeWrite p) (with_pipe p y (s\<lparr>pmem := m'\<rparr>)))
        \<and> pipe_bytes y = drop n (pipe_bytes (pipes s p))
        \<and> user_bytes (s\<lparr>pmem := m'\<rparr>) addr (take n (pipe_bytes (pipes s p)))
        \<and> agree_but (\<phi> ` {..<n}) m' (pmem s)
        \<and> readopen y = readopen (pipes s p) \<and> writeopen y = writeopen (pipes s p)))
    \<and> (pipe_bytes (pipes s p) = [] \<and> writeopen (pipes s p) \<longrightarrow>
        piperead p addr (of_nat n) s =
          (if killed (ptable s c) then Ok (- 1) s else Swtch (asleep c (ChPipeRead p) s)))"
proof -
  let ?x = "pipes s p" let ?m = "min n (length (pipe_bytes ?x))"
  let ?m' = "stores \<phi> 0 (take ?m (pipe_bytes ?x)) (pmem s)"
  have "take ?m (pipe_bytes ?x) = take n (pipe_bytes ?x)" "drop ?m (pipe_bytes ?x) = drop n (pipe_bytes ?x)"
    by (simp_all add: min_def)
  moreover have "readopen (drained ?m ?x) = readopen ?x" "writeopen (drained ?m ?x) = writeopen ?x"
    by (simp_all add: drained_def)
  moreover have "agree_but (\<phi> ` {..<n}) ?m' (pmem s)" by (rule stores_agree) simp
  ultimately show ?thesis
    using piperead_run [OF assms] drained_bytes [of ?m ?x] user_buffer_bytes [OF assms(4), of "take n (pipe_bytes ?x)"]
    by (auto intro!: exI [of _ "drained ?m ?x"] exI [of _ ?m'])
qed

definition fmach0 :: fmach where
  "fmach0 = imach.extend imach0 (fmach.fields
     (\<lambda>_. \<lparr>pdata = (\<lambda>_. 120), nread = 0, nwrite = 1, readopen = True, writeopen = True\<rparr>)
     (\<lambda>_. \<lparr>ft = FD_NONE, fref = 0, readable = False, writable = False, fpipe = 0, fip = 0, foff = 0\<rparr>))"

lemma fmach0_simps [simp]:
  "lk fmach0 = lk0" "pmem fmach0 = pmem rmach0" "cr3 fmach0 = cr3 rmach0" "ptable fmach0 = ptable rmach0"
  "pipes fmach0 p = \<lparr>pdata = (\<lambda>_. 120), nread = 0, nwrite = 1, readopen = True, writeopen = True\<rparr>"
  by (simp_all add: fmach0_def imach.defs imach0_def fmach.defs cmach0_def rmach.defs cmach.defs rmach0_def lmach.defs lmach0_def)


lemma fmach0_ready: "quiet fmach0" "ncli (mycpu fmach0) = 0" "curproc fmach0 = Some 0"
  using quiet_lk0 [of fmach0] by (simp_all add: lk0_def)

lemma fmach0_bytes: "user_bytes fmach0 32 [104, 105]"
proof -
  have "umem rmach0 32 = Some (amem0 0x80003020)" "umem rmach0 33 = Some (amem0 0x80003021)"
    using rmach0_view by (simp_all add: user_view_def)
  moreover have "amem0 0x80003020 = 104" "amem0 0x80003021 = 105" by (simp_all add: amem0_def)
  ultimately show ?thesis by (simp add: user_bytes_def umem_def less_Suc_eq)
qed

lemma fmach0_buffer: "user_buffer fmach0 32 (\<lambda>j. 0x80003020 + of_nat j) 2"
proof -
  have "translate m 0x80001000 32 = Some 0x80003020 \<and> translate m 0x80001000 33 = Some 0x80003021"
    if "agree_but {0x80003020, 0x80003021} m amem0" for m
    using amem0_translate [OF _ that, of 32] amem0_translate [OF _ that, of 33] by simp
  moreover have "(\<lambda>j. 0x80003020 + of_nat j) ` {..<2::nat} = {0x80003020, 0x80003021 :: u32}"
    by (auto simp: lessThan_nat_numeral)
  moreover have "inj_on (\<lambda>j. 0x80003020 + of_nat j :: u32) {..<2::nat}"
    by (simp add: inj_on_def lessThan_nat_numeral)
  ultimately show ?thesis by (simp add: user_buffer_def less_2_cases_iff p2v_def)
qed

theorem pipewrite_queue_witness:
  "\<exists>y. pipewrite 0x80200000 32 2 fmach0 = Ok 2 (woken (ChPipeRead 0x80200000) (with_pipe 0x80200000 y fmach0))
     \<and> pipe_bytes y = [120, 104, 105]"
  using pipewrite_queue [OF fmach0_ready _ fmach0_bytes, of "0x80200000"]
  by (auto simp: pipe_ok_def pipe_bytes_def rspan_def)

theorem piperead_queue_witness:
  "\<exists>y m. piperead 0x80200000 32 2 fmach0 =
       Ok 1 (woken (ChPipeWrite 0x80200000) (with_pipe 0x80200000 y (fmach0\<lparr>pmem := m\<rparr>)))
     \<and> pipe_bytes y = [] \<and> user_bytes (fmach0\<lparr>pmem := m\<rparr>) 32 [120]"
  using piperead_queue [OF fmach0_ready fmach0_buffer, of "0x80200000"]
  by (auto simp: pipe_bytes_def rspan_def)


end
