(* ===== verification/Hw.thy ===== *)
theory Hw
  imports File
begin

text \<open>
  The drivers of the interrupt hardware: \<^verbatim>\<open>lapic.c\<close>, \<^verbatim>\<open>ioapic.c\<close>, \<^verbatim>\<open>picirq.c\<close>, \<^verbatim>\<open>timer.c\<close>, the
  initialisation of \<^verbatim>\<open>uart.c\<close>, and the search for the multiprocessor tables in \<^verbatim>\<open>mp.c\<close>.

  What the code sends to a device is recorded: the bytes written to I/O ports (\<open>port_out\<close>), the
  registers of the I/O APIC (\<open>ioregs\<close>) and of the local APIC (\<open>lregs\<close>, with the sequence of writes
  in \<open>lwrites\<close>). What \<^verbatim>\<open>inb\<close> reads is decided by the devices: \<open>port_in\<close> is the sequence of the
  values they will give, and \<open>port_n\<close> counts the reads.
\<close>

section \<open>State\<close>

record hmach = fmach +
  port_out :: "(u16 \<times> u8) list"
  port_in :: "nat \<Rightarrow> u8"
  port_n :: nat
  irqmask :: u16
  ismp :: bool
  ncpu :: int
  bcpu :: int
  ioapicid :: u8
  cpu_id :: "int \<Rightarrow> u8"
  lapic :: u32
  lregs :: "u32 \<Rightarrow> u32"
  lwrites :: "(u32 \<times> u32) list"
  ioregs :: "u32 \<Rightarrow> u32"
  cpunum_n :: int

definition outb :: "u16 \<Rightarrow> u8 \<Rightarrow> ('z hmach_scheme, unit) kern" where
  "outb port data = modk (\<lambda>s. s\<lparr>port_out := port_out s @ [(port, data)]\<rparr>)"

definition inb :: "u16 \<Rightarrow> ('z hmach_scheme, u8) kern" where
  "inb port =
     bindk (readk (\<lambda>s. port_in s (port_n s))) (\<lambda>b.
     thenk (modk (\<lambda>s. s\<lparr>port_n := port_n s + 1\<rparr>))
     (retk b))"

definition T_IRQ0 :: u32 where [simp]: "T_IRQ0 = 32"
definition IRQ_TIMER :: u32 where [simp]: "IRQ_TIMER = 0"
definition IRQ_KBD :: u32 where [simp]: "IRQ_KBD = 1"
definition IRQ_COM1 :: u32 where [simp]: "IRQ_COM1 = 4"
definition IRQ_IDE :: u32 where [simp]: "IRQ_IDE = 14"
definition IRQ_ERROR :: u32 where [simp]: "IRQ_ERROR = 19"
definition IRQ_SPURIOUS :: u32 where [simp]: "IRQ_SPURIOUS = 31"

section \<open>picirq.c\<close>

definition IO_PIC1 :: u16 where [simp]: "IO_PIC1 = 0x20"
definition IO_PIC2 :: u16 where [simp]: "IO_PIC2 = 0xA0"

definition picsetmask :: "u16 \<Rightarrow> ('z hmach_scheme, unit) kern" where
  "picsetmask m =
     thenk (modk (\<lambda>s. s\<lparr>irqmask := m\<rparr>))
     (thenk (outb (IO_PIC1 + 1) (ucast m))
     (outb (IO_PIC2 + 1) (ucast (drop_bit 8 m))))"

definition picenable :: "u32 \<Rightarrow> ('z hmach_scheme, unit) kern" where
  "picenable irq = bindk (readk irqmask) (\<lambda>m. picsetmask (m AND NOT (push_bit (unat irq) 1)))"

definition pic_setup :: "(u16 \<times> u8) list" where
  "pic_setup =
     [(IO_PIC1 + 1, 0xFF), (IO_PIC2 + 1, 0xFF),
      (IO_PIC1, 0x11), (IO_PIC1 + 1, 32), (IO_PIC1 + 1, 4), (IO_PIC1 + 1, 3),
      (IO_PIC2, 0x11), (IO_PIC2 + 1, 32 + 8), (IO_PIC2 + 1, 2), (IO_PIC2 + 1, 3),
      (IO_PIC1, 0x68), (IO_PIC1, 0x0A), (IO_PIC2, 0x68), (IO_PIC2, 0x0A)]"

definition picinit :: "('z hmach_scheme, unit) kern" where
  "picinit =
     thenk (foreach pic_setup (\<lambda>(p, d). outb p d))
     (bindk (readk irqmask) (\<lambda>m. whenk (m \<noteq> 0xFFFF) (picsetmask m)))"

section \<open>ioapic.c\<close>

definition REG_ID :: u32 where [simp]: "REG_ID = 0"
definition REG_VER :: u32 where [simp]: "REG_VER = 1"
definition REG_TABLE :: u32 where [simp]: "REG_TABLE = 0x10"
definition INT_DISABLED :: u32 where [simp]: "INT_DISABLED = 0x10000"

definition ioapicread :: "u32 \<Rightarrow> ('z hmach_scheme, u32) kern" where
  "ioapicread reg = readk (\<lambda>s. ioregs s reg)"

definition ioapicwrite :: "u32 \<Rightarrow> u32 \<Rightarrow> ('z hmach_scheme, unit) kern" where
  "ioapicwrite reg data = modk (\<lambda>s. s\<lparr>ioregs := (ioregs s)(reg := data)\<rparr>)"

definition ioapicinit :: "('z hmach_scheme, unit) kern" where
  "ioapicinit =
     bindk (readk ismp) (\<lambda>mp.
     if \<not> mp then retk () else
     bindk (ioapicread REG_VER) (\<lambda>v.
     bindk (ioapicread REG_ID) (\<lambda>i.
     bindk (readk ioapicid) (\<lambda>want.
     thenk (whenk (drop_bit 24 i \<noteq> ucast want)
        (cprintf (str ''ioapicinit: id isn't equal to ioapicid; not a MP'' @ [10]) []))
     (foreach [0..<Suc (unat (drop_bit 16 v AND 0xFF))] (\<lambda>i.
        thenk (ioapicwrite (REG_TABLE + 2 * of_nat i) (INT_DISABLED OR (T_IRQ0 + of_nat i)))
        (ioapicwrite (REG_TABLE + 2 * of_nat i + 1) 0)))))))"

definition ioapicenable :: "u32 \<Rightarrow> u32 \<Rightarrow> ('z hmach_scheme, unit) kern" where
  "ioapicenable irq cpunum =
     bindk (readk ismp) (\<lambda>mp.
     if \<not> mp then retk () else
     thenk (ioapicwrite (REG_TABLE + 2 * irq) (T_IRQ0 + irq))
     (ioapicwrite (REG_TABLE + 2 * irq + 1) (push_bit 24 cpunum)))"

section \<open>console.c\<close>

definition consoleinit :: "('z hmach_scheme, unit) kern" where
  "consoleinit =
     thenk (initlock ConsLock)
     (thenk (initlock InputLock)
     (thenk (modk (\<lambda>s. s\<lparr>devsw := (devsw s)(CONSOLE := Some ConsoleDev)\<rparr>))
     (thenk (modk (\<lambda>s. s\<lparr>cons_locking := True\<rparr>))
     (thenk (picenable IRQ_KBD)
     (ioapicenable IRQ_KBD 0)))))"

section \<open>timer.c\<close>

definition TIMER_FREQ :: nat where [simp]: "TIMER_FREQ = 1193182"
definition TIMER_DIV :: "nat \<Rightarrow> nat" where "TIMER_DIV x = (TIMER_FREQ + x div 2) div x"

definition timerinit :: "('z hmach_scheme, unit) kern" where
  "timerinit =
     thenk (outb (0x40 + 3) (0x04 OR 0x30))
     (thenk (outb 0x40 (of_nat (TIMER_DIV 100 mod 256)))
     (thenk (outb 0x40 (of_nat (TIMER_DIV 100 div 256)))
     (picenable IRQ_TIMER)))"

section \<open>uart.c\<close>

definition COM1 :: u16 where [simp]: "COM1 = 0x3F8"

definition uartinit :: "('z hmach_scheme, unit) kern" where
  "uartinit =
     thenk (outb (COM1 + 2) 0)
     (thenk (outb (COM1 + 3) 0x80)
     (thenk (outb COM1 (115200 div 9600))
     (thenk (outb (COM1 + 1) 0)
     (thenk (outb (COM1 + 3) 3)
     (thenk (outb (COM1 + 4) 0)
     (thenk (outb (COM1 + 1) 1)
     (bindk (inb (COM1 + 5)) (\<lambda>st.
     if st = 0xFF then retk () else
     thenk (modk (\<lambda>s. s\<lparr>uart := True\<rparr>))
     (bindk (inb (COM1 + 2)) (\<lambda>_.
     bindk (inb COM1) (\<lambda>_.
     thenk (picenable IRQ_COM1)
     (thenk (ioapicenable IRQ_COM1 0)
     (foreach (str ''xv6...'' @ [10]) (\<lambda>c. uartputc (uint c)))))))))))))))"

section \<open>lapic.c\<close>

definition lapicw :: "u32 \<Rightarrow> u32 \<Rightarrow> ('z hmach_scheme, unit) kern" where
  "lapicw index value = modk (\<lambda>s. s\<lparr>lregs := (lregs s)(index := value), lwrites := lwrites s @ [(index, value)]\<rparr>)"

definition lID :: u32 where [simp]: "lID = 0x20 div 4"
definition lVER :: u32 where [simp]: "lVER = 0x30 div 4"
definition lTPR :: u32 where [simp]: "lTPR = 0x80 div 4"
definition lEOI :: u32 where [simp]: "lEOI = 0xB0 div 4"
definition lSVR :: u32 where [simp]: "lSVR = 0xF0 div 4"
definition lESR :: u32 where [simp]: "lESR = 0x280 div 4"
definition lICRLO :: u32 where [simp]: "lICRLO = 0x300 div 4"
definition lICRHI :: u32 where [simp]: "lICRHI = 0x310 div 4"
definition lTIMER :: u32 where [simp]: "lTIMER = 0x320 div 4"
definition lPCINT :: u32 where [simp]: "lPCINT = 0x340 div 4"
definition lLINT0 :: u32 where [simp]: "lLINT0 = 0x350 div 4"
definition lLINT1 :: u32 where [simp]: "lLINT1 = 0x360 div 4"
definition lERROR :: u32 where [simp]: "lERROR = 0x370 div 4"
definition lTICR :: u32 where [simp]: "lTICR = 0x380 div 4"
definition lTDCR :: u32 where [simp]: "lTDCR = 0x3E0 div 4"
definition lENABLE :: u32 where [simp]: "lENABLE = 0x100"
definition lINIT :: u32 where [simp]: "lINIT = 0x500"
definition lSTARTUP :: u32 where [simp]: "lSTARTUP = 0x600"
definition lDELIVS :: u32 where [simp]: "lDELIVS = 0x1000"
definition lASSERT :: u32 where [simp]: "lASSERT = 0x4000"
definition lLEVEL :: u32 where [simp]: "lLEVEL = 0x8000"
definition lBCAST :: u32 where [simp]: "lBCAST = 0x80000"
definition lX1 :: u32 where [simp]: "lX1 = 0xB"
definition lPERIODIC :: u32 where [simp]: "lPERIODIC = 0x20000"
definition lMASKED :: u32 where [simp]: "lMASKED = 0x10000"

text \<open>The wait for \<^verbatim>\<open>DELIVS\<close> ends at once when the register keeps what was written, and never
  otherwise.\<close>

definition lapicinit :: "('z hmach_scheme, unit) kern" where
  "lapicinit =
     bindk (readk lapic) (\<lambda>l.
     if l = 0 then retk () else
     thenk (lapicw lSVR (lENABLE OR (T_IRQ0 + IRQ_SPURIOUS)))
     (thenk (lapicw lTDCR lX1)
     (thenk (lapicw lTIMER (lPERIODIC OR (T_IRQ0 + IRQ_TIMER)))
     (thenk (lapicw lTICR 10000000)
     (thenk (lapicw lLINT0 lMASKED)
     (thenk (lapicw lLINT1 lMASKED)
     (bindk (readk (\<lambda>s. lregs s lVER)) (\<lambda>v.
     thenk (whenk (4 \<le> drop_bit 16 v AND 0xFF) (lapicw lPCINT lMASKED))
     (thenk (lapicw lERROR (T_IRQ0 + IRQ_ERROR))
     (thenk (lapicw lESR 0)
     (thenk (lapicw lESR 0)
     (thenk (lapicw lEOI 0)
     (thenk (lapicw lICRHI 0)
     (thenk (lapicw lICRLO (lBCAST OR lINIT OR lLEVEL))
     (bindk (readk (\<lambda>s. lregs s lICRLO AND lDELIVS)) (\<lambda>d.
     if d \<noteq> 0 then spink else
     lapicw lTPR 0))))))))))))))))"

text \<open>\<open>cpunum\<close>, with the return address it prints when it is called with interrupts enabled.\<close>

definition cpunum :: "u32 \<Rightarrow> ('z hmach_scheme, u32) kern" where
  "cpunum ret =
     bindk (readk (\<lambda>s. iflag (mycpu s))) (\<lambda>fl.
     thenk (whenk fl
       (bindk (readk cpunum_n) (\<lambda>n.
        thenk (modk (\<lambda>s. s\<lparr>cpunum_n := n + 1\<rparr>))
        (whenk (n = 0) (cprintf (str ''cpu called from %x with interrupts enabled'' @ [10]) [CInt ret])))))
     (readk (\<lambda>s. if lapic s \<noteq> 0 then drop_bit 24 (lregs s lID) else 0)))"

definition lapiceoi :: "('z hmach_scheme, unit) kern" where
  "lapiceoi = bindk (readk lapic) (\<lambda>l. whenk (l \<noteq> 0) (lapicw lEOI 0))"

definition store16 :: "u32 \<Rightarrow> u16 \<Rightarrow> ('z kmach_scheme, unit) kern" where
  "store16 a w = modk (\<lambda>s. s\<lparr>pmem := (pmem s)(a := ucast w, a + 1 := ucast (drop_bit 8 w))\<rparr>)"

definition lapicstartap :: "u8 \<Rightarrow> u32 \<Rightarrow> ('z hmach_scheme, unit) kern" where
  "lapicstartap apicid addr =
     thenk (outb 0x70 0xF)
     (thenk (outb 0x71 0x0A)
     (thenk (store16 (p2v (push_bit 4 0x40 OR 0x67)) 0)
     (thenk (store16 (p2v (push_bit 4 0x40 OR 0x67) + 2) (ucast (drop_bit 4 addr)))
     (thenk (lapicw lICRHI (push_bit 24 (ucast apicid)))
     (thenk (lapicw lICRLO (lINIT OR lLEVEL OR lASSERT))
     (thenk (lapicw lICRLO (lINIT OR lLEVEL))
     (foreach [0..<2::nat] (\<lambda>i.
        thenk (lapicw lICRHI (push_bit 24 (ucast apicid)))
        (lapicw lICRLO (lSTARTUP OR drop_bit 12 addr))))))))))"

section \<open>mp.c\<close>

text \<open>\<open>memcmp(p, xs, n) == 0\<close> for a string constant \<open>xs\<close>.\<close>

definition mem_is :: "mem \<Rightarrow> u32 \<Rightarrow> u8 list \<Rightarrow> bool" where
  "mem_is m p xs \<longleftrightarrow> map (\<lambda>i. m (p + of_nat i)) [0..<length xs] = xs"

definition mp_sum :: "mem \<Rightarrow> u32 \<Rightarrow> nat \<Rightarrow> u8" where
  "mp_sum m addr len = word_of_int (sum_list (map (\<lambda>i. uint (m (addr + of_nat i))) [0..<len]))"

definition mp_size :: u32 where [simp]: "mp_size = 16"

fun mpsearch1_loop :: "nat \<Rightarrow> mem \<Rightarrow> u32 \<Rightarrow> u32 \<Rightarrow> u32" where
  "mpsearch1_loop 0 m p e = 0"
| "mpsearch1_loop (Suc n) m p e =
     (if \<not> p < e then 0
      else if mem_is m p (str ''_MP_'') \<and> mp_sum m p (unat mp_size) = 0 then p
      else mpsearch1_loop n m (p + mp_size) e)"

text \<open>\<open>len\<close> bytes hold at most \<open>len div 16 + 1\<close> places to look at.\<close>

definition mpsearch1 :: "mem \<Rightarrow> u32 \<Rightarrow> u32 \<Rightarrow> u32" where
  "mpsearch1 m a len = mpsearch1_loop (unat len div 16 + 2) m (p2v a) (p2v a + len)"

definition mpsearch :: "mem \<Rightarrow> u32" where
  "mpsearch m =
     (let bda = p2v 0x400;
          p = push_bit 4 (push_bit 8 (ucast (m (bda + 0x0F))) OR ucast (m (bda + 0x0E)));
          mp = (if p \<noteq> 0 then mpsearch1 m p 1024
                else mpsearch1 m ((push_bit 8 (ucast (m (bda + 0x14))) OR ucast (m (bda + 0x13))) * 1024 - 1024) 1024)
      in if mp \<noteq> 0 then mp else mpsearch1 m 0xF0000 0x10000)"

text \<open>Fields of the tables: \<open>physaddr\<close> at 4 and \<open>imcrp\<close> at 12 of \<open>struct mp\<close>; \<open>length\<close> at 4, \<open>version\<close> at
  6 and \<open>lapicaddr\<close> at 36 of \<open>struct mpconf\<close>, which has 44 bytes.\<close>

definition mload16 :: "mem \<Rightarrow> u32 \<Rightarrow> u16" where
  "mload16 m a = get16 (\<lambda>i. m (a + of_nat i)) 0"

definition mpconfig :: "mem \<Rightarrow> (u32 \<times> u32) option" where
  "mpconfig m =
     (let mp = mpsearch m in
      if mp = 0 \<or> mload32 m (mp + 4) = 0 then None else
      let conf = p2v (mload32 m (mp + 4)) in
      if \<not> mem_is m conf (str ''PCMP'') then None else
      if m (conf + 6) \<noteq> 1 \<and> m (conf + 6) \<noteq> 4 then None else
      if mp_sum m conf (unat (mload16 m (conf + 4))) \<noteq> 0 then None else
      Some (mp, conf))"

text \<open>The loop of \<open>mpinit\<close>. An entry of a known kind moves \<open>p\<close> on by 8 or 20 bytes.\<close>

fun mpinit_loop :: "nat \<Rightarrow> u32 \<Rightarrow> u32 \<Rightarrow> ('z hmach_scheme, unit) kern" where
  "mpinit_loop 0 p e = spink"
| "mpinit_loop (Suc fuel) p e =
     (if \<not> p < e then retk () else
      bindk (readk pmem) (\<lambda>m.
      if m p = 0 then
        bindk (readk ncpu) (\<lambda>n.
        thenk (whenk (n \<noteq> uint (m (p + 1)))
          (thenk (cprintf (str ''mpinit: ncpu=%d apicid=%d'' @ [10]) [CInt (word_of_int n), CInt (ucast (m (p + 1)))])
          (modk (\<lambda>s. s\<lparr>ismp := False\<rparr>))))
        (thenk (whenk (m (p + 3) AND 2 \<noteq> 0) (modk (\<lambda>s. s\<lparr>bcpu := n\<rparr>)))
        (thenk (modk (\<lambda>s. s\<lparr>cpu_id := (cpu_id s)(n := word_of_int n)\<rparr>))
        (thenk (modk (\<lambda>s. s\<lparr>ncpu := n + 1\<rparr>))
        (mpinit_loop fuel (p + 20) e)))))
      else if m p = 2 then
        thenk (modk (\<lambda>s. s\<lparr>ioapicid := m (p + 1)\<rparr>))
        (mpinit_loop fuel (p + 8) e)
      else if m p = 1 \<or> m p = 3 \<or> m p = 4 then mpinit_loop fuel (p + 8) e
      else
        thenk (cprintf (str ''mpinit: unknown config type %x'' @ [10]) [CInt (ucast (m p))])
        (thenk (modk (\<lambda>s. s\<lparr>ismp := False\<rparr>))
        (mpinit_loop fuel p e))))"

text \<open>With known entries only, the loop makes fewer rounds than the table has bytes.\<close>

definition mpinit :: "('z hmach_scheme, unit) kern" where
  "mpinit =
     thenk (modk (\<lambda>s. s\<lparr>bcpu := 0\<rparr>))
     (bindk (readk pmem) (\<lambda>m.
     case mpconfig m of None \<Rightarrow> retk () | Some (mp, conf) \<Rightarrow>
     thenk (modk (\<lambda>s. s\<lparr>ismp := True\<rparr>))
     (thenk (modk (\<lambda>s. s\<lparr>lapic := mload32 m (conf + 36)\<rparr>))
     (thenk (mpinit_loop (Suc (unat (mload16 m (conf + 4)))) (conf + 44) (conf + ucast (mload16 m (conf + 4))))
     (bindk (readk ismp) (\<lambda>ok.
     if \<not> ok then modk (\<lambda>s. s\<lparr>ncpu := 1, lapic := 0, ioapicid := 0\<rparr>)
     else
       whenk (m (mp + 12) \<noteq> 0)
         (thenk (outb 0x22 0x70)
         (bindk (inb 0x23) (\<lambda>b. outb 0x23 (b OR 1)))))))))) "

section \<open>The configuration table\<close>

text \<open>A table that \<open>mpinit\<close> understands: from \<open>p\<close> to \<open>e\<close> there are entries of the five known kinds.\<close>

definition entry_len :: "u8 \<Rightarrow> nat" where
  "entry_len k = (if k = 0 then 20 else 8)"

inductive mp_table :: "mem \<Rightarrow> u32 \<Rightarrow> u32 \<Rightarrow> bool" for m e where
  table_end: "\<not> p < e \<Longrightarrow> mp_table m e p"
| table_entry: "p < e \<Longrightarrow> m p \<le> 4 \<Longrightarrow> unat p + entry_len (m p) < 4294967296 \<Longrightarrow>
    mp_table m e (p + of_nat (entry_len (m p))) \<Longrightarrow> mp_table m e p"

lemma u8_le_4: "m \<le> (4 :: u8) \<longleftrightarrow> m = 0 \<or> m = 1 \<or> m = 2 \<or> m = 3 \<or> m = 4"
proof -
  have "unat m \<le> 4 \<longleftrightarrow> unat m = 0 \<or> unat m = 1 \<or> unat m = 2 \<or> unat m = 3 \<or> unat m = 4" by auto
  then show ?thesis by (simp add: word_le_nat_alt word_unat_eq_iff)
qed

declare mpinit_loop.simps(2) [simp del]

lemma can_print_out: "out_only s t \<Longrightarrow> can_print t = can_print s"
  by (auto simp: can_print_def out_only_same)

lemma mpinit_loop_returns:
  fixes s :: "'z hmach_scheme"
  assumes "mp_table m e p" "pmem s = m" "can_print s" "unat e - unat p < fuel"
  shows "runs (mpinit_loop fuel p e) s (\<lambda>_ t. pmem t = m \<and> ncpu s \<le> ncpu t \<and> (ismp t \<longrightarrow> ismp s))"
  using assms
proof (induction p arbitrary: s fuel rule: mp_table.induct)
  case (table_end p)
  then show ?case by (cases fuel) (simp_all add: mpinit_loop.simps(2))
next
  case (table_entry p)
  obtain n where n: "fuel = Suc n" using table_entry.prems by (cases fuel) simp_all
  let ?l = "entry_len (m p)" let ?q = "p + of_nat ?l"
  have "0 < ?l" by (simp add: entry_len_def)
  have "unat ?q = unat p + ?l" using table_entry.hyps(3) by (simp add: unat_word_ariths entry_len_def)
  then have fuel: "unat e - unat ?q < n" using table_entry.prems(3) table_entry.hyps(1) n \<open>0 < ?l\<close> by (simp add: word_less_nat_alt)
  have IH: "runs (mpinit_loop n ?q e) u (\<lambda>_ t. pmem t = m \<and> ncpu s \<le> ncpu t \<and> (ismp t \<longrightarrow> ismp s))"
    if "pmem u = m" "can_print u" "ncpu s \<le> ncpu u" "ismp u \<longrightarrow> ismp s" for u :: "'z hmach_scheme"
    using table_entry.IH [of u n, OF that(1,2) fuel] that(3,4) by (auto elim!: runs_mono)
  show ?case
  proof (cases "m p = 0")
    case True
    then have q: "?q = p + 20" by (simp add: entry_len_def)
    have "fmt_ok (str ''mpinit: ncpu=%d apicid=%d'' @ [10]) [CInt x, CInt y]" for x y by (simp add: str_def)
    then obtain u where "cprintf (str ''mpinit: ncpu=%d apicid=%d'' @ [10])
        [CInt (word_of_int (ncpu s)), CInt (ucast (m (p + 1)))] s = Ok () u" "out_only s u"
      using cprintf_out [OF table_entry.prems(2)] by blast
    note u = this
    define s1 where "s1 = (if ncpu s \<noteq> uint (m (p + 1)) then u\<lparr>ismp := False\<rparr> else s)"
    define s2 where "s2 = (if m (p + 3) AND 2 \<noteq> 0 then s1\<lparr>bcpu := ncpu s\<rparr> else s1)"
    have s2: "pmem s2 = m" "can_print s2" "ncpu s2 = ncpu s" "ismp s2 \<longrightarrow> ismp s"
      using u(2) table_entry.prems(1,2) by (auto simp: s1_def s2_def out_only_def can_print_def)
    let ?s3 = "s2\<lparr>cpu_id := (cpu_id s2)(ncpu s := word_of_int (ncpu s)), ncpu := ncpu s + 1\<rparr>"
    have "mpinit_loop fuel p e s = mpinit_loop n ?q e ?s3"
      unfolding n mpinit_loop.simps(2) q using u(1) True table_entry.hyps(1) table_entry.prems(1)
      by (simp add: whenk_def s1_def s2_def)
    moreover have "runs (mpinit_loop n ?q e) ?s3 (\<lambda>_ t. pmem t = m \<and> ncpu s \<le> ncpu t \<and> (ismp t \<longrightarrow> ismp s))"
      using s2 by (intro IH) (simp_all add: can_print_def)
    ultimately show ?thesis by (simp add: runs_def)
  next
    case False
    then have "m p = 1 \<or> m p = 2 \<or> m p = 3 \<or> m p = 4" "?q = p + 8"
      using table_entry.hyps(2) by (auto simp: u8_le_4 entry_len_def)
    note k = this
    let ?u = "if m p = 2 then s\<lparr>ioapicid := m (p + 1)\<rparr> else s"
    have "mpinit_loop fuel p e s = mpinit_loop n ?q e ?u"
      unfolding n mpinit_loop.simps(2) k(2) using k(1) table_entry.hyps(1) table_entry.prems(1) by auto
    moreover have "runs (mpinit_loop n ?q e) ?u (\<lambda>_ t. pmem t = m \<and> ncpu s \<le> ncpu t \<and> (ismp t \<longrightarrow> ismp s))"
      using table_entry.prems(1,2) by (intro IH) (simp_all add: can_print_def)
    ultimately show ?thesis by (simp add: runs_def)
  qed
qed

lemma mpinit_loop_unknown:
  assumes "p < e" "4 < pmem s p" "can_print s"
  shows "mpinit_loop fuel p e s = Spin"
  using assms
proof (induction fuel arbitrary: s)
  case (Suc n)
  have k: "pmem s p \<noteq> 0" "pmem s p \<noteq> 1" "pmem s p \<noteq> 2" "pmem s p \<noteq> 3" "pmem s p \<noteq> 4"
    using Suc.prems(2) u8_le_4 [of "pmem s p"] by (auto simp: not_less [symmetric])
  have "fmt_ok (str ''mpinit: unknown config type %x'' @ [10]) [CInt x]" for x by (simp add: str_def)
  then obtain u where u: "cprintf (str ''mpinit: unknown config type %x'' @ [10]) [CInt (ucast (pmem s p))] s = Ok () u" "out_only s u"
    using cprintf_out [OF Suc.prems(3)] by blast
  have "mpinit_loop n p e (u\<lparr>ismp := False\<rparr>) = Spin"
    using Suc.IH [of "u\<lparr>ismp := False\<rparr>"] Suc.prems u(2) by (auto simp: out_only_def can_print_def)
  then show ?case using Suc.prems(1) k u(1) by (simp add: mpinit_loop.simps(2))
qed simp

text \<open>C40: on a table of entries of the known kinds, the loop of mpinit returns within as many rounds as the
  table has bytes, without touching memory. On an entry of an unknown kind it prints a message and does
  not advance: it loops for ever, whatever the number of rounds.\<close>

theorem mpinit_entries:
  assumes "can_print s"
  shows "(mp_table (pmem s) e p \<and> unat e - unat p < fuel \<longrightarrow>
      (\<exists>t. mpinit_loop fuel p e s = Ok () t \<and> pmem t = pmem s \<and> ncpu s \<le> ncpu t \<and> (ismp t \<longrightarrow> ismp s)))
    \<and> (p < e \<and> 4 < pmem s p \<longrightarrow> mpinit_loop fuel p e s = Spin)"
  using mpinit_loop_returns [of "pmem s" e p s fuel] mpinit_loop_unknown [of p e s fuel] assms
  by (auto simp: runs_def)

definition hmach0 :: hmach where
  "hmach0 = fmach.extend fmach0 (hmach.fields [] (\<lambda>_. 0) 0 0xFFFB False 0 0 0 (\<lambda>_. 0) 0 (\<lambda>_. 0) [] (\<lambda>_. 0) 0)"

lemma hmach0_can_print: "can_print (hmach0\<lparr>pmem := m\<rparr>)"
proof -
  have "lk hmach0 = lk0" "panicked hmach0 = False"
    by (simp_all add: hmach0_def hmach.defs fmach0_def fmach.defs imach.defs imach0_def cmach0_def rmach.defs cmach.defs
      rmach0_def lmach.defs lmach0_def)
  then show ?thesis using quiet_lk0 [of hmach0] by (simp add: can_print_def quiet_def)
qed

theorem mpinit_entries_witness:
  "(\<exists>t. mpinit_loop 9 0x1000 0x1008 (hmach0\<lparr>pmem := (\<lambda>_. 3)\<rparr>) = Ok () t)
   \<and> mpinit_loop 9 0x1000 0x1008 (hmach0\<lparr>pmem := (\<lambda>_. 7)\<rparr>) = Spin"
proof -
  have "mp_table (\<lambda>_. 3) 0x1008 0x1008" by (rule table_end) simp
  then have "mp_table (\<lambda>_. 3) 0x1008 0x1000"
    using table_entry [of "0x1000" "0x1008" "\<lambda>_. 3"] by (simp add: entry_len_def)
  then have "\<exists>t. mpinit_loop 9 0x1000 0x1008 (hmach0\<lparr>pmem := (\<lambda>_. 3)\<rparr>) = Ok () t"
    using mpinit_entries [OF hmach0_can_print [of "\<lambda>_. 3"], of "0x1008" "0x1000" 9, THEN conjunct1] by fastforce
  moreover have "mpinit_loop 9 0x1000 0x1008 (hmach0\<lparr>pmem := (\<lambda>_. 7)\<rparr>) = Spin"
    by (rule mpinit_entries [OF hmach0_can_print [of "\<lambda>_. 7"], THEN conjunct2, THEN mp]) simp
  ultimately show ?thesis ..
qed

end
