(* ===== verification/Uvm.thy ===== *)
theory Uvm
  imports Vm
begin

text \<open>
  User address spaces: what \<open>allocuvm\<close>, \<open>deallocuvm\<close>, \<open>copyuvm\<close>, \<open>freevm\<close> and \<open>copyout\<close> of
  \<^verbatim>\<open>vm.c\<close> do to the user pages of a process and to the free list. The operations are defined in
  the theory \<^verbatim>\<open>Vm\<close>.
\<close>

section \<open>User address spaces\<close>

text \<open>
  \<open>uspace s ps d T us data\<close>: the directory \<open>d\<close> with tables \<open>T\<close> maps the user pages \<open>us\<close> (page and
  flags) from address 0 on, nothing else below \<^verbatim>\<open>KERNBASE\<close>, and the kernel above. The user pages
  are distinct from each other, from directory and tables, and from the free pages.
\<close>

definition upage :: "nat \<Rightarrow> u32" where
  "upage k = 4096 * of_nat k"

definition user_ptes :: "mem \<Rightarrow> tables \<Rightarrow> (u32 \<times> u32) list \<Rightarrow> bool" where
  "user_ptes m T us \<longleftrightarrow> (\<forall>k < 524288. pte_of m T (upage k) =
     (if k < length us then v2p (fst (us ! k)) OR snd (us ! k) else 0))"

definition own_ok :: "'z kmach_scheme \<Rightarrow> u32 list \<Rightarrow> u32 \<Rightarrow> tables \<Rightarrow> (u32 \<times> u32) list \<Rightarrow> bool" where
  "own_ok s ps d T us \<longleftrightarrow> distinct (map fst us)
     \<and> (\<forall>(p, f) \<in> set us. page_ok s p \<and> p \<notin> set ps \<and> p \<noteq> d \<and> p \<notin> ran T \<and> f AND NOT 0xFFF = 0 \<and> f AND 1 \<noteq> 0)"

definition uspace :: "'z kmach_scheme \<Rightarrow> u32 list \<Rightarrow> u32 \<Rightarrow> tables \<Rightarrow> (u32 \<times> u32) list \<Rightarrow> u32 \<Rightarrow> bool" where
  "uspace s ps d T us data \<longleftrightarrow> pgd_inv s ps d T \<and> KERNBASE < kend s \<and> length us \<le> 524288 \<and> user_ptes (pmem s) T us
     \<and> own_ok s ps d T us \<and> (\<forall>v. KERNBASE \<le> v \<longrightarrow> pte_of (pmem s) T v = kernel_pte data v)"

lemma unat_upage [simp]: "k < 1048576 \<Longrightarrow> unat (upage k) = 4096 * k"
proof -
  assume "k < 1048576"
  then have "4096 * k < 4294967296" by simp
  moreover have "upage k = of_nat (4096 * k)" by (simp add: upage_def)
  ultimately show ?thesis by (simp only: unat32_of_nat)
qed

lemma upage_mod: "k < 1048576 \<Longrightarrow> upage k mod PGSIZE = 0"
  by (rule unat_page) simp

lemma upage_Suc: "upage (Suc k) = upage k + PGSIZE"
  by (simp add: upage_def algebra_simps)

lemma upage_kern: "k < 524288 \<Longrightarrow> upage k < KERNBASE"
  by (simp add: word_less_nat_alt)

text \<open>The pages of an address space.\<close>

definition as_pages :: "u32 \<Rightarrow> tables \<Rightarrow> (u32 \<times> u32) list \<Rightarrow> u32 set" where
  "as_pages d T us = insert d (ran T \<union> fst ` set us)"

lemma as_pages_ok:
  assumes "uspace s ps d T us data" "p \<in> as_pages d T us"
  shows "page_ok s p" "p \<notin> set ps"
  using assms unfolding uspace_def own_ok_def as_pages_def pgd_inv_def tabs_ok_def
  by (auto simp: ran_def)

text \<open>An address space is unchanged by code that leaves its pages alone.\<close>

lemma uspace_frame:
  assumes "uspace s ps d T us data" "vframe s t" "kmem_quiet t ps'"
    "\<And>p. p \<in> as_pages d T us \<Longrightarrow> p \<notin> set ps' \<and> same_page (pmem s) (pmem t) p"
  shows "uspace t ps' d T us data"
proof -
  have p: "page_ok t = page_ok s" using assms(2) by (rule vframe_simps)
  have T: "T i = Some q \<Longrightarrow> q \<in> as_pages d T us" for i q by (auto simp: as_pages_def ran_def)
  have "pte_of (pmem t) T v = pte_of (pmem s) T v" for v
    using assms(4) T by (intro pte_of_same) blast
  moreover have "tabs_ok t ps' d T"
    using assms(1,4) T p unfolding uspace_def pgd_inv_def tabs_ok_def as_pages_def by auto
  moreover have "dir_maps (pmem t) d T"
    using assms(1) assms(4) [of d] by (auto simp: as_pages_def uspace_def pgd_inv_def intro: dir_maps_same)
  moreover have "own_ok t ps' d T us"
    using assms(1,4) p unfolding uspace_def own_ok_def as_pages_def by (fastforce simp: image_iff)
  ultimately show ?thesis
    using assms(1,3) vframe_simps(1) [OF assms(2)] by (simp add: uspace_def pgd_inv_def user_ptes_def)
qed

text \<open>A zeroed page taken from the free list.\<close>

lemma zpage:
  assumes "kmem_quiet s (p # ps)"
  obtains u t where "kalloc s = Ok p u" "kmemset p 0 PGSIZE u = Ok () t" "vframe s t" "kmem_quiet t ps"
    "p \<noteq> 0" "page_ok s p" "p \<notin> set ps" "\<And>i. i < 4096 \<Longrightarrow> pmem t (p + of_nat i) = 0"
    "\<And>q. page_ok s q \<Longrightarrow> q \<noteq> p \<Longrightarrow> same_page (pmem s) (pmem t) q"
proof -
  obtain f where f: "kalloc s = Ok p (s\<lparr>freelist := f\<rparr>)" "kmem_quiet (s\<lparr>freelist := f\<rparr>) ps"
    and p: "page_ok s p" "p \<noteq> 0" "p \<notin> set ps" using assms by (rule kalloc_pop)
  define m where "m = mset_mem (pmem s) p 0 4096"
  have same: "same_page (pmem s) m q" if "page_ok s q" "q \<noteq> p" for q
    unfolding m_def by (rule fill_same_page [OF page_ok_mod [OF p(1)] page_ok_mod [OF that(1)] that(2) [symmetric]])
  have "kmem_quiet (s\<lparr>freelist := f, pmem := m\<rparr>) ps"
    using f(2) assms p(3)
    by (intro kmem_quiet_pmem) (auto intro!: same simp: kmem_quiet_def kmem_inv_def)
  moreover have "m (p + of_nat i) = 0" if "i < 4096" for i using that by (simp add: m_def mset_mem_def)
  ultimately show thesis
    using f(1) same p
    by (intro that [of "s\<lparr>freelist := f\<rparr>" "s\<lparr>freelist := f, pmem := m\<rparr>"])
      (simp_all add: kmemset_def memset_fill m_def)
qed

lemma pte_of_cong: "PDX v = PDX w \<Longrightarrow> PTX v = PTX w \<Longrightarrow> pte_of m T v = pte_of m T w"
  by (simp add: pte_of_def split: option.split)

text \<open>Mapping one more user page: the page \<open>p\<close>, in use by nobody else.\<close>

lemma map_upage:
  assumes "uspace s ps d T us data" "length us < 524288" "ps \<noteq> [] \<or> T (PDX (upage (length us))) \<noteq> None"
    "page_ok s p" "p \<notin> set ps" "p \<notin> as_pages d T us" "f AND NOT 0xFFF = 0"
  shows "\<exists>t ps' T'. mappages d (upage (length us)) PGSIZE (v2p p) f s = Ok 0 t \<and> grown s ps d T t ps' T'
    \<and> length ps + card (dom T) = length ps' + card (dom T') \<and> dom T' \<subseteq> insert (PDX (upage (length us))) (dom T)
    \<and> PDX (upage (length us)) \<in> dom T'
    \<and> uspace t ps' d T' (us @ [(p, f OR 1)]) data"
proof -
  let ?a = "upage (length us)"
  have k: "length us < 1048576" using assms(2) by simp
  have al: "?a mod PGSIZE = 0" using k by (rule upage_mod)
  have inv: "pgd_inv s ps d T" and up: "user_ptes (pmem s) T us" using assms(1) by (auto simp: uspace_def)
  have same: "PDX v = PDX ?a \<and> PTX v = PTX ?a" if "unat (v - ?a) < 4096" for v
    using vpage_eq [OF al, of v] that by simp
  have "pte_of (pmem s) T ?a = 0" using up assms(2) by (simp add: user_ptes_def)
  then have free: "pte_of (pmem s) T v AND 1 = 0 \<and> PDX v \<in> {PDX ?a}" if "unat (v - ?a) < unat PGSIZE" for v
    using same [of v] that pte_of_cong [of v ?a] by simp
  have sz: "unat PGSIZE = 4096 * Suc 0" by simp
  have fin: "finite {PDX ?a}" "card ({PDX ?a} - dom T) \<le> length ps"
  proof -
    show "card ({PDX ?a} - dom T) \<le> length ps"
    proof (cases "T (PDX ?a) = None")
      case True
      then have "ps \<noteq> []" using assms(3) by simp
      moreover have "{PDX ?a} - dom T = {PDX ?a}" using True by auto
      ultimately show ?thesis by (cases ps) simp_all
    next
      case False
      then have "{PDX ?a} - dom T = {}" by auto
      then show ?thesis by (simp only: card.empty)
    qed
  qed simp
  obtain t ps' T' where t: "mappages d ?a PGSIZE (v2p p) f s = Ok 0 t" "grown s ps d T t ps' T'"
    "card ({PDX ?a} - dom T') \<le> length ps'" "dom T' \<subseteq> dom T \<union> {PDX ?a}"
    "length ps + card (dom T) = length ps' + card (dom T')"
    "\<And>v. pte_of (pmem t) T' v = (if unat (v - ?a) < unat PGSIZE
         then (v2p p + (PGROUNDDOWN v - ?a)) OR f OR 1 else pte_of (pmem s) T v)"
    using mappages_maps [OF inv al sz fin free, of "v2p p" f] by blast
  note g = grownD [OF t(2)]
  obtain qs where qs: "ps = qs @ ps'" "ran T' = ran T \<union> set qs" using g(5) by blast
  have "user_ptes (pmem t) T' (us @ [(p, f OR 1)])"
    unfolding user_ptes_def
  proof (intro allI impI)
    fix k :: nat
    assume k': "k < 524288"
    then have "unat (upage k - ?a) < 4096 \<longleftrightarrow> k = length us"
      using k by (auto simp: unat_sub_if')
    then show "pte_of (pmem t) T' (upage k) = (if k < length (us @ [(p, f OR 1)])
        then v2p (fst ((us @ [(p, f OR 1)]) ! k)) OR snd ((us @ [(p, f OR 1)]) ! k) else 0)"
      using up k' PGROUNDDOWN_page [OF al] unfolding t(6) user_ptes_def
      by (auto simp: nth_append less_Suc_eq)
  qed
  moreover have "pte_of (pmem t) T' v = kernel_pte data v" if "KERNBASE \<le> v" for v
  proof -
    have "\<not> unat (v - ?a) < unat PGSIZE"
      using that assms(2) k by (simp add: unat_sub_if' word_le_nat_alt)
    then show ?thesis using assms(1) that unfolding t(6) uspace_def by simp
  qed
  moreover have "own_ok t ps' d T' (us @ [(p, f OR 1)])"
    using assms(1,4-7) qs vframe_simps(2) [OF g(1)] unfolding uspace_def own_ok_def as_pages_def
    by (auto simp: bit.conj_disj_distrib2)
  ultimately have "uspace t ps' d T' (us @ [(p, f OR 1)]) data"
    using g(2) assms(1,2) vframe_simps(1) [OF g(1)] by (simp add: uspace_def)
  moreover have "pte_of (pmem t) T' ?a AND 1 \<noteq> 0"
    unfolding t(6) by (simp add: bit.conj_disj_distrib2 PGROUNDDOWN_page [OF al])
  then have "PDX ?a \<in> dom T'" by (auto simp: pte_of_def split: option.splits)
  ultimately show ?thesis using t(1,2,4,5) by blast
qed

text \<open>A directory fresh from \<open>setupkvm\<close> is an address space without user pages.\<close>

lemma kvm_uspace:
  assumes "kvm_part s ps d T (kernel_pte data)" "KERNBASE < kend s"
  shows "uspace s ps d T [] data"
proof -
  have "pte_of (pmem s) T (upage k) = 0" if "k < 524288" for k
    using assms(1) upage_kern [OF that] by (simp add: kvm_part_def kernel_pte_def)
  then show ?thesis using assms by (simp add: uspace_def user_ptes_def own_ok_def kvm_part_def)
qed

section \<open>Growing\<close>

text \<open>The number of pages of a process of size \<open>sz\<close>.\<close>

definition npages :: "u32 \<Rightarrow> nat" where
  "npages sz = (unat sz + 4095) div 4096"

lemma upage_less: "k < 1048576 \<Longrightarrow> upage k < sz \<longleftrightarrow> k < npages sz"
  by (auto simp: word_less_nat_alt npages_def)

lemma npages_user: "sz < KERNBASE \<Longrightarrow> npages sz \<le> 524288"
  by (simp add: word_less_nat_alt npages_def)

lemma PGROUNDUP_upage: "sz < KERNBASE \<Longrightarrow> PGROUNDUP sz = upage (npages sz)"
proof -
  assume sz: "sz < KERNBASE"
  then have "unat (PGROUNDUP sz) = 4096 * npages sz"
    by (simp add: PGROUNDUP_unat npages_def word_less_nat_alt)
  then show ?thesis using npages_user [OF sz] by (simp add: word_unat_eq_iff)
qed

text \<open>What allocation keeps: pages that are neither free nor part of the page table.\<close>

definition keeps :: "'z kmach_scheme \<Rightarrow> u32 list \<Rightarrow> u32 \<Rightarrow> tables \<Rightarrow> 'z kmach_scheme \<Rightarrow> bool" where
  "keeps s ps d T t \<longleftrightarrow> vframe s t
     \<and> (\<forall>p. page_ok s p \<longrightarrow> p \<notin> set ps \<longrightarrow> p \<noteq> d \<longrightarrow> p \<notin> ran T \<longrightarrow> same_page (pmem s) (pmem t) p)"

definition zero_page :: "mem \<Rightarrow> u32 \<Rightarrow> bool" where
  "zero_page m p \<longleftrightarrow> (\<forall>i < 4096. m (p + of_nat i) = 0)"

lemma zero_page_same: "zero_page m p \<Longrightarrow> same_page m m' p \<Longrightarrow> zero_page m' p"
  by (simp add: zero_page_def same_page_def)

text \<open>One round of the loop of \<open>allocuvm\<close>.\<close>

lemma alloc_round:
  assumes "uspace s (p # ps) d T us data" "length us < 524288"
    "ps \<noteq> [] \<or> T (PDX (upage (length us))) \<noteq> None"
  shows "\<exists>u v t ps' T'. kalloc s = Ok p u \<and> p \<noteq> 0 \<and> kmemset p 0 PGSIZE u = Ok () v
    \<and> mappages d (upage (length us)) PGSIZE (v2p p) (PTE_W OR PTE_U) v = Ok 0 t
    \<and> uspace t ps' d T' (us @ [(p, 7)]) data \<and> zero_page (pmem t) p \<and> page_ok s p
    \<and> (\<exists>qs. ps = qs @ ps' \<and> ran T' = ran T \<union> set qs) \<and> keeps s (p # ps) d T t
    \<and> length ps + card (dom T) = length ps' + card (dom T')
    \<and> dom T' = insert (PDX (upage (length us))) (dom T)"
proof -
  have k: "kmem_quiet s (p # ps)" using assms(1) by (simp add: uspace_def pgd_inv_def)
  obtain u v where v: "kalloc s = Ok p u" "kmemset p 0 PGSIZE u = Ok () v" "vframe s v" "kmem_quiet v ps"
    "p \<noteq> 0" "page_ok s p" "p \<notin> set ps" and z: "\<And>i. i < 4096 \<Longrightarrow> pmem v (p + of_nat i) = 0"
    and same: "\<And>q. page_ok s q \<Longrightarrow> q \<noteq> p \<Longrightarrow> same_page (pmem s) (pmem v) q"
    by (rule zpage [OF k]) auto
  have p: "q \<in> as_pages d T us \<Longrightarrow> page_ok s q \<and> q \<noteq> p \<and> q \<notin> set ps" for q
    using as_pages_ok [OF assms(1)] by fastforce
  have us: "uspace v ps d T us data"
    using p same by (intro uspace_frame [OF assms(1) v(3,4)]) blast
  have pk: "page_ok v = page_ok s" using v(3) by (rule vframe_simps)
  obtain t ps' T' where t: "mappages d (upage (length us)) PGSIZE (v2p p) (PTE_W OR PTE_U) v = Ok 0 t"
    "grown v ps d T t ps' T'" "length ps + card (dom T) = length ps' + card (dom T')"
    "dom T' \<subseteq> insert (PDX (upage (length us))) (dom T)" "PDX (upage (length us)) \<in> dom T'"
    "uspace t ps' d T' (us @ [(p, (PTE_W OR PTE_U) OR 1)]) data"
    using map_upage [OF us assms(2,3), of p "PTE_W OR PTE_U"] v(6,7) p pk by fastforce
  note g = grownD [OF t(2)]
  obtain qs where qs: "ps = qs @ ps'" "ran T' = ran T \<union> set qs" using g(5) by blast
  have "keeps s (p # ps) d T t"
    unfolding keeps_def using vframe_trans [OF v(3) g(1)] same g(4) pk qs
    by (auto intro: same_page_trans)
  moreover have "zero_page (pmem t) p"
  proof (rule zero_page_same)
    show "zero_page (pmem v) p" using z by (simp add: zero_page_def)
    have "p \<notin> as_pages d T us" using p by blast
    then show "same_page (pmem v) (pmem t) p"
      using g(4) [of p] v(6,7) pk qs by (auto simp: as_pages_def)
  qed
  moreover have "dom T' = insert (PDX (upage (length us))) (dom T)"
    using t(4,5) map_le_implies_dom_le [OF g(3)] by blast
  ultimately show ?thesis
    using v(1,2,5,6) t(1,3,6) qs by (intro exI conjI) auto
qed

lemma keeps_trans:
  assumes "keeps s ps d T t" "keeps t ps' d T' u" "set ps' \<subseteq> set ps" "ran T' \<subseteq> ran T \<union> set ps"
  shows "keeps s ps d T u"
proof -
  have v: "vframe s t" "vframe t u" using assms(1,2) by (auto simp: keeps_def)
  note p = vframe_simps(2) [OF v(1)]
  have "same_page (pmem s) (pmem u) q" if "page_ok s q" "q \<notin> set ps" "q \<noteq> d" "q \<notin> ran T" for q
  proof -
    have "q \<notin> set ps'" "q \<notin> ran T'" using that assms(3,4) by blast+
    then have "same_page (pmem t) (pmem u) q" using that p assms(2) by (simp add: keeps_def)
    then show ?thesis using that assms(1) same_page_trans unfolding keeps_def by blast
  qed
  then show ?thesis using vframe_trans [OF v] by (simp add: keeps_def)
qed

lemma card_tables: "finite R \<Longrightarrow> card (R - dom T) + card (dom T) = card (R \<union> dom T)" for T :: tables
  by (subst card_Un_disjoint [symmetric]) auto

lemma allocuvm_loop_ok:
  assumes "uspace s ps d T us data" "newsz < KERNBASE" "length us \<le> npages newsz" "npages newsz - length us < fuel"
    "\<And>j. length us \<le> j \<Longrightarrow> j < npages newsz \<Longrightarrow> PDX (upage j) \<in> R"
    "npages newsz - length us + card (R - dom T) \<le> length ps"
  shows "\<exists>t ps' T' vs. allocuvm_loop fuel d (upage (length us)) oldsz newsz s = Ok newsz t
    \<and> uspace t ps' d T' (us @ vs) data \<and> length (us @ vs) = npages newsz
    \<and> (\<forall>(p, f) \<in> set vs. p \<in> set ps \<and> f = 7 \<and> zero_page (pmem t) p)
    \<and> keeps s ps d T t \<and> (\<exists>qs. ps = qs @ ps' \<and> ran T' \<union> fst ` set vs = ran T \<union> set qs)"
  using assms
proof (induction fuel arbitrary: s ps T us)
  case 0
  then show ?case by simp
next
  case (Suc fuel)
  note np = npages_user [OF Suc.prems(2)]
  show ?case
  proof (cases "length us < npages newsz")
    case False
    then have "\<not> upage (length us) < newsz" "length us = npages newsz"
      using upage_less [of "length us" newsz] np Suc.prems(3) by auto
    then show ?thesis
      using Suc.prems(1)
      by (intro exI [of _ s] exI [of _ ps] exI [of _ T] exI [of _ "[]"])
        (auto simp: allocuvm_loop.simps(2) keeps_def)
  next
    case True
    then have len: "length us < 524288" using np by simp
    have fin: "finite R" by simp
    have R: "PDX (upage (length us)) \<in> R" using Suc.prems(5) True by simp
    obtain p ps1 where ps: "ps = p # ps1" using Suc.prems(6) True by (cases ps) auto
    have card: "card (R - dom T) \<le> length ps1" using Suc.prems(6) True ps by simp
    have more: "ps1 \<noteq> [] \<or> T (PDX (upage (length us))) \<noteq> None"
      using table_step(1) [OF R fin card] .
    obtain u v t ps2 T2 where r: "kalloc s = Ok p u" "p \<noteq> 0" "kmemset p 0 PGSIZE u = Ok () v"
      "mappages d (upage (length us)) PGSIZE (v2p p) (PTE_W OR PTE_U) v = Ok 0 t"
      "uspace t ps2 d T2 (us @ [(p, 7)]) data" "zero_page (pmem t) p" "page_ok s p"
      and qs: "\<exists>qs. ps1 = qs @ ps2 \<and> ran T2 = ran T \<union> set qs" and keep: "keeps s (p # ps1) d T t"
      and cnt: "length ps1 + card (dom T) = length ps2 + card (dom T2)"
      and dom: "dom T2 = insert (PDX (upage (length us))) (dom T)"
      using alloc_round [OF Suc.prems(1) [unfolded ps] len more] by blast
    have "\<exists>w ps' T' vs. allocuvm_loop fuel d (upage (length (us @ [(p, 7)]))) oldsz newsz t = Ok newsz w
      \<and> uspace w ps' d T' ((us @ [(p, 7)]) @ vs) data \<and> length ((us @ [(p, 7)]) @ vs) = npages newsz
      \<and> (\<forall>(p, f) \<in> set vs. p \<in> set ps2 \<and> f = 7 \<and> zero_page (pmem w) p)
      \<and> keeps t ps2 d T2 w \<and> (\<exists>qs. ps2 = qs @ ps' \<and> ran T' \<union> fst ` set vs = ran T2 \<union> set qs)"
    proof (rule Suc.IH [OF r(5) Suc.prems(2)])
      show "npages newsz - length (us @ [(p, 7)]) + card (R - dom T2) \<le> length ps2"
      proof -
        have "R \<union> dom T2 = R \<union> dom T" unfolding dom using R by blast
        then have "card (R - dom T2) + card (dom T2) = card (R - dom T) + card (dom T)"
          using card_tables [OF fin] by metis
        then show ?thesis using Suc.prems(6) True ps cnt by simp
      qed
    qed (use True Suc.prems in auto)
    then obtain w ps' T' vs where w: "allocuvm_loop fuel d (upage (length (us @ [(p, 7)]))) oldsz newsz t = Ok newsz w"
      "uspace w ps' d T' ((us @ [(p, 7)]) @ vs) data" "length ((us @ [(p, 7)]) @ vs) = npages newsz"
      "\<forall>(p, f) \<in> set vs. p \<in> set ps2 \<and> f = 7 \<and> zero_page (pmem w) p" "keeps t ps2 d T2 w"
      "\<exists>qs. ps2 = qs @ ps' \<and> ran T' \<union> fst ` set vs = ran T2 \<union> set qs"
      by blast
    have "allocuvm_loop (Suc fuel) d (upage (length us)) oldsz newsz s = Ok newsz w"
      using upage_less [of "length us" newsz] True len r(1-4) w(1)
      by (simp add: allocuvm_loop.simps(2) upage_Suc del: PGSIZE_def PTE_W_def PTE_U_def)
    moreover have "keeps s ps d T w"
      unfolding ps by (rule keeps_trans [OF keep w(5)]) (use qs in auto)
    moreover have "zero_page (pmem w) p"
    proof (rule zero_page_same [OF r(6)])
      have "p \<notin> set ps2" "p \<noteq> d" "p \<notin> ran T2" "page_ok t p"
        using r(5) by (auto simp: uspace_def own_ok_def)
      then show "same_page (pmem t) (pmem w) p" using w(5) by (simp add: keeps_def)
    qed
    moreover have "\<exists>qs. ps = qs @ ps' \<and> ran T' \<union> fst ` set ((p, 7) # vs) = ran T \<union> set qs"
    proof -
      obtain q1 q2 where "ps1 = q1 @ ps2" "ran T2 = ran T \<union> set q1" "ps2 = q2 @ ps'"
        "ran T' \<union> fst ` set vs = ran T2 \<union> set q2" using qs w(6) by blast
      then show ?thesis using ps by (intro exI [of _ "p # q1 @ q2"]) auto
    qed
    moreover have "set ps2 \<subseteq> set ps" using qs ps by auto
    ultimately show ?thesis
      using w(2-4) ps
      by (intro exI [of _ w] exI [of _ ps'] exI [of _ T'] exI [of _ "(p, 7) # vs"]) auto
  qed
qed

lemma page_fuel_enough: "n \<le> 524288 \<Longrightarrow> n < page_fuel"
  by (simp add: page_fuel_def)


text \<open>\<open>allocuvm\<close> does not look at the result of \<open>mappages\<close>. When the last free page is the new page
  itself and its page table is missing, it still reports success: the page is neither mapped
  nor on the free list any more.\<close>

lemma allocuvm_unmapped:
  assumes "uspace s [p] d T us data" "T (PDX (upage (length us))) = None" "length us = npages oldsz"
    "npages newsz = Suc (length us)" "newsz < KERNBASE" "oldsz \<le> newsz"
  shows "\<exists>t. allocuvm d oldsz newsz s = Ok newsz t \<and> kmem_quiet t [] \<and> pte_of (pmem t) T (upage (length us)) = 0"
proof -
  have n: "length us < 524288" "length us < 1048576" using npages_user [OF assms(5)] assms(4) by simp_all
  have km: "kmem_quiet s [p]" using assms(1) by (simp add: uspace_def pgd_inv_def)
  obtain u v where v: "kalloc s = Ok p u" "kmemset p 0 PGSIZE u = Ok () v" "vframe s v" "kmem_quiet v []" "p \<noteq> 0"
    and same: "\<And>q. page_ok s q \<Longrightarrow> q \<noteq> p \<Longrightarrow> same_page (pmem s) (pmem v) q"
    by (rule zpage [OF km]) auto
  have us: "uspace v [] d T us data"
    using as_pages_ok [OF assms(1)] same by (intro uspace_frame [OF assms(1) v(3,4)]) auto
  then have inv: "pgd_inv v [] d T" by (simp add: uspace_def)
  have "page_fuel = Suc (Suc (2 ^ 20))" by (simp add: page_fuel_def)
  then obtain N where pf: "page_fuel = Suc (Suc N)" ..
  have one: "unat PGSIZE = 4096 * Suc 0" by simp
  have m: "mappages d (upage (length us)) PGSIZE (v2p p) (PTE_W OR PTE_U) v = Ok (-1) v"
    by (subst mappages_run [OF upage_mod [OF n(2)] one]) (simp only: pf mappages_oom [OF inv assms(2)])
  have lt: "upage (length us) < newsz" "\<not> upage (Suc (length us)) < newsz"
    using upage_less [of "length us" newsz] upage_less [of "Suc (length us)" newsz] n assms(4) by simp_all
  have old: "oldsz < KERNBASE" using assms(5,6) by (rule le_less_trans [rotated])
  have "\<not> KERNBASE \<le> newsz" "\<not> newsz < oldsz" using assms(5,6) by (simp_all only: not_le not_less)
  then have "allocuvm d oldsz newsz s = allocuvm_loop page_fuel d (upage (length us)) oldsz newsz s"
    using PGROUNDUP_upage [OF old] by (simp only: allocuvm_def assms(3) if_False)
  also have "\<dots> = Ok newsz v"
    unfolding pf allocuvm_loop.simps(2) [of _ d "upage (length us)"]
    using v(1,2,5) m lt by (simp add: allocuvm_loop.simps(2) flip: upage_Suc del: PGSIZE_def PTE_W_def PTE_U_def)
  finally show ?thesis using us v(4) n(1) by (auto simp: uspace_def user_ptes_def)
qed

section \<open>Shrinking\<close>

text \<open>While \<open>deallocuvm\<close> runs the user pages need not be contiguous: \<open>U\<close> gives the page and flags of
  each page number that is mapped.\<close>

definition gspace :: "'z kmach_scheme \<Rightarrow> u32 list \<Rightarrow> u32 \<Rightarrow> tables \<Rightarrow> (nat \<rightharpoonup> u32 \<times> u32) \<Rightarrow> u32 \<Rightarrow> bool" where
  "gspace s ps d T U data \<longleftrightarrow> pgd_inv s ps d T \<and> KERNBASE < kend s
     \<and> (\<forall>k < 524288. pte_of (pmem s) T (upage k) = (case U k of None \<Rightarrow> 0 | Some (p, f) \<Rightarrow> v2p p OR f))
     \<and> (\<forall>k p f. U k = Some (p, f) \<longrightarrow> page_ok s p \<and> p \<notin> set ps \<and> p \<noteq> d \<and> p \<notin> ran T
          \<and> f AND NOT 0xFFF = 0 \<and> f AND 1 \<noteq> 0)
     \<and> dom U \<subseteq> {..<524288}
     \<and> (\<forall>k j p f g. U k = Some (p, f) \<longrightarrow> U j = Some (p, g) \<longrightarrow> k = j)
     \<and> (\<forall>v. KERNBASE \<le> v \<longrightarrow> pte_of (pmem s) T v = kernel_pte data v)"

definition umap :: "(u32 \<times> u32) list \<Rightarrow> nat \<rightharpoonup> u32 \<times> u32" where
  "umap us k = (if k < length us then Some (us ! k) else None)"

lemma umap_all: "(\<forall>(p, f) \<in> set us. Q p f) \<longleftrightarrow> (\<forall>k p f. umap us k = Some (p, f) \<longrightarrow> Q p f)"
  unfolding umap_def by (auto simp: in_set_conv_nth split: if_splits)

lemma umap_inj:
  "distinct (map fst us) \<longleftrightarrow> (\<forall>k j p f g. umap us k = Some (p, f) \<longrightarrow> umap us j = Some (p, g) \<longrightarrow> k = j)"
proof -
  have "distinct (map fst us) \<longleftrightarrow> (\<forall>k < length us. \<forall>j < length us. fst (us ! k) = fst (us ! j) \<longrightarrow> k = j)"
    by (auto simp: distinct_conv_nth)
  also have "\<dots> \<longleftrightarrow> (\<forall>k j p f g. umap us k = Some (p, f) \<longrightarrow> umap us j = Some (p, g) \<longrightarrow> k = j)"
    unfolding umap_def by (auto split: if_splits) (metis prod.collapse)
  finally show ?thesis .
qed

lemma umap_pte: "(if k < length us then v2p (fst (us ! k)) OR snd (us ! k) else 0) =
    (case umap us k of None \<Rightarrow> 0 | Some (p, f) \<Rightarrow> v2p p OR f)"
  by (simp add: umap_def split: prod.split)

lemma umap_dom: "dom (umap us) \<subseteq> {..<524288} \<longleftrightarrow> length us \<le> 524288"
proof -
  have "dom (umap us) = {..<length us}" by (auto simp: umap_def split: if_splits)
  then show ?thesis by (simp add: lessThan_subset_iff)
qed

lemma uspace_gspace: "uspace s ps d T us data \<longleftrightarrow> gspace s ps d T (umap us) data"
  unfolding uspace_def gspace_def own_ok_def user_ptes_def umap_dom umap_all umap_inj umap_pte
  by argo

lemma kfree_push:
  assumes "kmem_quiet s ps" "page_ok s v" "v \<notin> set ps"
  obtains t where "kfree v s = Ok () t" "kmem_quiet t (v # ps)" "vframe s t"
    "\<And>q. page_ok s q \<Longrightarrow> q \<noteq> v \<Longrightarrow> same_page (pmem s) (pmem t) q"
proof -
  let ?t = "s\<lparr>pmem := mstore32 (mset_mem (pmem s) v 1 4096) v (freelist s), freelist := v\<rparr>"
  have run: "kfree v s = Ok () ?t" using assms by (simp add: kfree_run kmem_quiet_def)
  moreover have "kmem_quiet ?t (v # ps)"
    using kalloc.free_ok [OF assms] run by auto
  moreover have "same_page (pmem s) (pmem ?t) q" if "page_ok s q" "q \<noteq> v" for q
    using free_same_page [OF page_ok_mod [OF assms(2)] page_ok_mod [OF that(1)] that(2) [symmetric]] by simp
  ultimately show thesis by (intro that) auto
qed

lemma flags_mask: "f AND NOT 0xFFF = 0 \<Longrightarrow> f AND 0xFFF = f" for f :: u32
proof -
  assume f: "f AND NOT 0xFFF = 0"
  have "f AND (0xFFF OR NOT 0xFFF) = f" by simp
  then have "(f AND 0xFFF) OR (f AND NOT 0xFFF) = f" by (simp only: bit.conj_disj_distrib)
  then show ?thesis by (simp only: f or.right_neutral)
qed

lemma pte_parts:
  assumes "page_ok s p" "f AND NOT 0xFFF = 0" "f AND 1 \<noteq> 0"
  shows "(v2p p OR f) AND 1 \<noteq> 0" "PTE_ADDR (v2p p OR f) = v2p p" "PTE_FLAGS (v2p p OR f) = f"
proof -
  note m = page_mask [OF page_ok_mod [OF assms(1)]]
  have one: "v2p p AND w = 0" if "w AND NOT 0xFFF = 0" for w using m that by (rule page_and)
  show "PTE_ADDR (v2p p OR f) = v2p p" by (rule PTE_ADDR_page [OF page_ok_mod [OF assms(1)] assms(2)])
  show "(v2p p OR f) AND 1 \<noteq> 0" using one [of 1] assms(3) by (simp add: bit.conj_disj_distrib2)
  show "PTE_FLAGS (v2p p OR f) = f"
    using one [of "0xFFF"] flags_mask [OF assms(2)] by (simp add: PTE_FLAGS_def bit.conj_disj_distrib2)
qed

lemma v2p_nz: "page_ok s p \<Longrightarrow> KERNBASE < kend s \<Longrightarrow> v2p p \<noteq> 0"
  by (auto simp: page_ok_def v2p_def)

lemma upage_same:
  assumes "j < 524288" "k < 524288"
  shows "PDX (upage j) = PDX (upage k) \<and> PTX (upage j) = PTX (upage k) \<longleftrightarrow> j = k"
proof -
  have k: "k < 1048576" "j < 1048576" using assms by simp_all
  have "unat (upage j - upage k) < 4096 \<longleftrightarrow> j = k" using k assms by (auto simp: unat_sub_if')
  then show ?thesis using vpage_eq [OF upage_mod [OF k(1)], of "upage j"] by simp
qed

lemma kern_not_upage:
  assumes "KERNBASE \<le> v" "k < 524288"
  shows "\<not> (PDX v = PDX (upage k) \<and> PTX v = PTX (upage k))"
proof -
  have k: "k < 1048576" using assms(2) by simp
  have "\<not> unat (v - upage k) < 4096" using assms k by (simp add: unat_sub_if' word_le_nat_alt)
  then show ?thesis using vpage_eq [OF upage_mod [OF k], of v] by blast
qed

text \<open>One page freed.\<close>

lemma dealloc_step:
  assumes "gspace s ps d T U data" "U k = Some (p, f)"
  shows "\<exists>t a. walkpgdir d (upage k) False s = Ok a s \<and> a \<noteq> 0 \<and> mload32 (pmem s) a = v2p p OR f
    \<and> (\<exists>v. kfree p s = Ok () v \<and> store32 a 0 v = Ok () t) \<and> gspace t (p # ps) d T (U(k := None)) data
    \<and> vframe s t \<and> (\<forall>q. page_ok s q \<longrightarrow> q \<noteq> p \<longrightarrow> q \<notin> ran T \<longrightarrow> same_page (pmem s) (pmem t) q)"
proof -
  have inv: "pgd_inv s ps d T" and k: "k < 524288" "page_ok s p" "p \<notin> set ps" "p \<noteq> d" "p \<notin> ran T"
    "f AND NOT 0xFFF = 0" "f AND 1 \<noteq> 0" using assms unfolding gspace_def by (blast | force)+
  have pte: "pte_of (pmem s) T (upage k) = v2p p OR f" using assms k unfolding gspace_def by auto
  then obtain q where q: "T (PDX (upage k)) = Some q"
    using pte_parts(1) [OF k(2,6,7)] by (auto simp: pte_of_def split: option.splits)
  note w = walk_some [OF inv q]
  have tab: "tabs_ok s ps d T" and km: "kmem_quiet s ps" using inv by (auto simp: pgd_inv_def)
  obtain u where u: "kfree p s = Ok () u" "kmem_quiet u (p # ps)" "vframe s u"
    and same: "\<And>q. page_ok s q \<Longrightarrow> q \<noteq> p \<Longrightarrow> same_page (pmem s) (pmem u) q"
    using kfree_push [OF km k(2,3)] by metis
  have T: "page_ok s r \<and> r \<noteq> p" if "T i = Some r" for i r
    using tabs_okD(4) [OF tab that] k(5) that by (auto simp: ran_def)
  have ok: "page_ok u = page_ok s" using u(3) by (rule vframe_simps)
  have pu: "pte_of (pmem u) T v = pte_of (pmem s) T v" for v using same T by (intro pte_of_same) blast
  have "tabs_ok u (p # ps) d T"
    using tab k T ok unfolding tabs_ok_def by auto
  moreover have "dir_maps (pmem u) d T"
    using dir_maps_same [of "pmem s" d T] inv same [OF tabs_okD(1) [OF tab]] k(4) by (auto simp: pgd_inv_def)
  ultimately have iu: "pgd_inv u (p # ps) d T" using u(2) by (simp add: pgd_inv_def)
  note st = store_pte [OF iu q, where w = 0]
  define t where "t = u\<lparr>pmem := mstore32 (pmem u) (q + 4 * PTX (upage k)) 0\<rparr>"
  have pt: "pte_of (pmem t) T v = (if PDX v = PDX (upage k) \<and> PTX v = PTX (upage k) then 0 else pte_of (pmem s) T v)" for v
    using st(2) [of v] pu by (simp add: t_def)
  have "gspace t (p # ps) d T (U(k := None)) data"
    unfolding gspace_def
  proof (intro conjI allI impI)
    show "pgd_inv t (p # ps) d T" unfolding t_def by (rule st(1))
    show "KERNBASE < kend t" using assms(1) vframe_simps(1) [OF u(3)] by (simp add: gspace_def t_def)
    show "pte_of (pmem t) T (upage j) = (case (U(k := None)) j of None \<Rightarrow> 0 | Some (p, f) \<Rightarrow> v2p p OR f)"
      if "j < 524288" for j
      using that assms(1) k(1) upage_same [OF that k(1)] unfolding pt gspace_def by auto
    show "dom (U(k := None)) \<subseteq> {..<524288}" using assms(1) by (auto simp: gspace_def)
    show "pte_of (pmem t) T v = kernel_pte data v" if "KERNBASE \<le> v" for v
      using that assms(1) kern_not_upage [OF that k(1)] unfolding pt gspace_def by auto
    fix j r g
    assume j: "(U(k := None)) j = Some (r, g)"
    then have j': "U j = Some (r, g)" "j \<noteq> k" by (auto split: if_splits)
    have "r \<noteq> p" using j' assms unfolding gspace_def by blast
    then show "page_ok t r" "r \<notin> set (p # ps)" "r \<noteq> d" "r \<notin> ran T" "g AND NOT 0xFFF = 0" "g AND 1 \<noteq> 0"
      using j'(1) assms(1) ok unfolding gspace_def t_def by auto
  next
    fix i j r f g
    assume "(U(k := None)) i = Some (r, f)" "(U(k := None)) j = Some (r, g)"
    then show "i = j" using assms(1) unfolding gspace_def by (auto split: if_splits)
  qed
  moreover have "same_page (pmem s) (pmem t) r" if "page_ok s r" "r \<noteq> p" "r \<notin> ran T" for r
  proof -
    have "r \<noteq> q" using that(3) q by (auto simp: ran_def)
    then have "same_page (pmem u) (pmem t) r" using st(3) that(1) ok by (simp add: t_def)
    then show ?thesis using same [OF that(1,2)] same_page_trans by blast
  qed
  moreover have "\<exists>v. kfree p s = Ok () v \<and> store32 (q + 4 * PTX (upage k)) 0 v = Ok () t"
    using u(1) by (simp add: store32_def t_def)
  moreover have "vframe s t" using u(3) by (simp add: t_def)
  ultimately show ?thesis
    using w pte by (intro exI [of _ t] exI [of _ "q + 4 * PTX (upage k)"]) auto
qed

text \<open>The pages \<open>deallocuvm\<close> frees, in the order in which they then are on the free list.\<close>

definition freed :: "(nat \<rightharpoonup> u32 \<times> u32) \<Rightarrow> nat \<Rightarrow> nat \<Rightarrow> u32 list" where
  "freed U k n = rev (map fst (List.map_filter U [k..<n]))"

lemma freed_step:
  assumes "k < n"
  shows "freed U k n = freed U (Suc k) n @ (case U k of None \<Rightarrow> [] | Some (p, f) \<Rightarrow> [p])"
  using upt_conv_Cons [OF assms] by (simp add: freed_def List.map_filter_simps split: option.split prod.split)

lemma freed_cong: "(\<And>i. k \<le> i \<Longrightarrow> i < n \<Longrightarrow> U i = V i) \<Longrightarrow> freed U k n = freed V k n"
proof -
  assume eq: "\<And>i. k \<le> i \<Longrightarrow> i < n \<Longrightarrow> U i = V i"
  have "filter (\<lambda>i. U i \<noteq> None) [k..<n] = filter (\<lambda>i. V i \<noteq> None) [k..<n]"
    by (rule filter_cong) (auto simp: eq)
  then show ?thesis unfolding freed_def List.map_filter_def by (auto simp: eq)
qed

lemma dealloc_idle:
  assumes "gspace s ps d T U data" "oldsz \<le> KERNBASE" "k \<le> 525312" "npages oldsz - k < fuel"
    "\<And>j. k \<le> j \<Longrightarrow> U j = None"
  shows "deallocuvm_loop fuel d (upage k) oldsz s = Ok () s"
  using assms(3-5)
proof (induction fuel arbitrary: k)
  case 0
  then show ?case by simp
next
  case (Suc fuel)
  have np: "npages oldsz \<le> 524288" using assms(2) by (simp add: npages_def word_le_nat_alt)
  have inv: "pgd_inv s ps d T" using assms(1) by (simp add: gspace_def)
  show ?case
  proof (cases "k < npages oldsz")
    case False
    then show ?thesis using upage_less [of k oldsz] Suc.prems(1) by (simp add: deallocuvm_loop.simps(2))
  next
    case True
    then have lt: "upage k < oldsz" "k < 524288" using upage_less [of k oldsz] np by auto
    have pte: "pte_of (pmem s) T (upage k) = 0"
      using assms(1) lt(2) Suc.prems(3) [of k] by (simp add: gspace_def)
    have jump: "upage k + (NPTENTRIES - 1) * PGSIZE + PGSIZE = upage (k + 1024)"
      by (simp add: upage_def algebra_simps)
    show ?thesis
    proof (cases "T (PDX (upage k))")
      case None
      then have "deallocuvm_loop (Suc fuel) d (upage k) oldsz s = deallocuvm_loop fuel d (upage (k + 1024)) oldsz s"
        using walk_none [OF inv] lt(1) jump by (simp add: deallocuvm_loop.simps(2))
      then show ?thesis using Suc.IH [of "k + 1024"] Suc.prems True np by simp
    next
      case (Some q)
      then have "deallocuvm_loop (Suc fuel) d (upage k) oldsz s = deallocuvm_loop fuel d (upage (Suc k)) oldsz s"
        using walk_some [OF inv Some] lt(1) pte by (simp add: deallocuvm_loop.simps(2) load32_def upage_Suc)
      then show ?thesis using Suc.IH [of "Suc k"] Suc.prems True np by simp
    qed
  qed
qed

lemma deallocuvm_loop_ok:
  assumes "gspace s ps d T U data" "oldsz \<le> KERNBASE" "k \<le> 524288" "npages oldsz - k < fuel"
    "\<And>i j. k \<le> i \<Longrightarrow> i \<le> j \<Longrightarrow> U j \<noteq> None \<Longrightarrow> U i \<noteq> None"
  shows "\<exists>t. deallocuvm_loop fuel d (upage k) oldsz s = Ok () t
    \<and> gspace t (freed U k (npages oldsz) @ ps) d T (U |` (- {k..<npages oldsz})) data \<and> vframe s t
    \<and> (\<forall>q. page_ok s q \<longrightarrow> q \<notin> ran T \<longrightarrow> q \<notin> set (freed U k (npages oldsz)) \<longrightarrow> same_page (pmem s) (pmem t) q)"
  using assms
proof (induction fuel arbitrary: s ps U k)
  case 0
  then show ?case by simp
next
  case (Suc fuel)
  have np: "npages oldsz \<le> 524288" using Suc.prems(2) by (simp add: npages_def word_le_nat_alt)
  show ?case
  proof (cases "k < npages oldsz")
    case False
    then have "\<not> upage k < oldsz" using upage_less [of k oldsz] Suc.prems(3) by simp
    moreover have "U |` (- {k..<npages oldsz}) = U" "freed U k (npages oldsz) = []"
      using False by (auto simp: freed_def restrict_map_def List.map_filter_simps)
    ultimately show ?thesis using Suc.prems(1) by (auto simp: deallocuvm_loop.simps(2))
  next
    case True
    have inv: "pgd_inv s ps d T" using Suc.prems(1) by (simp add: gspace_def)
    have lt: "upage k < oldsz" "k < 524288" using upage_less [of k oldsz] True np by auto
    show ?thesis
    proof (cases "U k")
      case None
      then have no: "U j = None" if "k \<le> j" for j using Suc.prems(5) [of k j] that by blast
      have "U |` (- {k..<npages oldsz}) = U" using no by (auto simp: restrict_map_def)
      moreover have "freed U k (npages oldsz) = []"
        using no by (auto simp: freed_def List.map_filter_def filter_empty_conv)
      ultimately show ?thesis
        using dealloc_idle [OF Suc.prems(1,2) _ Suc.prems(4) no] Suc.prems(1,3) by simp
    next
      case (Some pf)
      then obtain p f where pf: "U k = Some (p, f)" by (cases pf) auto
      obtain u a where u: "walkpgdir d (upage k) False s = Ok a s" "a \<noteq> 0" "mload32 (pmem s) a = v2p p OR f"
        "\<exists>v. kfree p s = Ok () v \<and> store32 a 0 v = Ok () u" "gspace u (p # ps) d T (U(k := None)) data" "vframe s u"
        and same: "\<forall>q. page_ok s q \<longrightarrow> q \<noteq> p \<longrightarrow> q \<notin> ran T \<longrightarrow> same_page (pmem s) (pmem u) q"
        using dealloc_step [OF Suc.prems(1) pf] by blast
      have p: "page_ok s p" "f AND NOT 0xFFF = 0" "f AND 1 \<noteq> 0" "KERNBASE < kend s"
        using Suc.prems(1) pf unfolding gspace_def by blast+
      define U1 where "U1 = U(k := None)"
      note u = u [folded U1_def]
      have run: "deallocuvm_loop (Suc fuel) d (upage k) oldsz s = deallocuvm_loop fuel d (upage (Suc k)) oldsz u"
        using u(1-4) lt(1) pte_parts [OF p(1-3)] v2p_nz [OF p(1,4)]
        by (auto simp: deallocuvm_loop.simps(2) load32_def upage_Suc)
      have fr: "freed U k (npages oldsz) = freed U1 (Suc k) (npages oldsz) @ [p]"
        using freed_step [OF True, of U] freed_cong [of "Suc k" _ U1 U] pf by (simp add: U1_def)
      have rs: "U1 |` (- {Suc k..<npages oldsz}) = U |` (- {k..<npages oldsz})"
        using True by (auto simp: restrict_map_def U1_def)
      have b: "Suc k \<le> 524288" "npages oldsz - Suc k < fuel" using Suc.prems(4) lt(2) True by auto
      have "U1 i \<noteq> None" if "Suc k \<le> i" "i \<le> j" "U1 j \<noteq> None" for i j
        using that Suc.prems(5) [of i j] by (auto simp: U1_def split: if_splits)
      then obtain t where "deallocuvm_loop fuel d (upage (Suc k)) oldsz u = Ok () t"
        "gspace t (freed U1 (Suc k) (npages oldsz) @ p # ps) d T (U |` (- {k..<npages oldsz})) data" "vframe u t"
        "\<forall>q. page_ok u q \<longrightarrow> q \<notin> ran T \<longrightarrow> q \<notin> set (freed U1 (Suc k) (npages oldsz)) \<longrightarrow> same_page (pmem u) (pmem t) q"
        using Suc.IH [OF u(5) Suc.prems(2) b] unfolding rs by blast
      then show ?thesis
        using run u(6) same vframe_simps(2) [OF u(6)] unfolding fr
        by (auto intro: vframe_trans same_page_trans)
    qed
  qed
qed

lemma map_nth_upt: "map ((!) xs) [k..<length xs] = drop k xs"
  by (rule nth_equalityI) auto

lemma freed_umap:
  assumes "length us \<le> n"
  shows "freed (umap us) k n = rev (map fst (drop k us))"
proof -
  have "List.map_filter (umap us) [k..<n] = drop k us"
  proof (cases "k \<le> length us")
    case True
    then have "[k..<n] = [k..<length us] @ [length us..<n]" using upt_add_eq_append [OF True, of "n - length us"] assms by simp
    moreover have "List.map_filter (umap us) [k..<length us] = map ((!) us) [k..<length us]"
      by (auto simp: List.map_filter_def umap_def)
    moreover have "List.map_filter (umap us) [length us..<n] = []"
      by (auto simp: List.map_filter_def umap_def filter_empty_conv)
    moreover have "List.map_filter f (xs @ ys) = List.map_filter f xs @ List.map_filter f ys" for f :: "nat \<Rightarrow> (u32 \<times> u32) option" and xs ys
      by (simp add: List.map_filter_def)
    ultimately show ?thesis by (simp add: map_nth_upt)
  next
    case False
    then show ?thesis by (auto simp: List.map_filter_def umap_def filter_empty_conv)
  qed
  then show ?thesis by (simp add: freed_def)
qed

lemma umap_contiguous: "k \<le> i \<Longrightarrow> i \<le> j \<Longrightarrow> umap us j \<noteq> None \<Longrightarrow> umap us i \<noteq> None"
  by (auto simp: umap_def split: if_splits)

lemma deallocuvm_run:
  assumes "uspace s ps d T us data" "oldsz \<le> KERNBASE" "newsz < oldsz" "length us \<le> npages oldsz"
  shows "\<exists>t. deallocuvm d oldsz newsz s = Ok newsz t
    \<and> uspace t (rev (map fst (drop (npages newsz) us)) @ ps) d T (take (npages newsz) us) data \<and> vframe s t
    \<and> (\<forall>q. page_ok s q \<longrightarrow> q \<notin> ran T \<longrightarrow> q \<notin> fst ` set (drop (npages newsz) us) \<longrightarrow> same_page (pmem s) (pmem t) q)"
proof -
  have new: "newsz < KERNBASE" using assms(2,3) by (rule less_le_trans [rotated])
  have np: "npages newsz \<le> 524288" "npages oldsz \<le> 524288"
    using npages_user [OF new] assms(2) by (simp_all add: npages_def word_le_nat_alt)
  have fuel: "npages oldsz - npages newsz < page_fuel" using np by (intro page_fuel_enough) simp
  have fr: "freed (umap us) (npages newsz) (npages oldsz) = rev (map fst (drop (npages newsz) us))"
    using assms(4) by (rule freed_umap)
  have um: "umap us |` (- {npages newsz..<npages oldsz}) = umap (take (npages newsz) us)"
    using assms(4) by (auto simp: umap_def restrict_map_def)
  have "\<exists>t. deallocuvm_loop page_fuel d (upage (npages newsz)) oldsz s = Ok () t
    \<and> gspace t (freed (umap us) (npages newsz) (npages oldsz) @ ps) d T (umap us |` (- {npages newsz..<npages oldsz})) data
    \<and> vframe s t \<and> (\<forall>q. page_ok s q \<longrightarrow> q \<notin> ran T \<longrightarrow> q \<notin> set (freed (umap us) (npages newsz) (npages oldsz))
        \<longrightarrow> same_page (pmem s) (pmem t) q)"
    using assms(1) by (intro deallocuvm_loop_ok [OF _ assms(2) np(1) fuel])
      (simp add: uspace_gspace, rule umap_contiguous)
  then obtain t where t: "deallocuvm_loop page_fuel d (upage (npages newsz)) oldsz s = Ok () t"
    "gspace t (rev (map fst (drop (npages newsz) us)) @ ps) d T (umap (take (npages newsz) us)) data" "vframe s t"
    "\<forall>q. page_ok s q \<longrightarrow> q \<notin> ran T \<longrightarrow> q \<notin> set (rev (map fst (drop (npages newsz) us))) \<longrightarrow> same_page (pmem s) (pmem t) q"
    unfolding fr um by blast
  have "deallocuvm d oldsz newsz s = Ok newsz t"
  proof -
    have "\<not> oldsz \<le> newsz" using assms(3) by (simp only: not_le)
    then show ?thesis using t(1) PGROUNDUP_upage [OF new] by (simp add: deallocuvm_def)
  qed
  with t show ?thesis by (auto simp: uspace_gspace)
qed

text \<open>C24: \<open>deallocuvm\<close> shrinks an address space: it returns the new size, unmaps exactly the pages
  above it and puts them back on the free list; the remaining pages keep their place and
  content. When the size does not shrink nothing happens.\<close>

theorem deallocuvm_shrinks:
  assumes "uspace s ps d T us data" "oldsz \<le> KERNBASE" "length us \<le> npages oldsz"
  shows "if oldsz \<le> newsz then deallocuvm d oldsz newsz s = Ok oldsz s
    else \<exists>t. deallocuvm d oldsz newsz s = Ok newsz t
      \<and> uspace t (rev (map fst (drop (npages newsz) us)) @ ps) d T (take (npages newsz) us) data
      \<and> (\<forall>(p, f) \<in> set (take (npages newsz) us). same_page (pmem s) (pmem t) p)"
proof (cases "oldsz \<le> newsz")
  case True
  then show ?thesis by (simp add: deallocuvm_def)
next
  case False
  then have lt: "newsz < oldsz" by simp
  obtain t where t: "deallocuvm d oldsz newsz s = Ok newsz t"
    "uspace t (rev (map fst (drop (npages newsz) us)) @ ps) d T (take (npages newsz) us) data"
    "\<forall>q. page_ok s q \<longrightarrow> q \<notin> ran T \<longrightarrow> q \<notin> fst ` set (drop (npages newsz) us) \<longrightarrow> same_page (pmem s) (pmem t) q"
    using deallocuvm_run [OF assms(1,2) lt assms(3)] by blast
  have "same_page (pmem s) (pmem t) p" if "(p, f) \<in> set (take (npages newsz) us)" for p f
  proof -
    have "(p, f) \<in> set us" using that by (meson in_set_takeD)
    then have "page_ok s p" "p \<notin> ran T" using assms(1) by (auto simp: uspace_def own_ok_def)
    moreover have "p \<notin> fst ` set (drop (npages newsz) us)"
      using t(2) that by (auto simp: uspace_def own_ok_def)
    ultimately show ?thesis using t(3) by blast
  qed
  then show ?thesis using t(1,2) False by auto
qed

section \<open>Freeing\<close>

lemma freevm_tables:
  assumes "pgd_inv s ps d T"
  shows "runs (foreach [0..<NPDENTRIES] (freevm_one d)) s (\<lambda>_ t. vframe s t
    \<and> (\<exists>qs. kmem_quiet t qs \<and> set qs = set ps \<union> ran T)
    \<and> (\<forall>q. page_ok s q \<longrightarrow> q \<notin> ran T \<longrightarrow> same_page (pmem s) (pmem t) q))"
proof -
  have tab: "tabs_ok s ps d T" and dir: "dir_maps (pmem s) d T" and km: "kmem_quiet s ps"
    using assms by (auto simp: pgd_inv_def)
  define I where "I ys t \<longleftrightarrow> vframe s t
    \<and> (\<exists>qs. kmem_quiet t qs \<and> set qs = set ps \<union> {p. \<exists>i \<in> set ys. T (of_nat i) = Some p})
    \<and> (\<forall>q. page_ok s q \<longrightarrow> q \<notin> ran T \<longrightarrow> same_page (pmem s) (pmem t) q)" for ys :: "nat list" and t
  have "runs (foreach [0..<NPDENTRIES] (freevm_one d)) s (\<lambda>_ t. I [0..<NPDENTRIES] t)"
  proof (rule runs_foreach)
    show "I [] s" using km by (auto simp: I_def)
    fix ys x zs u
    assume xs: "[0..<NPDENTRIES] = ys @ x # zs" and I: "I ys u"
    have "set (ys @ x # zs) = {0..<1024}" "distinct (ys @ x # zs)" unfolding xs [symmetric] by simp_all
    then have x: "x < 1024" "x \<notin> set ys" and ys: "\<And>i. i \<in> set ys \<Longrightarrow> i < 1024" by auto
    obtain qs where u: "vframe s u" "kmem_quiet u qs"
      "set qs = set ps \<union> {p. \<exists>i \<in> set ys. T (of_nat i) = Some p}"
      and same: "\<And>q. page_ok s q \<Longrightarrow> q \<notin> ran T \<Longrightarrow> same_page (pmem s) (pmem u) q"
      using I by (auto simp: I_def)
    have ok: "page_ok u = page_ok s" using u(1) by (rule vframe_simps)
    have wx: "(of_nat x :: u32) < 1024" using x(1) by (simp add: word_less_nat_alt)
    have "d \<notin> ran T" using tabs_okD(5) [OF tab] by (auto simp: ran_def)
    then have sl: "mload32 (pmem u) (d + 4 * of_nat x) = slot (pmem s) d (of_nat x)"
      using same_page_slot [OF same [OF tabs_okD(1) [OF tab]] wx] by (simp add: slot_def)
    show "runs (freevm_one d x) u (\<lambda>_ v. I (ys @ [x]) v)"
    proof (cases "T (of_nat x)")
      case None
      then have "set qs = set ps \<union> {p. \<exists>i \<in> set (ys @ [x]). T (of_nat i) = Some p}" using u(3) by auto
      then have "I (ys @ [x]) u" using u same by (auto simp: I_def)
      then show ?thesis
        using dir_mapsD(1) [OF dir wx None] sl by (simp add: freevm_one_def load32_def)
    next
      case (Some p)
      have "T (of_nat i) \<noteq> Some p" if "i \<in> set ys" for i
      proof
        assume "T (of_nat i) = Some p"
        then have "of_nat i = (of_nat x :: u32)" by (rule tabs_okD(7) [OF tab _ Some])
        then have "unat (of_nat i :: u32) = unat (of_nat x :: u32)" by simp
        then have "i = x" using ys [OF that] x(1) by simp
        then show False using that x(2) by simp
      qed
      then have "p \<notin> set qs" using u(3) tabs_okD(6) [OF tab Some] by auto
      moreover have pk: "page_ok u p" using tabs_okD(4) [OF tab Some] ok by simp
      ultimately obtain v where v: "kfree p u = Ok () v" "kmem_quiet v (p # qs)" "vframe u v"
        "\<And>q. page_ok u q \<Longrightarrow> q \<noteq> p \<Longrightarrow> same_page (pmem u) (pmem v) q"
        using kfree_push [OF u(2)] by metis
      have "set (p # qs) = set ps \<union> {p. \<exists>i \<in> set (ys @ [x]). T (of_nat i) = Some p}" using u(3) Some by auto
      moreover have "same_page (pmem s) (pmem v) q" if "page_ok s q" "q \<notin> ran T" for q
      proof -
        have "q \<noteq> p" using that(2) Some by (auto simp: ran_def)
        then show ?thesis using same [OF that] v(4) [of q] that(1) ok same_page_trans by auto
      qed
      ultimately have "I (ys @ [x]) v"
        using v(2) vframe_trans [OF u(1) v(3)] unfolding I_def by blast
      then show ?thesis
        using dir_mapsD(2) [OF dir wx Some] sl v(1)
        by (simp add: freevm_one_def load32_def runs_whenk runs_Ok [of "kfree p" u "()" v])
    qed
  qed
  moreover have "{p. \<exists>i \<in> set [0..<NPDENTRIES]. T (of_nat i) = Some p} = ran T"
  proof
    show "ran T \<subseteq> {p. \<exists>i \<in> set [0..<NPDENTRIES]. T (of_nat i) = Some p}"
    proof
      fix p assume "p \<in> ran T"
      then obtain i where i: "T i = Some p" by (auto simp: ran_def)
      then have "unat i < 1024" using tabs_okD(3) [OF tab i] by (simp add: word_less_nat_alt)
      moreover have "T (of_nat (unat i)) = Some p" using i by simp
      ultimately show "p \<in> {p. \<exists>i \<in> set [0..<NPDENTRIES]. T (of_nat i) = Some p}"
        unfolding set_upt NPDENTRIES_def by (metis (mono_tags) atLeastLessThan_iff mem_Collect_eq zero_le)
    qed
  qed (auto simp: ran_def)
  ultimately show ?thesis unfolding I_def by (simp only:)
qed

lemma freevm_run:
  assumes "uspace s ps d T us data"
  shows "\<exists>t qs. freevm d s = Ok () t \<and> kmem_quiet t qs \<and> set qs = set ps \<union> as_pages d T us \<and> vframe s t
    \<and> (\<forall>q. page_ok s q \<longrightarrow> q \<notin> as_pages d T us \<longrightarrow> same_page (pmem s) (pmem t) q)"
proof -
  have tab: "tabs_ok s ps d T" using assms by (simp add: uspace_def pgd_inv_def)
  have d: "page_ok s d" "d \<notin> set ps" "d \<notin> ran T" "d \<noteq> 0"
    using tabs_okD(1,2) [OF tab] tabs_okD(5) [OF tab] page_ok_nz [of s d] by (auto simp: ran_def)
  have np: "npages KERNBASE = 524288" "npages 0 = 0" by (simp_all add: npages_def)
  have len: "length us \<le> npages KERNBASE" using assms np by (simp add: uspace_def)
  obtain u where u: "deallocuvm d KERNBASE 0 s = Ok 0 u" "uspace u (rev (map fst us) @ ps) d T [] data" "vframe s u"
    "\<And>q. page_ok s q \<Longrightarrow> q \<notin> ran T \<Longrightarrow> q \<notin> fst ` set us \<Longrightarrow> same_page (pmem s) (pmem u) q"
    using deallocuvm_run [OF assms _ _ len, of 0] np(2) by auto
  have inv: "pgd_inv u (rev (map fst us) @ ps) d T" using u(2) by (simp add: uspace_def)
  have ok: "page_ok u = page_ok s" using u(3) by (rule vframe_simps)
  obtain v qs where v: "foreach [0..<NPDENTRIES] (freevm_one d) u = Ok () v" "vframe u v" "kmem_quiet v qs"
    "set qs = set (rev (map fst us) @ ps) \<union> ran T"
    "\<And>q. page_ok u q \<Longrightarrow> q \<notin> ran T \<Longrightarrow> same_page (pmem u) (pmem v) q"
    using freevm_tables [OF inv] by (auto simp: runs_def)
  have okv: "page_ok v = page_ok s" using vframe_simps(2) [OF v(2)] ok by simp
  have "d \<notin> set qs" using v(4) d(2,3) inv by (auto simp: pgd_inv_def tabs_ok_def)
  then obtain w where w: "kfree d v = Ok () w" "kmem_quiet w (d # qs)" "vframe v w"
    "\<And>q. page_ok v q \<Longrightarrow> q \<noteq> d \<Longrightarrow> same_page (pmem v) (pmem w) q"
    using kfree_push [OF v(3)] d(1) okv by metis
  have "same_page (pmem s) (pmem w) q" if "page_ok s q" "q \<notin> as_pages d T us" for q
    using that u(4) [of q] v(5) [of q] w(4) [of q] ok okv
    by (auto simp: as_pages_def intro: same_page_trans)
  moreover have "freevm d s = Ok () w"
    using u(1) v(1) w(1) d(4) by (simp add: freevm_def del: NPDENTRIES_def KERNBASE_def)
  moreover have "set (d # qs) = set ps \<union> as_pages d T us" using v(4) by (auto simp: as_pages_def)
  ultimately show ?thesis
    using w(2) vframe_trans [OF vframe_trans [OF u(3) v(2)] w(3)] by blast
qed

text \<open>C25: \<open>freevm\<close> returns to the free list every page of an address space, its user pages, page
  tables and directory, each exactly once, and changes no other page in use.\<close>

theorem freevm_frees_all:
  assumes "uspace s ps d T us data"
  shows "\<exists>t qs. freevm d s = Ok () t \<and> kmem_quiet t qs \<and> set qs = set ps \<union> as_pages d T us
    \<and> length qs = length ps + 1 + card (ran T) + length us
    \<and> (\<forall>q. page_ok s q \<longrightarrow> q \<notin> as_pages d T us \<longrightarrow> same_page (pmem s) (pmem t) q)"
proof -
  obtain t qs where t: "freevm d s = Ok () t" "kmem_quiet t qs" "set qs = set ps \<union> as_pages d T us"
    "\<forall>q. page_ok s q \<longrightarrow> q \<notin> as_pages d T us \<longrightarrow> same_page (pmem s) (pmem t) q"
    using freevm_run [OF assms] by blast
  have dist: "distinct qs" "distinct ps"
    using t(2) assms by (auto simp: kmem_quiet_def kmem_inv_def uspace_def pgd_inv_def)
  have us: "card (fst ` set us) = length us"
    using assms distinct_card [of "map fst us"] by (simp add: uspace_def own_ok_def)
  have "d \<notin> ran T" "d \<notin> fst ` set us" "ran T \<inter> fst ` set us = {}"
    using assms tabs_okD(5) [of s ps d T] by (auto simp: uspace_def own_ok_def pgd_inv_def ran_def)
  then have "card (as_pages d T us) = 1 + card (ran T) + length us"
    using us by (simp add: as_pages_def card_Un_disjoint)
  moreover have "set ps \<inter> as_pages d T us = {}" using as_pages_ok(2) [OF assms] by blast
  ultimately have "card (set qs) = length ps + (1 + card (ran T) + length us)"
    using t(3) dist(2) by (simp add: card_Un_disjoint distinct_card)
  then have "length qs = length ps + 1 + card (ran T) + length us"
    using dist(1) by (simp add: distinct_card)
  with t show ?thesis by blast
qed

section \<open>Copying\<close>

definition page_eq :: "mem \<Rightarrow> u32 \<Rightarrow> mem \<Rightarrow> u32 \<Rightarrow> bool" where
  "page_eq m p m' q \<longleftrightarrow> (\<forall>i < 4096. m (p + of_nat i) = m' (q + of_nat i))"

lemma page_top: "page_ok s p \<Longrightarrow> KERNBASE < kend s \<Longrightarrow> unat p + 4096 < 4294967296"
proof -
  assume p: "page_ok s p" "KERNBASE < kend s"
  then have "KERNBASE \<le> p" by (auto simp: page_ok_def)
  then have "unat (v2p p) = unat p - unat KERNBASE" unfolding v2p_def by (rule unat_sub)
  moreover have "unat (v2p p) < unat PHYSTOP" using p(1) by (simp add: page_ok_def word_less_nat_alt)
  ultimately show ?thesis by simp
qed

lemma copy_page:
  assumes "kmem_quiet s ps" "page_ok s p" "page_ok s g" "KERNBASE < kend s" "p \<notin> set ps"
  obtains t where "kmemmove p g PGSIZE s = Ok () t" "vframe s t" "kmem_quiet t ps" "page_eq (pmem t) p (pmem s) g"
    "\<And>q. page_ok s q \<Longrightarrow> q \<noteq> p \<Longrightarrow> same_page (pmem s) (pmem t) q"
proof -
  define m where "m = (\<lambda>x. if unat (x - p) < 4096 then pmem s (g + (x - p)) else pmem s x)"
  have mv: "memmove (pmem s) p g PGSIZE = m"
    using page_top [OF assms(2,4)] page_top [OF assms(3,4)] by (simp add: memmove_spec m_def)
  have same: "same_page (pmem s) m q" if "page_ok s q" "q \<noteq> p" for q
  proof -
    have "\<not> unat (q + of_nat i - p) < 4096" if "i < 4096" for i
      using page_apart [OF page_ok_mod [OF \<open>page_ok s q\<close>] page_ok_mod [OF assms(2)] \<open>q \<noteq> p\<close> that] by simp
    then show ?thesis by (simp add: same_page_def m_def)
  qed
  have "kmem_quiet (s\<lparr>pmem := m\<rparr>) ps"
    using assms(1,5) by (intro kmem_quiet_pmem same) (auto simp: kmem_quiet_def kmem_inv_def)
  moreover have "page_eq m p (pmem s) g" by (simp add: page_eq_def m_def)
  ultimately show thesis
    using same mv by (intro that [of "s\<lparr>pmem := m\<rparr>"]) (simp_all add: kmemmove_def)
qed

lemma flag_one: "f AND 1 \<noteq> 0 \<Longrightarrow> f OR 1 = f" for f :: u32
  by (simp add: or_one_eq and_one_eq even_iff_mod_2_eq_zero)

lemma page_eq_same:
  "page_eq m p m' q \<Longrightarrow> same_page m n p \<Longrightarrow> same_page m' n' q \<Longrightarrow> page_eq n p n' q"
  by (simp add: page_eq_def same_page_def)

lemma as_pages_append: "as_pages d T (us @ [(p, f)]) = insert p (as_pages d T us)"
  by (auto simp: as_pages_def)

text \<open>One round of the loop of \<open>copyuvm\<close>: the page \<open>g\<close> of the parent, the fresh page \<open>p\<close>.\<close>

lemma copy_round:
  assumes "uspace s (p # ps) d T us data" "uspace s (p # ps) d' T' vs data"
    "as_pages d T us \<inter> as_pages d' T' vs = {}" "length vs < length us" "us ! length vs = (g, f)"
    "ps \<noteq> [] \<or> T' (PDX (upage (length vs))) \<noteq> None"
  shows "\<exists>a u v t ps' T''. walkpgdir d (upage (length vs)) False s = Ok a s \<and> a \<noteq> 0
    \<and> mload32 (pmem s) a = v2p g OR f \<and> kalloc s = Ok p u \<and> p \<noteq> 0 \<and> kmemmove p g PGSIZE u = Ok () v
    \<and> mappages d' (upage (length vs)) PGSIZE (v2p p) f v = Ok 0 t
    \<and> uspace t ps' d T us data \<and> uspace t ps' d' T'' (vs @ [(p, f)]) data
    \<and> as_pages d T us \<inter> as_pages d' T'' (vs @ [(p, f)]) = {}
    \<and> page_eq (pmem t) p (pmem s) g \<and> vframe s t
    \<and> (\<exists>qs. ps = qs @ ps' \<and> ran T'' = ran T' \<union> set qs)
    \<and> (\<forall>q. page_ok s q \<longrightarrow> q \<notin> set (p # ps) \<longrightarrow> q \<noteq> d' \<longrightarrow> q \<notin> ran T' \<longrightarrow> same_page (pmem s) (pmem t) q)
    \<and> length ps + card (dom T') = length ps' + card (dom T'')
    \<and> dom T'' = insert (PDX (upage (length vs))) (dom T')"
proof -
  let ?a = "upage (length vs)"
  note as = as_pages_ok [OF assms(1)] and as' = as_pages_ok [OF assms(2)]
  have len: "length vs < 524288" using assms(1,4) by (simp add: uspace_def)
  have k: "kmem_quiet s (p # ps)" and kb: "KERNBASE < kend s" and inv: "pgd_inv s (p # ps) d T"
    using assms(1) by (simp_all add: uspace_def pgd_inv_def)
  have "(g, f) \<in> set us" using assms(4,5) by (metis nth_mem)
  moreover from this have "g \<in> fst ` set us" by (rule rev_image_eqI) simp
  ultimately have g: "page_ok s g" "g \<in> as_pages d T us" "f AND NOT 0xFFF = 0" "f AND 1 \<noteq> 0"
    using assms(1) by (auto simp: uspace_def own_ok_def as_pages_def)
  have pte: "pte_of (pmem s) T ?a = v2p g OR f"
    using assms(1,4,5) len by (simp add: uspace_def user_ptes_def)
  then obtain q where q: "T (PDX ?a) = Some q"
    using pte_parts(1) [OF g(1,3,4)] by (auto simp: pte_of_def split: option.splits)
  note w = walk_some [OF inv q]
  obtain fl where u: "kalloc s = Ok p (s\<lparr>freelist := fl\<rparr>)" "kmem_quiet (s\<lparr>freelist := fl\<rparr>) ps"
    "page_ok s p" "p \<noteq> 0" "p \<notin> set ps" using k by (rule kalloc_pop)
  obtain v where v: "kmemmove p g PGSIZE (s\<lparr>freelist := fl\<rparr>) = Ok () v" "vframe s v" "kmem_quiet v ps"
    "page_eq (pmem v) p (pmem s) g" and sv: "\<And>q. page_ok s q \<Longrightarrow> q \<noteq> p \<Longrightarrow> same_page (pmem s) (pmem v) q"
    using copy_page [OF u(2), of p g] u(3,5) g(1) kb by (auto simp: vframe_def)
  have ok: "page_ok v = page_ok s" using v(2) by (rule vframe_simps)
  have pas: "p \<notin> as_pages d T us" "p \<notin> as_pages d' T' vs" using as(2) as'(2) by auto
  have us: "uspace v ps d T us data" "uspace v ps d' T' vs data"
    using as as' sv pas by (auto intro!: uspace_frame [OF _ v(2,3)] assms(1,2))
  obtain t ps' T'' where t: "mappages d' ?a PGSIZE (v2p p) f v = Ok 0 t" "grown v ps d' T' t ps' T''"
    "length ps + card (dom T') = length ps' + card (dom T'')" "dom T'' \<subseteq> insert (PDX ?a) (dom T')" "PDX ?a \<in> dom T''"
    "uspace t ps' d' T'' (vs @ [(p, f OR 1)]) data"
    using map_upage [OF us(2) len assms(6), of p f] u(3,5) pas(2) g(3) ok by auto
  note gr = grownD [OF t(2)] and f1 = flag_one [OF g(4)]
  obtain qs where qs: "ps = qs @ ps'" "ran T'' = ran T' \<union> set qs" using gr(5) by blast
  have kt: "kmem_quiet t ps'" using gr(2) by (simp add: pgd_inv_def)
  have par: "x \<notin> set ps' \<and> x \<noteq> d' \<and> x \<notin> ran T'' \<and> page_ok v x \<and> x \<notin> set qs" if "x \<in> as_pages d T us" for x
    using as [OF that] that assms(3) qs ok by (auto simp: as_pages_def)
  have "uspace t ps' d T us data"
    using par gr(4) by (intro uspace_frame [OF us(1) gr(1) kt]) blast
  moreover have "as_pages d T us \<inter> as_pages d' T'' (vs @ [(p, f)]) = {}"
    using par pas(1) assms(3) unfolding as_pages_append by (auto simp: as_pages_def)
  moreover have "page_eq (pmem t) p (pmem s) g"
  proof -
    have "p \<noteq> d'" "p \<notin> ran T''" using pas(2) qs u(5) by (auto simp: as_pages_def)
    then have "same_page (pmem v) (pmem t) p" using gr(4) u(3) ok by simp
    then show ?thesis using v(4) by (simp add: page_eq_def same_page_def)
  qed
  moreover have "same_page (pmem s) (pmem t) x"
    if "page_ok s x" "x \<notin> set (p # ps)" "x \<noteq> d'" "x \<notin> ran T'" for x
    using that sv [of x] gr(4) [of x] ok qs same_page_trans by auto
  moreover have "dom T'' = insert (PDX ?a) (dom T')"
    using t(4,5) map_le_implies_dom_le [OF gr(3)] by blast
  moreover have "vframe s t" using v(2) gr(1) by (rule vframe_trans)
  ultimately show ?thesis
    using w pte u(1,4) v(1) t(1,3,6) f1 qs
    by (intro exI [of _ "q + 4 * PTX ?a"] exI [of _ "s\<lparr>freelist := fl\<rparr>"] exI [of _ v] exI [of _ t]
        exI [of _ ps'] exI [of _ T'']) (simp del: PGSIZE_def)
qed

text \<open>The child's pages \<open>vs\<close> are copies of the first pages of the parent.\<close>

definition copies :: "mem \<Rightarrow> (u32 \<times> u32) list \<Rightarrow> (u32 \<times> u32) list \<Rightarrow> bool" where
  "copies m vs us \<longleftrightarrow> length vs \<le> length us
     \<and> (\<forall>k < length vs. snd (vs ! k) = snd (us ! k) \<and> page_eq m (fst (vs ! k)) m (fst (us ! k)))"

lemma user_dir: "k < 524288 \<Longrightarrow> PDX (upage k) < 512"
  by (simp add: word_less_nat_alt unat_PDX div_less_iff_less_mult)

lemma copyuvm_loop_ok:
  assumes "uspace s ps d T us data" "uspace s ps d' T' vs data" "as_pages d T us \<inter> as_pages d' T' vs = {}"
    "copies (pmem s) vs us" "npages sz = length us" "length us - length vs < fuel"
    "length us - length vs + card ({i. i < 512} - dom T') \<le> length ps"
  shows "\<exists>t ps' T'' ws. copyuvm_loop fuel d d' (upage (length vs)) sz s = Ok True t
    \<and> uspace t ps' d T us data \<and> uspace t ps' d' T'' ws data \<and> as_pages d T us \<inter> as_pages d' T'' ws = {}
    \<and> length ws = length us \<and> copies (pmem t) ws us \<and> vframe s t
    \<and> (\<forall>q. page_ok s q \<longrightarrow> q \<notin> set ps \<longrightarrow> q \<noteq> d' \<longrightarrow> q \<notin> ran T' \<longrightarrow> same_page (pmem s) (pmem t) q)"
  using assms
proof (induction fuel arbitrary: s ps T' vs)
  case 0
  then show ?case by simp
next
  case (Suc fuel)
  have le: "length vs \<le> length us" using Suc.prems(4) by (simp add: copies_def)
  have n: "length us \<le> 524288" using Suc.prems(1) by (simp add: uspace_def)
  show ?case
  proof (cases "length vs < length us")
    case False
    then have "\<not> upage (length vs) < sz"
      using upage_less [of "length vs" sz] Suc.prems(5) le n by simp
    then have "copyuvm_loop (Suc fuel) d d' (upage (length vs)) sz s = Ok True s"
      by (simp add: copyuvm_loop.simps(2))
    then show ?thesis using Suc.prems(1-4) False le
      by (intro exI [of _ s] exI [of _ ps] exI [of _ T'] exI [of _ vs]) simp
  next
    case True
    have len: "length vs < 524288" using True n by simp
    obtain g f where gf: "us ! length vs = (g, f)" by (cases "us ! length vs") auto
    have fin: "finite {i :: u32. i < 512}" by simp
    have R: "PDX (upage (length vs)) \<in> {i. i < 512}" using user_dir [OF len] by simp
    obtain p ps1 where ps: "ps = p # ps1" using Suc.prems(7) True by (cases ps) auto
    have card: "card ({i. i < 512} - dom T') \<le> length ps1" using Suc.prems(7) True ps by simp
    note more = table_step(1) [OF R fin card]
    obtain a u v t ps2 T2 where r: "walkpgdir d (upage (length vs)) False s = Ok a s" "a \<noteq> 0"
      "mload32 (pmem s) a = v2p g OR f" "kalloc s = Ok p u" "p \<noteq> 0" "kmemmove p g PGSIZE u = Ok () v"
      "mappages d' (upage (length vs)) PGSIZE (v2p p) f v = Ok 0 t"
      and us2: "uspace t ps2 d T us data" "uspace t ps2 d' T2 (vs @ [(p, f)]) data"
        "as_pages d T us \<inter> as_pages d' T2 (vs @ [(p, f)]) = {}" "page_eq (pmem t) p (pmem s) g" "vframe s t"
      and qs: "\<exists>qs. ps1 = qs @ ps2 \<and> ran T2 = ran T' \<union> set qs"
      and same: "\<And>q. page_ok s q \<Longrightarrow> q \<notin> set ps \<Longrightarrow> q \<noteq> d' \<Longrightarrow> q \<notin> ran T' \<Longrightarrow> same_page (pmem s) (pmem t) q"
      and cnt: "length ps1 + card (dom T') = length ps2 + card (dom T2)"
      and dom: "dom T2 = insert (PDX (upage (length vs))) (dom T')"
      using copy_round [OF Suc.prems(1,2) [unfolded ps] Suc.prems(3) True gf more] unfolding ps by metis
    have keep: "same_page (pmem s) (pmem t) q" if "q \<in> fst ` set us \<or> q \<in> fst ` set vs" for q
    proof -
      have "page_ok s q" "q \<notin> set ps"
        using that as_pages_ok [OF Suc.prems(1), of q] as_pages_ok [OF Suc.prems(2), of q]
        unfolding as_pages_def by blast+
      moreover have "q \<noteq> d'" "q \<notin> ran T'"
        using that Suc.prems(2,3) by (auto simp: as_pages_def uspace_def own_ok_def)
      ultimately show ?thesis by (rule same)
    qed
    have nth: "fst (xs ! k) \<in> fst ` set xs" if "k < length xs" for k and xs :: "(u32 \<times> u32) list"
      using that by simp
    have "copies (pmem t) (vs @ [(p, f)]) us"
      unfolding copies_def
    proof (intro conjI allI impI)
      fix k assume "k < length (vs @ [(p, f)])"
      then consider "k < length vs" | "k = length vs" by fastforce
      then have "snd ((vs @ [(p, f)]) ! k) = snd (us ! k)
        \<and> page_eq (pmem t) (fst ((vs @ [(p, f)]) ! k)) (pmem t) (fst (us ! k))"
      proof cases
        case 1
        then have "page_eq (pmem s) (fst (vs ! k)) (pmem s) (fst (us ! k))" "snd (vs ! k) = snd (us ! k)"
          using Suc.prems(4) by (simp_all add: copies_def)
        moreover have "same_page (pmem s) (pmem t) (fst (vs ! k))" "same_page (pmem s) (pmem t) (fst (us ! k))"
          using 1 True nth keep by auto
        ultimately show ?thesis using 1 page_eq_same by (simp add: nth_append)
      next
        case 2
        have "same_page (pmem s) (pmem t) g" using keep nth [OF True] gf by auto
        then show ?thesis using 2 gf us2(4) by (simp add: page_eq_def same_page_def)
      qed
      then show "snd ((vs @ [(p, f)]) ! k) = snd (us ! k)"
        "page_eq (pmem t) (fst ((vs @ [(p, f)]) ! k)) (pmem t) (fst (us ! k))" by blast+
    qed (use True in simp)
    moreover have "length us - length (vs @ [(p, f)]) + card ({i. i < 512} - dom T2) \<le> length ps2"
    proof -
      have "{i. i < 512} \<union> dom T2 = {i. i < 512} \<union> dom T'" unfolding dom using R by blast
      then have "card ({i. i < 512} - dom T2) + card (dom T2) = card ({i. i < 512} - dom T') + card (dom T')"
        using card_tables [OF fin] by metis
      then show ?thesis using Suc.prems(7) True ps cnt by simp
    qed
    moreover have "length us - length (vs @ [(p, f)]) < fuel" using Suc.prems(6) True by simp
    ultimately obtain w ps' T'' ws where w: "copyuvm_loop fuel d d' (upage (length (vs @ [(p, f)]))) sz t = Ok True w"
      "uspace w ps' d T us data" "uspace w ps' d' T'' ws data" "as_pages d T us \<inter> as_pages d' T'' ws = {}"
      "length ws = length us" "copies (pmem w) ws us" "vframe t w"
      "\<forall>q. page_ok t q \<longrightarrow> q \<notin> set ps2 \<longrightarrow> q \<noteq> d' \<longrightarrow> q \<notin> ran T2 \<longrightarrow> same_page (pmem t) (pmem w) q"
      using Suc.IH [OF us2(1-3) _ Suc.prems(5)] by blast
    have "(g, f) \<in> set us" using True gf by (metis nth_mem)
    then have g: "page_ok s g" "f AND NOT 0xFFF = 0" "f AND 1 \<noteq> 0"
      using Suc.prems(1) by (auto simp: uspace_def own_ok_def)
    have "upage (length vs) < sz" using upage_less [of "length vs" sz] Suc.prems(5) True len by simp
    then have "copyuvm_loop (Suc fuel) d d' (upage (length vs)) sz s = Ok True w"
      using r w(1) pte_parts [OF g] by (simp add: copyuvm_loop.simps(2) load32_def upage_Suc)
    moreover have "same_page (pmem s) (pmem w) q"
      if q: "page_ok s q" "q \<notin> set ps" "q \<noteq> d'" "q \<notin> ran T'" for q
    proof -
      have "q \<notin> set ps2" "q \<notin> ran T2" using q qs ps by auto
      then have "same_page (pmem t) (pmem w) q" using q w(8) vframe_simps(2) [OF us2(5)] by simp
      then show ?thesis using same [OF q] same_page_trans by blast
    qed
    ultimately show ?thesis using w(2-6) vframe_trans [OF us2(5) w(7)] by blast
  qed
qed

text \<open>C4: With enough memory \<open>copyuvm\<close> gives a child the same address space as its parent: the same
  number of pages with the same flags and the same content, on fresh pages that the parent
  does not share; the parent is unchanged.\<close>

theorem copyuvm_copies:
  assumes "uspace s ps d T us (kdata s)" "kdata_ok (kdata s)" "npages sz = length us"
    "1025 + length us \<le> length ps"
  shows "\<exists>t d' ps' T' vs. copyuvm d sz s = Ok d' t \<and> d' \<noteq> 0
    \<and> uspace t ps' d T us (kdata s) \<and> uspace t ps' d' T' vs (kdata s)
    \<and> as_pages d T us \<inter> as_pages d' T' vs = {} \<and> length vs = length us \<and> copies (pmem t) vs us
    \<and> (\<forall>q \<in> as_pages d T us. same_page (pmem s) (pmem t) q)"
proof -
  have km: "kmem_quiet s ps" using assms(1) by (simp add: uspace_def pgd_inv_def)
  obtain d' u ps1 T' where u: "setupkvm s = Ok d' u" "d' \<noteq> 0" "vframe s u" "kvm_part u ps1 d' T' (kernel_pte (kdata s))"
    "length ps = length ps1 + card (dom T') + 1" "\<exists>qs. ps = qs @ ps1 \<and> insert d' (ran T') = set qs"
    "\<And>p. page_ok s p \<Longrightarrow> p \<notin> set ps \<Longrightarrow> same_page (pmem s) (pmem u) p"
    using setupkvm_runs [OF km _ assms(2)] assms(4) by (auto simp del: insert_absorb)
  have ku: "kmem_quiet u ps1" and iu: "pgd_inv u ps1 d' T'" and dom: "dom T' \<subseteq> kern_dirs"
    using u(4) by (auto simp: kvm_part_def pgd_inv_def)
  note as = as_pages_ok [OF assms(1)]
  have par: "uspace u ps1 d T us (kdata s)"
    using as u(6,7) by (intro uspace_frame [OF assms(1) u(3) ku]) auto
  have chi: "uspace u ps1 d' T' [] (kdata s)"
    using assms(1) vframe_simps(1) [OF u(3)] by (intro kvm_uspace [OF u(4)]) (simp add: uspace_def)
  have disj: "as_pages d T us \<inter> as_pages d' T' [] = {}"
  proof -
    obtain qs where "ps = qs @ ps1" "as_pages d' T' [] = set qs" using u(6) by (auto simp: as_pages_def)
    then show ?thesis using as(2) by auto
  qed
  have "card (dom T') \<le> 512" using card_mono [OF kern_dirs_card(1) dom] kern_dirs_card(2) by simp
  moreover have "card ({i :: u32. i < 512} - dom T') \<le> 512"
  proof -
    have "{i :: u32. i < 512} - dom T' \<subseteq> of_nat ` {..<512}"
    proof
      fix i assume "i \<in> {i :: u32. i < 512} - dom T'"
      then have "unat i < 512" by (simp add: word_less_nat_alt)
      then show "i \<in> of_nat ` {..<512}" by (intro image_eqI [of _ _ "unat i"]) auto
    qed
    then have "card ({i :: u32. i < 512} - dom T') \<le> card ((of_nat :: nat \<Rightarrow> u32) ` {..<512})"
      by (intro card_mono) auto
    also have "\<dots> \<le> 512" using card_image_le [of "{..<512 :: nat}" "of_nat :: nat \<Rightarrow> u32"] by simp
    finally show ?thesis .
  qed
  ultimately have enough: "length us - length ([] :: (u32 \<times> u32) list) + card ({i. i < 512} - dom T') \<le> length ps1"
    using u(5) assms(4) by simp
  have fuel: "length us - length ([] :: (u32 \<times> u32) list) < page_fuel"
    using assms(1) page_fuel_enough [of "length us"] by (simp add: uspace_def)
  have "copies (pmem u) [] us" by (simp add: copies_def)
  from copyuvm_loop_ok [OF par chi disj this assms(3) fuel enough]
  obtain t ps' T'' ws where t: "copyuvm_loop page_fuel d d' (upage 0) sz u = Ok True t"
    "uspace t ps' d T us (kdata s)" "uspace t ps' d' T'' ws (kdata s)" "as_pages d T us \<inter> as_pages d' T'' ws = {}"
    "length ws = length us" "copies (pmem t) ws us" "vframe u t"
    "\<forall>q. page_ok u q \<longrightarrow> q \<notin> set ps1 \<longrightarrow> q \<noteq> d' \<longrightarrow> q \<notin> ran T' \<longrightarrow> same_page (pmem u) (pmem t) q"
    by auto
  have "same_page (pmem s) (pmem t) q" if "q \<in> as_pages d T us" for q
  proof -
    have "q \<notin> set ps1" "q \<noteq> d'" "q \<notin> ran T'" using as(2) [OF that] u(6) by auto
    then show ?thesis
      using as [OF that] u(7) [of q] t(8) vframe_simps(2) [OF u(3)] same_page_trans by auto
  qed
  moreover have "copyuvm d sz s = Ok d' t"
    using u(1,2) t(1) by (simp add: copyuvm_def upage_def)
  ultimately show ?thesis using u(2) t(2-6) by blast
qed

section \<open>Access through the page table\<close>

lemma translate_user:
  assumes "uspace s ps d T us data" "unat va div 4096 < length us"
  shows "translate (pmem s) d va = Some (fst (us ! (unat va div 4096)) + (va AND 0xFFF))"
proof -
  let ?k = "unat va div 4096"
  have n: "?k < 524288" "?k < 1048576" using assms by (auto simp: uspace_def)
  obtain p f where pf: "us ! ?k = (p, f)" by (cases "us ! ?k")
  then have "(p, f) \<in> set us" using assms(2) by (metis nth_mem)
  then have p: "page_ok s p" "f AND NOT 0xFFF = 0" "f AND 1 \<noteq> 0"
    using assms(1) by (auto simp: uspace_def own_ok_def)
  have "unat (va - upage ?k) < 4096"
    using n(2) by (simp add: unat_sub_if')
  then have same: "PDX va = PDX (upage ?k)" "PTX va = PTX (upage ?k)"
    using vpage_eq [OF upage_mod [OF n(2)], of va] by auto
  have pte: "pte_of (pmem s) T va = v2p p OR f"
    using assms n(1) pf pte_of_cong [OF same] by (simp add: uspace_def user_ptes_def)
  then obtain q where q: "T (PDX va) = Some q"
    using pte_parts(1) [OF p] by (auto simp: pte_of_def split: option.splits)
  have inv: "pgd_inv s ps d T" using assms(1) by (simp add: uspace_def)
  have "slot (pmem s) d (PDX va) AND 1 \<noteq> 0 \<and> p2v (PTE_ADDR (slot (pmem s) d (PDX va))) = q"
    using dir_mapsD(2) [of "pmem s" d T "PDX va" q] PDX_lt q inv by (simp add: pgd_inv_def)
  moreover have "slot (pmem s) q (PTX va) = v2p p OR f" using pte q by (simp add: pte_of_def)
  ultimately show ?thesis
    using pte_parts [OF p] pf by (simp add: translate_def Let_def flip: slot_def)
qed

section \<open>A state with an address space\<close>

definition vmach0 :: vmach where
  "vmach0 = \<lparr>lk = lk0, pmem = (\<lambda>_. 0), use_lock = True, freelist = 0, kend = 0x80108000,
     kdata = 0x80107000, kpgdir = 0, cr3 = 0, esp0 = 0\<rparr>"

lemma vm_pages: "\<exists>(s :: vmach) ps. kmem_quiet s ps \<and> length ps = 2000 \<and> kdata_ok (kdata s) \<and> KERNBASE < kend s"
proof -
  have "kmem_quiet vmach0 []" by (simp add: kmem_quiet_def kmem_inv_def vmach0_def quiet_lk0)
  moreover have "unat (0x80108000 :: u32) = 4096 * 524552" by simp
  ultimately obtain t where t: "freerange_loop 2001 0x80108000 (0x80108000 + 4096 * 2000) vmach0 = Ok () t"
    "kmem_quiet t (pages_from 0x80108000 2000 @ [])" "kend t = kend vmach0"
    using freerange_loop_ok [of vmach0 "[]" "0x80108000" 524552 2000 "0x80108000 + 4096 * 2000" 2001]
    by (auto simp: vmach0_def)
  have "length (pages_from p n) = n" for p n by (induction n arbitrary: p) auto
  moreover have "kmem_quiet (t\<lparr>kdata := 0x80107000\<rparr>) (pages_from 0x80108000 2000 @ [])"
    using t(2) by (simp add: kmem_quiet_def kmem_inv_def page_ok_def cong: quiet_cong)
  ultimately show ?thesis using t(3)
    by (intro exI [of _ "t\<lparr>kdata := 0x80107000\<rparr>"] exI [of _ "pages_from 0x80108000 2000 @ []"])
      (simp add: vmach0_def kdata_ok_def p2v_def)
qed

lemma vm_space:
  "\<exists>(s :: vmach) ps d T. uspace s ps d T [] (kdata s) \<and> 1400 \<le> length ps \<and> kdata_ok (kdata s)"
proof -
  obtain s :: vmach and ps where s: "kmem_quiet s ps" "length ps = 2000" "kdata_ok (kdata s)" "KERNBASE < kend s"
    using vm_pages by blast
  obtain d t ps' T where t: "setupkvm s = Ok d t" "vframe s t" "kvm_part t ps' d T (kernel_pte (kdata s))"
    "length ps = length ps' + card (dom T) + 1" using setupkvm_runs [OF s(1) _ s(3)] s(2) by auto
  have "card (dom T) \<le> 512"
    using card_mono [OF kern_dirs_card(1), of "dom T"] kern_dirs_card(2) t(3) by (simp add: kvm_part_def)
  moreover have "kdata t = kdata s" using vframe_simps(4) [OF t(2)] by (cases s; cases t) simp
  moreover have "uspace t ps' d T [] (kdata s)"
    using s(4) vframe_simps(1) [OF t(2)] by (intro kvm_uspace [OF t(3)]) simp
  ultimately show ?thesis using t(4) s(2,3)
    by (intro exI [of _ t] exI [of _ ps'] exI [of _ d] exI [of _ T]) simp
qed

lemma alloc_more:
  fixes s :: "'z vmach_scheme"
  assumes "uspace s ps d T us (kdata s)" "n + 2 \<le> length ps" "length us < 524288"
  shows "\<exists>(t :: 'z vmach_scheme) ps' T' p. uspace t ps' d T' (us @ [(p, 7)]) (kdata t) \<and> n \<le> length ps' \<and> kdata t = kdata s"
proof -
  obtain p qs where ps: "ps = p # qs" "qs \<noteq> []" using assms(2) by (cases ps; cases "tl ps") auto
  obtain t ps' T' where t: "uspace t ps' d T' (us @ [(p, 7)]) (kdata s)" "keeps s (p # qs) d T t"
    "length qs + card (dom T) = length ps' + card (dom T')" "dom T' = insert (PDX (upage (length us))) (dom T)"
    using alloc_round [OF assms(1) [unfolded ps(1)] assms(3)] ps(2) by blast
  have "card (dom T') \<le> Suc (card (dom T))" unfolding t(4) by (rule card_insert_le_m1) simp_all
  moreover have "kdata t = kdata s"
    using t(2) vframe_simps(4) [of s t] unfolding keeps_def by (cases s; cases t) simp
  ultimately show ?thesis using t(1,3) assms(2) ps(1)
    by (intro exI [of _ t] exI [of _ ps'] exI [of _ T'] exI [of _ p]) simp
qed

lemma vm_user:
  "\<exists>(s :: vmach) ps d T us. uspace s ps d T us (kdata s) \<and> 1300 \<le> length ps \<and> length us = 2 \<and> kdata_ok (kdata s)"
proof -
  obtain s :: vmach and ps d T where s: "uspace s ps d T [] (kdata s)" "1400 \<le> length ps" "kdata_ok (kdata s)"
    using vm_space by blast
  obtain t :: vmach and ps1 T1 p where t: "uspace t ps1 d T1 ([] @ [(p, 7)]) (kdata t)" "1350 \<le> length ps1" "kdata t = kdata s"
    using alloc_more [OF s(1), of 1350] s(2) by auto
  obtain u :: vmach and ps2 T2 q where "uspace u ps2 d T2 (([] @ [(p, 7)]) @ [(q, 7)]) (kdata u)" "1300 \<le> length ps2" "kdata u = kdata t"
    using alloc_more [OF t(1), of 1300] t(2) by auto
  then show ?thesis using s(3) t(3)
    by (intro exI [of _ u] exI [of _ ps2] exI [of _ d] exI [of _ T2] exI [of _ "[(p, 7), (q, 7)]"]) simp
qed


theorem deallocuvm_shrinks_witness:
  "\<exists>(s :: vmach) d t ps T us. uspace s ps d T us (kdata s) \<and> length us = 2
     \<and> deallocuvm d 8192 4096 s = Ok 4096 t \<and> uspace t (fst (us ! 1) # ps) d T [us ! 0] (kdata s)"
proof -
  obtain s :: vmach and ps d T us where s: "uspace s ps d T us (kdata s)" "length us = 2" using vm_user by blast
  obtain a b where us: "us = [a, b]" using s(2) by (auto simp: length_Suc_conv numeral_2_eq_2)
  have np: "npages 8192 = 2" "npages 4096 = 1" by (simp_all add: npages_def)
  then obtain t where "deallocuvm d 8192 4096 s = Ok 4096 t"
    "uspace t (rev (map fst (drop 1 us)) @ ps) d T (take 1 us) (kdata s)"
    using deallocuvm_shrinks [OF s(1), of 8192 4096] s(2) by auto
  then show ?thesis using s us
    by (intro exI [of _ s] exI [of _ d] exI [of _ t] exI [of _ ps] exI [of _ T] exI [of _ us]) simp
qed

theorem freevm_frees_all_witness:
  "\<exists>(s :: vmach) d t T us ps qs. uspace s ps d T us (kdata s) \<and> length us = 2 \<and> freevm d s = Ok () t
     \<and> kmem_quiet t qs \<and> length ps + 3 \<le> length qs"
proof -
  obtain s :: vmach and ps d T us where s: "uspace s ps d T us (kdata s)" "length us = 2" using vm_user by blast
  then obtain t qs where "freevm d s = Ok () t" "kmem_quiet t qs" "length qs = length ps + 1 + card (ran T) + length us"
    using freevm_frees_all [OF s(1)] by blast
  with s show ?thesis by (intro exI conjI) auto
qed

theorem copyuvm_copies_witness:
  "\<exists>(s :: vmach) d d' t ps T' vs. copyuvm d 8192 s = Ok d' t \<and> d' \<noteq> 0 \<and> uspace t ps d' T' vs (kdata s) \<and> length vs = 2"
proof -
  obtain s :: vmach and ps d T us where s: "uspace s ps d T us (kdata s)" "1300 \<le> length ps" "length us = 2" "kdata_ok (kdata s)"
    using vm_user by blast
  have np: "npages 8192 = length us" by (simp add: npages_def s(3))
  have "1025 + length us \<le> length ps" using s(2,3) by simp
  from copyuvm_copies [OF s(1,4) np this] show ?thesis using s(3) by metis
qed

theorem setupkvm_maps_kernel_witness:
  "\<exists>(s :: vmach) d t T. setupkvm s = Ok d t \<and> d \<noteq> 0 \<and> (\<forall>v. pte_of (pmem t) T v = kernel_pte (kdata s) v)"
proof -
  obtain s :: vmach and ps where s: "kmem_quiet s ps" "length ps = 2000" "kdata_ok (kdata s)"
    using vm_pages by blast
  then have "513 \<le> length ps" by simp
  from setupkvm_maps_kernel [OF s(1,3), THEN conjunct1, THEN mp, OF this] show ?thesis by blast
qed

end
