(* ===== verification/Life.thy ===== *)
theory Life
  imports Hw Uvm
begin

text \<open>
  The life of a process: the rest of \<^verbatim>\<open>proc.c\<close> (\<open>allocproc\<close>, \<open>userinit\<close>, \<open>growproc\<close>, \<open>fork\<close>, \<open>exit\<close>,
  \<open>wait\<close>, the scheduler and \<open>forkret\<close>), and the system calls of \<^verbatim>\<open>sysproc.c\<close>.

  The trap frame and the saved context of a process are fields of its \<open>proc\<close> record instead of
  bytes at the top of its kernel stack. The addresses that the linker decides (\<^verbatim>\<open>forkret\<close>, the image
  of \<^verbatim>\<open>initcode\<close>, and in \<open>ts_addr\<close> and \<open>local_addr\<close> the parts \<^verbatim>\<open>ts\<close> and \<^verbatim>\<open>cpu\<close> of this CPU's
  \<^verbatim>\<open>struct cpu\<close>) are fields of the state, and so are the segment table and the segment and task
  registers of this CPU.
\<close>

section \<open>Segments: mmu.h\<close>

record segdesc =
  lim_15_0 :: "16 word"
  base_15_0 :: "16 word"
  base_23_16 :: "8 word"
  seg_type :: "4 word"
  seg_s :: "1 word"
  seg_dpl :: "2 word"
  seg_p :: "1 word"
  lim_19_16 :: "4 word"
  seg_avl :: "1 word"
  seg_rsv1 :: "1 word"
  seg_db :: "1 word"
  seg_g :: "1 word"
  base_31_24 :: "8 word"

definition SEG :: "u32 \<Rightarrow> u32 \<Rightarrow> u32 \<Rightarrow> u32 \<Rightarrow> segdesc" where
  "SEG type base lim dpl = \<lparr>lim_15_0 = ucast (drop_bit 12 lim AND 0xFFFF), base_15_0 = ucast (base AND 0xFFFF),
     base_23_16 = ucast (drop_bit 16 base AND 0xFF), seg_type = ucast type, seg_s = 1, seg_dpl = ucast dpl,
     seg_p = 1, lim_19_16 = ucast (drop_bit 28 lim), seg_avl = 0, seg_rsv1 = 0,
     seg_db = 1, seg_g = 1, base_31_24 = ucast (drop_bit 24 base)\<rparr>"

definition SEG16 :: "u32 \<Rightarrow> u32 \<Rightarrow> u32 \<Rightarrow> u32 \<Rightarrow> segdesc" where
  "SEG16 type base lim dpl = \<lparr>lim_15_0 = ucast (lim AND 0xFFFF), base_15_0 = ucast (base AND 0xFFFF),
     base_23_16 = ucast (drop_bit 16 base AND 0xFF), seg_type = ucast type, seg_s = 1, seg_dpl = ucast dpl,
     seg_p = 1, lim_19_16 = ucast (drop_bit 16 lim), seg_avl = 0, seg_rsv1 = 0,
     seg_db = 1, seg_g = 0, base_31_24 = ucast (drop_bit 24 base)\<rparr>"

definition SEG_KCODE :: nat where [simp]: "SEG_KCODE = 1"
definition SEG_KDATA :: nat where [simp]: "SEG_KDATA = 2"
definition SEG_KCPU :: nat where [simp]: "SEG_KCPU = 3"
definition SEG_UCODE :: nat where [simp]: "SEG_UCODE = 4"
definition SEG_UDATA :: nat where [simp]: "SEG_UDATA = 5"
definition SEG_TSS :: nat where [simp]: "SEG_TSS = 6"
definition DPL_USER :: u16 where [simp]: "DPL_USER = 3"
definition STA_X :: u32 where [simp]: "STA_X = 8"
definition STA_W :: u32 where [simp]: "STA_W = 2"
definition STA_R :: u32 where [simp]: "STA_R = 2"
definition STS_T32A :: u32 where [simp]: "STS_T32A = 9"

text \<open>\<^verbatim>\<open>sizeof(struct taskstate)\<close>, and a selector.\<close>

definition ts_size :: u32 where [simp]: "ts_size = 104"

definition sel :: "nat \<Rightarrow> u16" where
  "sel seg = push_bit 3 (of_nat seg)"

section \<open>State\<close>

record smach = hmach +
  ticks :: u32
  forkret_pc :: u32
  first :: bool
  initcode :: u32
  initcode_size :: u32
  gdt :: "nat \<Rightarrow> segdesc"
  ts_ss0 :: u16
  task_reg :: u16
  gs_reg :: u16
  ts_addr :: u32
  local_addr :: u32

section \<open>proc.c\<close>

definition pinit :: "('z pmach_scheme, unit) kern" where
  "pinit = initlock PtableLock"

definition allocproc :: "('z smach_scheme, nat option) kern" where
  "allocproc =
     thenk (acquire PtableLock)
     (bindk (readk (\<lambda>s. find (\<lambda>i. pstate (ptable s i) = UNUSED) [0..<NPROC])) (\<lambda>r.
     case r of
       None \<Rightarrow> thenk (release PtableLock) (retk None)
     | Some p \<Rightarrow>
         thenk (modk (set_proc p (\<lambda>x. x\<lparr>pstate := EMBRYO\<rparr>)))
         (bindk (readk nextpid) (\<lambda>n.
         thenk (modk (set_proc p (\<lambda>x. x\<lparr>pid := n\<rparr>)))
         (thenk (modk (\<lambda>s. s\<lparr>nextpid := n + 1\<rparr>))
         (thenk (release PtableLock)
         (bindk kalloc (\<lambda>k.
         thenk (modk (set_proc p (\<lambda>x. x\<lparr>kstack := k\<rparr>)))
         (if k = 0 then
            thenk (modk (set_proc p (\<lambda>x. x\<lparr>pstate := UNUSED\<rparr>)))
            (retk None)
          else
            bindk (readk forkret_pc) (\<lambda>pc.
            thenk (modk (set_proc p (\<lambda>x. x\<lparr>pcontext := \<lparr>edi = 0, esi = 0, ebx = 0, ebp = 0, eip = pc\<rparr>\<rparr>)))
            (retk (Some p))))))))))))"

definition switchuvm :: "nat \<Rightarrow> ('z smach_scheme, unit) kern" where
  "switchuvm p =
     thenk pushcli
     (thenk (modk (\<lambda>s. s\<lparr>gdt := (gdt s)(SEG_TSS := SEG16 STS_T32A (ts_addr s) (ts_size - 1) 0)\<rparr>))
     (thenk (modk (\<lambda>s. s\<lparr>gdt := (gdt s)(SEG_TSS := (gdt s SEG_TSS)\<lparr>seg_s := 0\<rparr>)\<rparr>))
     (thenk (modk (\<lambda>s. s\<lparr>ts_ss0 := sel SEG_KDATA\<rparr>))
     (bindk (getproc kstack) (\<lambda>k.
     thenk (modk (\<lambda>s. s\<lparr>esp0 := k + KSTACKSIZE\<rparr>))
     (thenk (modk (\<lambda>s. s\<lparr>task_reg := sel SEG_TSS\<rparr>))
     (bindk (readk (\<lambda>s. pgdir (ptable s p))) (\<lambda>d.
     if d = 0 then panic ''switchuvm: no pgdir'' else
     thenk (lcr3 (v2p d))
     popcli))))))))"

text \<open>\<open>safestrcpy\<close> into a name of 16 characters.\<close>

definition copy_name :: "bytes \<Rightarrow> bytes \<Rightarrow> bytes" where
  "copy_name src old =
     (let k = length (takeWhile (\<lambda>b. b \<noteq> 0) (map src [0..<15]))
      in (\<lambda>i. if i < k then src i else if i = k then 0 else old i))"

definition FL_IF :: u32 where [simp]: "FL_IF = 0x200"

definition user_tf :: trapframe where
  "user_tf = \<lparr>tf_edi = 0, tf_esi = 0, tf_ebp = 0, tf_oesp = 0, tf_ebx = 0, tf_edx = 0, tf_ecx = 0, tf_eax = 0,
       tf_gs = 0, tf_fs = 0, tf_es = sel SEG_UDATA OR DPL_USER, tf_ds = sel SEG_UDATA OR DPL_USER,
     tf_trapno = 0, tf_err = 0, tf_eip = 0, tf_cs = sel SEG_UCODE OR DPL_USER, tf_eflags = FL_IF,
     tf_esp = PGSIZE, tf_ss = sel SEG_UDATA OR DPL_USER\<rparr>"

definition userinit :: "('z smach_scheme, unit) kern" where
  "userinit =
     bindk allocproc (\<lambda>r.
     thenk (modk (\<lambda>s. s\<lparr>initproc := r\<rparr>))
     (case r of None \<Rightarrow> panic ''null proc'' | Some p \<Rightarrow>
     bindk setupkvm (\<lambda>d.
     thenk (modk (set_proc p (\<lambda>x. x\<lparr>pgdir := d\<rparr>)))
     (if d = 0 then panic ''userinit: out of memory?'' else
     bindk (readk (\<lambda>s. (initcode s, initcode_size s))) (\<lambda>(code, size').
     thenk (inituvm d code size')
     (thenk (modk (set_proc p (\<lambda>x. x\<lparr>sz := PGSIZE\<rparr>)))
     (thenk (modk (set_proc p (\<lambda>x. x\<lparr>tf := user_tf\<rparr>)))
     (thenk (modk (set_proc p (\<lambda>x. x\<lparr>pname := copy_name (lbytes (str ''initcode'')) (pname x)\<rparr>)))
     (bindk (namei (str ''/'')) (\<lambda>c.
     thenk (modk (set_proc p (\<lambda>x. x\<lparr>cwd := c\<rparr>)))
     (modk (set_proc p (\<lambda>x. x\<lparr>pstate := RUNNABLE\<rparr>))))))))))))) "

definition growproc :: "u32 \<Rightarrow> ('z smach_scheme, int) kern" where
  "growproc n =
     bindk (readk curproc) (\<lambda>c.
     case c of None \<Rightarrow> panic ''null proc'' | Some p \<Rightarrow>
     bindk (readk (\<lambda>s. (sz (ptable s p), pgdir (ptable s p)))) (\<lambda>(old, d).
     bindk (if 0 < sint n then allocuvm d old (old + n)
            else if sint n < 0 then deallocuvm d old (old + n) else retk old) (\<lambda>new.
     if sint n \<noteq> 0 \<and> new = 0 then retk (-1) else
     thenk (modk (set_proc p (\<lambda>x. x\<lparr>sz := new\<rparr>)))
     (thenk (switchuvm p)
     (retk 0)))))"

definition fork_fd :: "nat \<Rightarrow> nat \<Rightarrow> nat \<Rightarrow> ('z fmach_scheme, unit) kern" where
  "fork_fd p np i =
     bindk (readk (\<lambda>s. ofile (ptable s p) i)) (\<lambda>r.
     case r of None \<Rightarrow> retk () | Some f \<Rightarrow>
     bindk (filedup f) (\<lambda>g.
     modk (set_proc np (\<lambda>x. x\<lparr>ofile := (ofile x)(i := Some g)\<rparr>))))"

definition fork :: "('z smach_scheme, int) kern" where
  "fork =
     bindk allocproc (\<lambda>r.
     case r of None \<Rightarrow> retk (-1) | Some np \<Rightarrow>
     bindk (readk curproc) (\<lambda>c.
     case c of None \<Rightarrow> panic ''null proc'' | Some p \<Rightarrow>
     bindk (readk (\<lambda>s. ptable s p)) (\<lambda>x.
     bindk (copyuvm (pgdir x) (sz x)) (\<lambda>d.
     thenk (modk (set_proc np (\<lambda>y. y\<lparr>pgdir := d\<rparr>)))
     (if d = 0 then
        bindk (readk (\<lambda>s. kstack (ptable s np))) (\<lambda>k.
        thenk (kfree k)
        (thenk (modk (set_proc np (\<lambda>y. y\<lparr>kstack := 0\<rparr>)))
        (thenk (modk (set_proc np (\<lambda>y. y\<lparr>pstate := UNUSED\<rparr>)))
        (retk (-1)))))
      else
        thenk (modk (set_proc np (\<lambda>y. y\<lparr>sz := sz x, parent := Some p, tf := (tf x)\<lparr>tf_eax := 0\<rparr>\<rparr>)))
        (thenk (foreach [0..<NOFILE] (fork_fd p np))
        (thenk (case cwd x of None \<Rightarrow> panic ''null cwd'' | Some w \<Rightarrow>
           bindk (idup w) (\<lambda>w'. modk (set_proc np (\<lambda>y. y\<lparr>cwd := Some w'\<rparr>))))
        (bindk (readk (\<lambda>s. pid (ptable s np))) (\<lambda>n.
        thenk (modk (set_proc np (\<lambda>y. y\<lparr>pstate := RUNNABLE\<rparr>)))
        (thenk (modk (set_proc np (\<lambda>y. y\<lparr>pname := copy_name (pname x) (pname y)\<rparr>)))
        (retk n)))))))))))"

definition exit_fd :: "nat \<Rightarrow> nat \<Rightarrow> ('z fmach_scheme, unit) kern" where
  "exit_fd p fd =
     bindk (readk (\<lambda>s. ofile (ptable s p) fd)) (\<lambda>r.
     case r of None \<Rightarrow> retk () | Some f \<Rightarrow>
     thenk (fileclose f)
     (modk (set_proc p (\<lambda>x. x\<lparr>ofile := (ofile x)(fd := None)\<rparr>))))"

text \<open>One child in the loop that passes the children of \<open>p\<close> to \<open>init\<close>.\<close>

definition exit_child :: "nat \<Rightarrow> nat \<Rightarrow> ('z pmach_scheme, unit) kern" where
  "exit_child p i =
     bindk (readk (\<lambda>s. (ptable s i, initproc s))) (\<lambda>(c, ini).
     whenk (parent c = Some p)
       (thenk (modk (set_proc i (\<lambda>x. x\<lparr>parent := ini\<rparr>)))
       (whenk (pstate c = ZOMBIE) (wakeup1 (map_option ChProc ini)))))"

definition exit :: "('z smach_scheme, 'a) kern" where
  "exit =
     bindk (readk (\<lambda>s. (curproc s, initproc s))) (\<lambda>(c, ini).
     if c = ini then panic ''init exiting'' else
     case c of None \<Rightarrow> panic ''null proc'' | Some p \<Rightarrow>
     thenk (foreach [0..<NOFILE] (exit_fd p))
     (bindk (readk (\<lambda>s. cwd (ptable s p))) (\<lambda>w.
     thenk (case w of None \<Rightarrow> panic ''null cwd'' | Some ip \<Rightarrow> iput ip)
     (thenk (modk (set_proc p (\<lambda>x. x\<lparr>cwd := None\<rparr>)))
     (thenk (acquire PtableLock)
     (bindk (readk (\<lambda>s. parent (ptable s p))) (\<lambda>pa.
     thenk (wakeup1 (map_option ChProc pa))
     (thenk (foreach [0..<NPROC] (exit_child p))
     (thenk (modk (set_proc p (\<lambda>x. x\<lparr>pstate := ZOMBIE\<rparr>)))
     sched)))))))))"

text \<open>One scan of \<open>wait\<close>; asleep, the process scans again when it is woken.\<close>

definition wait :: "('z smach_scheme, int) kern" where
  "wait =
     thenk (acquire PtableLock)
     (bindk (readk curproc) (\<lambda>c.
     case c of None \<Rightarrow> panic ''null proc'' | Some p \<Rightarrow>
     bindk (readk (\<lambda>s. filter (\<lambda>i. parent (ptable s i) = Some p) [0..<NPROC])) (\<lambda>kids.
     bindk (readk (\<lambda>s. find (\<lambda>i. pstate (ptable s i) = ZOMBIE) kids)) (\<lambda>z.
     case z of
       Some i \<Rightarrow>
         bindk (readk (\<lambda>s. ptable s i)) (\<lambda>x.
         thenk (kfree (kstack x))
         (thenk (modk (set_proc i (\<lambda>y. y\<lparr>kstack := 0\<rparr>)))
         (thenk (freevm (pgdir x))
         (thenk (modk (set_proc i (\<lambda>y. y\<lparr>pstate := UNUSED, pid := 0, parent := None,
            pname := (pname y)(0 := 0), killed := False\<rparr>)))
         (thenk (release PtableLock)
         (retk (pid x)))))))
     | None \<Rightarrow>
         bindk (getproc killed) (\<lambda>k.
         if kids = [] \<or> k then thenk (release PtableLock) (retk (-1))
         else sleep (ChProc p) PtableLock)))))"

text \<open>The loop of the scheduler over the table, in the two parts that the \<^verbatim>\<open>swtch\<close> separates: the
  choice of a process, and what the scheduler does when the process has given up the CPU.\<close>

definition set_curproc :: "nat option \<Rightarrow> ('z mach_scheme, unit) kern" where
  "set_curproc c = modk (\<lambda>s. s\<lparr>lk := set_cpu (\<lambda>x. x\<lparr>cproc := c\<rparr>) (lk s)\<rparr>)"

definition sched_pick :: "nat \<Rightarrow> ('z smach_scheme, nat option) kern" where
  "sched_pick from =
     bindk (readk (\<lambda>s. find (\<lambda>i. pstate (ptable s i) = RUNNABLE) [from..<NPROC])) (\<lambda>r.
     case r of
       None \<Rightarrow> thenk (release PtableLock) (retk None)
     | Some p \<Rightarrow>
         thenk (set_curproc (Some p))
         (thenk (switchuvm p)
         (thenk (modk (set_proc p (\<lambda>x. x\<lparr>pstate := RUNNING\<rparr>)))
         (retk (Some p)))))"

definition scheduler_round :: "('z smach_scheme, nat option) kern" where
  "scheduler_round =
     thenk (modk (\<lambda>s. s\<lparr>lk := set_cpu (\<lambda>x. x\<lparr>iflag := True\<rparr>) (lk s)\<rparr>))
     (thenk (acquire PtableLock)
     (sched_pick 0))"

definition scheduler_resume :: "nat \<Rightarrow> ('z smach_scheme, nat option) kern" where
  "scheduler_resume p =
     thenk switchkvm
     (thenk (set_curproc None)
     (sched_pick (Suc p)))"

definition forkret :: "('z smach_scheme, unit) kern" where
  "forkret =
     thenk (release PtableLock)
     (bindk (readk first) (\<lambda>f.
     whenk f (thenk (modk (\<lambda>s. s\<lparr>first := False\<rparr>)) initlog)))"

section \<open>sysproc.c\<close>

definition sys_fork :: "('z smach_scheme, int) kern" where
  "sys_fork = fork"

definition sys_exit :: "('z smach_scheme, int) kern" where
  "sys_exit = exit"

definition sys_wait :: "('z smach_scheme, int) kern" where
  "sys_wait = wait"

definition sys_kill :: "('z pmach_scheme, int) kern" where
  "sys_kill =
     bindk (argint 0) (\<lambda>a.
     case a of None \<Rightarrow> retk (-1) | Some n \<Rightarrow> kill (sint n))"

definition sys_getpid :: "('z pmach_scheme, int) kern" where
  "sys_getpid = getproc pid"

definition sys_sbrk :: "('z smach_scheme, int) kern" where
  "sys_sbrk =
     bindk (argint 0) (\<lambda>a.
     case a of None \<Rightarrow> retk (-1) | Some n \<Rightarrow>
     bindk (getproc sz) (\<lambda>addr.
     bindk (growproc n) (\<lambda>r.
     if r < 0 then retk (-1) else retk (sint addr))))"

text \<open>The loop of \<open>sys_sleep\<close>, entered again after every wakeup. The comparison is unsigned.\<close>

definition sys_sleep_loop :: "u32 \<Rightarrow> u32 \<Rightarrow> ('z smach_scheme, int) kern" where
  "sys_sleep_loop ticks0 n =
     bindk (readk ticks) (\<lambda>t.
     if t - ticks0 < n then
       bindk (getproc killed) (\<lambda>k.
       if k then thenk (release TicksLock) (retk (-1)) else sleep ChTicks TicksLock)
     else thenk (release TicksLock) (retk 0))"

definition sys_sleep :: "('z smach_scheme, int) kern" where
  "sys_sleep =
     bindk (argint 0) (\<lambda>a.
     case a of None \<Rightarrow> retk (-1) | Some n \<Rightarrow>
     thenk (acquire TicksLock)
     (bindk (readk ticks) (\<lambda>ticks0.
     sys_sleep_loop ticks0 n)))"

definition sys_uptime :: "('z smach_scheme, int) kern" where
  "sys_uptime =
     thenk (acquire TicksLock)
     (bindk (readk ticks) (\<lambda>t.
     thenk (release TicksLock)
     (retk (sint t))))"

section \<open>The scheduler\<close>

text \<open>What the scheduler and the processes promise each other across \<^verbatim>\<open>swtch\<close>: the lock of the process
  table is held, it is the only one, and interrupts are off.\<close>

definition in_sched :: "'z mach_scheme \<Rightarrow> bool" where
  "in_sched s \<longleftrightarrow> heldme PtableLock (lk s) \<and> ncli (mycpu s) = 1 \<and> \<not> iflag (mycpu s)"

text \<open>Every process that may be dispatched has an address space.\<close>

definition procs_ok :: "'z pmach_scheme \<Rightarrow> bool" where
  "procs_ok s \<longleftrightarrow> (\<forall>p<NPROC. pstate (ptable s p) = RUNNABLE \<or> pstate (ptable s p) = RUNNING \<longrightarrow> pgdir (ptable s p) \<noteq> 0)"

definition dispatched :: "nat \<Rightarrow> 'z pmach_scheme \<Rightarrow> bool" where
  "dispatched p s \<longleftrightarrow> in_sched s \<and> procs_ok s \<and> curproc s = Some p \<and> pstate (ptable s p) = RUNNING
     \<and> cr3 s = v2p (pgdir (ptable s p))"

text \<open>A pass of the scheduler over the table: the processes it dispatches, in order. \<open>E p t u\<close> says that
  process \<open>p\<close>, dispatched in state \<open>t\<close>, gives the CPU back in state \<open>u\<close>.\<close>

inductive sched_pass :: "(nat \<Rightarrow> 'z smach_scheme \<Rightarrow> 'z smach_scheme \<Rightarrow> bool) \<Rightarrow> ('z smach_scheme, nat option) kern
    \<Rightarrow> 'z smach_scheme \<Rightarrow> nat list \<Rightarrow> 'z smach_scheme \<Rightarrow> bool" for E where
  pass_end: "m s = Ok None t \<Longrightarrow> sched_pass E m s [] t"
| pass_run: "m s = Ok (Some p) t \<Longrightarrow> E p t u \<Longrightarrow> sched_pass E (scheduler_resume p) u ps v \<Longrightarrow>
    sched_pass E m s (p # ps) v"

inductive_cases sched_passE: "sched_pass E m s ps t"

definition picked :: "nat \<Rightarrow> 'z smach_scheme \<Rightarrow> nat option \<Rightarrow> 'z smach_scheme \<Rightarrow> bool" where
  "picked i s r t =
     (case r of
        None \<Rightarrow> (\<forall>q. i \<le> q \<and> q < NPROC \<longrightarrow> pstate (ptable s q) \<noteq> RUNNABLE)
      | Some p \<Rightarrow> i \<le> p \<and> p < NPROC \<and> (\<forall>q. i \<le> q \<and> q < p \<longrightarrow> pstate (ptable s q) \<noteq> RUNNABLE) \<and> dispatched p t
          \<and> ptable t = (ptable s)(p := (ptable s p)\<lparr>pstate := RUNNING\<rparr>))"

lemma in_sched_wf: "in_sched s \<Longrightarrow> wf_cli (lk s)"
  by (simp add: in_sched_def wf_cli_def Let_def)

lemma switchuvm_runs:
  assumes "in_sched s" "curproc s = Some p" "pgdir (ptable s p) \<noteq> 0"
  shows "runs (switchuvm p) s (\<lambda>_ t. in_sched t \<and> curproc t = Some p \<and> ptable t = ptable s \<and> cr3 t = v2p (pgdir (ptable s p)))"
  using assms
  by (simp add: switchuvm_def getproc_run pushcli_run runs_Ok popcli_run lcr3_def in_sched_def heldme_def runs_def)

lemma sched_pick_runs:
  assumes "in_sched s" "procs_ok s"
  shows "runs (sched_pick i) s (picked i s)"
proof (cases "find (\<lambda>i. pstate (ptable s i) = RUNNABLE) [i..<NPROC]")
  case None
  have "release PtableLock s = Ok () (s\<lparr>lk := lk_rel PtableLock (lk s)\<rparr>)"
    using assms(1) in_sched_wf [OF assms(1)] by (intro release_ok) (simp_all add: in_sched_def)
  then show ?thesis
    using find_upt_None [OF None] None by (simp add: sched_pick_def runs_Ok picked_def)
next
  case (Some p)
  note f = find_upt_Some [OF Some]
  let ?s = "s\<lparr>lk := set_cpu (\<lambda>x. x\<lparr>cproc := Some p\<rparr>) (lk s)\<rparr>"
  have "runs (switchuvm p) ?s (\<lambda>_ t. in_sched t \<and> curproc t = Some p \<and> ptable t = ptable s \<and> cr3 t = v2p (pgdir (ptable s p)))"
    using switchuvm_runs [of ?s p] assms f by (simp add: in_sched_def heldme_def procs_ok_def)
  then show ?thesis
    using Some f assms(2)
    by (auto simp: sched_pick_def set_curproc_def set_proc_def picked_def dispatched_def in_sched_def procs_ok_def elim!: runs_mono)
qed


lemma scheduler_round_runs:
  assumes "unl PtableLock (lk s)" "ncli (mycpu s) = 0" "procs_ok s"
  shows "runs scheduler_round s (picked 0 s)"
proof -
  let ?s = "s\<lparr>lk := lk_acq PtableLock (set_cpu (\<lambda>x. x\<lparr>iflag := True\<rparr>) (lk s))\<rparr>"
  have "in_sched ?s" using assms by (simp add: in_sched_def lk_acq_def heldme_def)
  then have "runs (sched_pick 0) ?s (picked 0 ?s)" using assms(3) by (intro sched_pick_runs) (simp_all add: procs_ok_def)
  moreover have "picked 0 ?s = picked 0 s" by (simp add: picked_def fun_eq_iff split: option.split)
  ultimately show ?thesis using assms(1) by (simp add: scheduler_round_def acquire_ok unl_def runs_Ok)
qed

lemma scheduler_resume_runs:
  assumes "in_sched s" "procs_ok s"
  shows "runs (scheduler_resume p) s (picked (Suc p) s)"
proof -
  let ?s = "s\<lparr>cr3 := v2p (kpgdir s), lk := set_cpu (\<lambda>x. x\<lparr>cproc := None\<rparr>) (lk s)\<rparr>"
  have "runs (sched_pick (Suc p)) ?s (picked (Suc p) ?s)"
    using assms by (intro sched_pick_runs) (simp_all add: procs_ok_def in_sched_def heldme_def)
  moreover have "picked (Suc p) ?s = picked (Suc p) s" by (simp add: picked_def fun_eq_iff split: option.split)
  ultimately show ?thesis by (simp add: scheduler_resume_def switchkvm_def lcr3_def set_curproc_def runs_Ok)
qed

text \<open>What the environment of the scheduler has to do: a dispatched process gives the CPU back, keeping
  to the contract, and does not take \<open>q\<close> off the run queue.\<close>

definition fair_env :: "(nat \<Rightarrow> 'z smach_scheme \<Rightarrow> 'z smach_scheme \<Rightarrow> bool) \<Rightarrow> nat \<Rightarrow> bool" where
  "fair_env E q \<longleftrightarrow> (\<forall>p t. dispatched p t \<longrightarrow> (\<exists>u. E p t u) \<and>
     (\<forall>u. E p t u \<longrightarrow> in_sched u \<and> procs_ok u \<and>
       (p \<noteq> q \<and> pstate (ptable t q) = RUNNABLE \<longrightarrow> pstate (ptable u q) = RUNNABLE)))"

lemma pass_exists:
  assumes "fair_env E q" "runs m s (picked i s)"
  shows "\<exists>ps t. sched_pass E m s ps t"
  using assms(2)
proof (induction "NPROC - i" arbitrary: m s i rule: less_induct)
  case less
  then obtain r t where r: "m s = Ok r t" "picked i s r t" by (auto simp: runs_def)
  show ?case
  proof (cases r)
    case None
    then show ?thesis using r by (auto intro: pass_end)
  next
    case (Some p)
    then have p: "i \<le> p" "p < NPROC" "dispatched p t" using r(2) by (auto simp: picked_def)
    obtain u where u: "E p t u" "in_sched u" "procs_ok u" using assms(1) p(3) unfolding fair_env_def by blast
    have "NPROC - Suc p < NPROC - i" using p by simp
    then obtain ps v where "sched_pass E (scheduler_resume p) u ps v"
      using less.hyps scheduler_resume_runs [OF u(2,3), of p] by blast
    then show ?thesis using r(1) Some u(1) by (blast intro: pass_run)
  qed
qed

lemma pass_order:
  assumes "sched_pass E m s ps t" "fair_env E q" "runs m s (picked i s)"
    "i \<le> q" "q < NPROC" "pstate (ptable s q) = RUNNABLE"
  shows "q \<in> set ps"
  using assms
proof (induction arbitrary: i rule: sched_pass.induct)
  case (pass_end m s t)
  then show ?case by (auto simp: runs_def picked_def)
next
  case (pass_run m s p t u ps v)
  then have p: "i \<le> p" "p < NPROC" "dispatched p t" "\<And>q. i \<le> q \<Longrightarrow> q < p \<Longrightarrow> pstate (ptable s q) \<noteq> RUNNABLE"
    "ptable t = (ptable s)(p := (ptable s p)\<lparr>pstate := RUNNING\<rparr>)"
    by (auto simp: runs_def picked_def)
  have "p \<le> q" using p(4) [of q] pass_run.prems by (meson not_le)
  show ?case
  proof (cases "p = q")
    case False
    then have u: "in_sched u" "procs_ok u" "pstate (ptable u q) = RUNNABLE"
      using pass_run.prems pass_run.hyps(2) p unfolding fair_env_def by auto
    have "q \<in> set ps"
      using pass_run.IH [OF pass_run.prems(1) scheduler_resume_runs [OF u(1,2)]] u(3) \<open>p \<le> q\<close> False pass_run.prems(4) by simp
    then show ?thesis by simp
  qed simp
qed

lemma pass_sorted:
  assumes "sched_pass E m s ps t" "fair_env E q" "runs m s (picked i s)"
  shows "sorted_wrt (<) ps \<and> (\<forall>p \<in> set ps. i \<le> p \<and> p < NPROC)"
  using assms
proof (induction arbitrary: i rule: sched_pass.induct)
  case (pass_run m s p t u ps v)
  then have p: "i \<le> p" "p < NPROC" "dispatched p t" by (auto simp: runs_def picked_def)
  then have u: "in_sched u" "procs_ok u" using pass_run.prems(1) pass_run.hyps(2) unfolding fair_env_def by auto
  have "sorted_wrt (<) ps \<and> (\<forall>r \<in> set ps. Suc p \<le> r \<and> r < NPROC)"
    using pass_run.IH [OF pass_run.prems(1) scheduler_resume_runs [OF u]] .
  then show ?case using p by fastforce
qed simp

text \<open>C15: a runnable process gets the CPU. If every process that is dispatched gives the CPU back with
  the process-table lock held and the others left runnable, a pass of the scheduler over the table ends,
  dispatches each process at most once and in the order of the table, and every process that was
  runnable when the pass began is dispatched in it.\<close>

theorem scheduler_dispatches:
  assumes "unl PtableLock (lk s)" "ncli (mycpu s) = 0" "procs_ok s"
    and "q < NPROC" "pstate (ptable s q) = RUNNABLE" "fair_env E q"
  shows "(\<exists>ps t. sched_pass E scheduler_round s ps t)
    \<and> (\<forall>ps t. sched_pass E scheduler_round s ps t \<longrightarrow> q \<in> set ps \<and> sorted_wrt (<) ps \<and> set ps \<subseteq> {..<NPROC})"
  using pass_exists [OF assms(6) scheduler_round_runs [OF assms(1-3)]]
    pass_order [OF _ assms(6) scheduler_round_runs [OF assms(1-3)] _ assms(4,5)]
    pass_sorted [OF _ assms(6) scheduler_round_runs [OF assms(1-3)]]
  by (auto simp: subset_iff)


definition seg0 :: segdesc where
  "seg0 = SEG 0 0 0 0"

definition smach0 :: smach where
  "smach0 = hmach.extend hmach0 (smach.fields 0 0x80103000 True 0x80107000 44 (\<lambda>_. seg0) 0 0 0 0x80109000 0x80109100)"

lemma smach0_simps [simp]:
  "lk smach0 = lk0" "ptable smach0 = (\<lambda>_. proc0\<lparr>sz := 64, tf := tf proc0\<lparr>tf_esp := 8\<rparr>\<rparr>)" "pmem smach0 = amem0" "kend smach0 = 0x80108000"
  "nextpid smach0 = 1" "forkret_pc smach0 = 0x80103000"
  by (simp_all add: smach0_def smach.defs hmach0_def hmach.defs fmach0_def fmach.defs imach.defs imach0_def
    cmach0_def rmach.defs cmach.defs rmach0_def lmach.defs lmach0_def amach0_def)

theorem scheduler_dispatches_witness:
  "\<exists>ps t. sched_pass (\<lambda>p t u. u = set_proc p (\<lambda>x. x\<lparr>pstate := RUNNABLE\<rparr>) t) scheduler_round
       (smach0\<lparr>ptable := (\<lambda>_. proc0\<lparr>pgdir := 0x80001000, pstate := RUNNABLE\<rparr>)\<rparr>) ps t \<and> 63 \<in> set ps"
proof -
  let ?E = "\<lambda>p t u. u = set_proc p (\<lambda>x. x\<lparr>pstate := RUNNABLE\<rparr>) t"
  have "fair_env ?E 63"
    by (auto simp: fair_env_def dispatched_def in_sched_def procs_ok_def set_proc_def)
  then show ?thesis
    using scheduler_dispatches [of "smach0\<lparr>ptable := (\<lambda>_. proc0\<lparr>pgdir := 0x80001000, pstate := RUNNABLE\<rparr>)\<rparr>" 63 ?E]
    by (force simp: procs_ok_def lk0_def unl_def)
qed

section \<open>Process identifiers\<close>

lemma set_proc_simps:
  "ptable (set_proc i f s) j = (if j = i then f (ptable s i) else ptable s j)"
  "set_proc i f (set_proc i g s) = set_proc i (\<lambda>x. f (g x)) s"
  "lk (set_proc i f s) = lk s" "nextpid (set_proc i f s) = nextpid s" "pmem (set_proc i f s) = pmem s"
  "freelist (set_proc i f s) = freelist s" "kend (set_proc i f s) = kend s"
  by (simp_all add: set_proc_def)

lemma kmem_quiet_set_proc [simp]: "kmem_quiet (set_proc i f s) ps = kmem_quiet s ps"
  by (simp add: kmem_quiet_def kmem_inv_def page_ok_def set_proc_def cong: quiet_cong)

text \<open>The identifiers of the slots in use are distinct, and all were given out.\<close>

definition pid_inv :: "'z pmach_scheme \<Rightarrow> bool" where
  "pid_inv s \<longleftrightarrow> (\<forall>i<NPROC. pstate (ptable s i) \<noteq> UNUSED \<longrightarrow> 0 < pid (ptable s i) \<and> pid (ptable s i) < nextpid s)
     \<and> inj_on (\<lambda>i. pid (ptable s i)) {i. i < NPROC \<and> pstate (ptable s i) \<noteq> UNUSED} \<and> 0 < nextpid s"

lemma pid_inv_new:
  assumes "pid_inv s" "nextpid t = nextpid s + 1" "\<And>j. j \<noteq> i \<Longrightarrow> ptable t j = ptable s j"
    "pstate (ptable t i) = UNUSED \<or> pid (ptable t i) = nextpid s"
  shows "pid_inv t"
proof -
  have a: "0 < pid (ptable s j) \<and> pid (ptable s j) < nextpid s" if "j < NPROC" "pstate (ptable s j) \<noteq> UNUSED" for j
    using assms(1) that by (simp add: pid_inv_def)
  have inj: "pid (ptable s j) = pid (ptable s k) \<Longrightarrow> j = k"
    if "j < NPROC" "k < NPROC" "pstate (ptable s j) \<noteq> UNUSED" "pstate (ptable s k) \<noteq> UNUSED" for j k
    using assms(1) that by (auto simp: pid_inv_def inj_on_def)
  have "j = k" if "j < NPROC" "k < NPROC" "pstate (ptable t j) \<noteq> UNUSED" "pstate (ptable t k) \<noteq> UNUSED"
    "pid (ptable t j) = pid (ptable t k)" for j k
    using that assms(3,4) a inj by (cases "j = i"; cases "k = i") fastforce+
  moreover have "0 < pid (ptable t j) \<and> pid (ptable t j) < nextpid t" if "j < NPROC" "pstate (ptable t j) \<noteq> UNUSED" for j
    using that assms a [of j] by (cases "j = i") (auto simp: pid_inv_def)
  moreover have "0 < nextpid t" using assms(1,2) by (simp add: pid_inv_def)
  ultimately show ?thesis by (auto simp: pid_inv_def inj_on_def)
qed

lemma pid_inv_same: "nextpid t = nextpid s \<Longrightarrow> ptable t = ptable s \<Longrightarrow> pid_inv t = pid_inv s"
  by (simp add: pid_inv_def)

text \<open>The slot that \<open>allocproc\<close> takes: the first unused one.\<close>

definition new_slot :: "'z pmach_scheme \<Rightarrow> nat option" where
  "new_slot s = find (\<lambda>i. pstate (ptable s i) = UNUSED) [0..<NPROC]"



section \<open>Growing and shrinking\<close>

definition switched :: "nat \<Rightarrow> nat \<Rightarrow> 'z smach_scheme \<Rightarrow> 'z smach_scheme" where
  "switched c p s = s\<lparr>gdt := (gdt s)(SEG_TSS := (SEG16 STS_T32A (ts_addr s) (ts_size - 1) 0)\<lparr>seg_s := 0\<rparr>),
     ts_ss0 := sel SEG_KDATA, esp0 := kstack (ptable s c) + KSTACKSIZE, task_reg := sel SEG_TSS,
     cr3 := v2p (pgdir (ptable s p))\<rparr>"

lemma pop_push:
  assumes "wf_cli (lk s)" "lk t = set_cpu (\<lambda>c. c\<lparr>iflag := False, ncli := ncli c + 1,
     intena := (if ncli c = 0 then iflag c else intena c)\<rparr>) (lk s)"
  shows "popcli t = Ok () (t\<lparr>lk := lk s\<rparr>)"
proof -
  have "set_cpu (\<lambda>c. c\<lparr>ncli := ncli c - 1, iflag := (ncli c = 1 \<and> intena c)\<rparr>) (lk t) = lk s"
    unfolding assms(2) set_cpu_simps using assms(1) by (intro set_cpu_id) (auto simp: wf_cli_def Let_def)
  then show ?thesis using assms by (subst popcli_run) (auto simp: wf_cli_def Let_def)
qed

lemma switchuvm_run:
  assumes "wf_cli (lk s)" "curproc s = Some c" "pgdir (ptable s p) \<noteq> 0"
  shows "switchuvm p s = Ok () (switched c p s)"
  using assms
  by (simp add: switchuvm_def getproc_run pushcli_run lcr3_def switched_def pop_push [OF assms(1)])

lemma uspace_switched [simp]: "uspace (switched c p s) ps d T us data = uspace s ps d T us data"
  by (simp add: uspace_def pgd_inv_def tabs_ok_def own_ok_def page_ok_def kmem_quiet_def kmem_inv_def switched_def
    cong: quiet_cong)

lemma uspace_set_proc [simp]: "uspace (set_proc i f s) ps d T us data = uspace s ps d T us data"
  by (simp add: uspace_def pgd_inv_def tabs_ok_def own_ok_def page_ok_def kmem_quiet_def kmem_inv_def set_proc_def
    cong: quiet_cong)

lemma uspace_transfer:
  assumes "uspace s ps d T us data" "pmem t = pmem s" "freelist t = freelist s" "kend t = kend s" "quiet t"
  shows "uspace t ps d T us data"
  using assms by (simp add: uspace_def pgd_inv_def tabs_ok_def own_ok_def page_ok_def kmem_quiet_def kmem_inv_def)

lemma vframe_pmach:
  fixes s t :: "'z pmach_scheme"
  assumes "vframe s t"
  shows "ptable t = ptable s" "lk t = lk s"
proof -
  have "ptable (vrest t) = ptable (vrest s)" using assms by (simp add: vframe_def)
  then show "ptable t = ptable s" by (simp add: vrest_def)
  show "lk t = lk s" using assms vrest_sel(2) [of s] vrest_sel(2) [of t] by (simp add: vframe_def)
qed

text \<open>C37: shrinking a process frees exactly the pages above the new size. The size of the process and the
  result are right except for a shrink to nothing: then all memory is gone, but growproc takes the new size
  0 for the error result of deallocuvm, keeps the old size and returns -1.\<close>

theorem growproc_shrinks:
  fixes n :: u32
  assumes "uspace s ps (pgdir (ptable s p)) T us data" "curproc s = Some p" "sz (ptable s p) \<le> KERNBASE"
    "length us = npages (sz (ptable s p))" "sint n < 0" "unat (- n) \<le> unat (sz (ptable s p))"
  defines "new \<equiv> sz (ptable s p) + n"
  shows "\<exists>t. growproc n s = Ok (if new = 0 then - 1 else 0) t
    \<and> uspace t (rev (map fst (drop (npages new) us)) @ ps) (pgdir (ptable s p)) T (take (npages new) us) data
    \<and> sz (ptable t p) = (if new = 0 then sz (ptable s p) else new)
    \<and> new < sz (ptable s p)"
proof -
  let ?x = "ptable s p"
  have n: "n \<noteq> 0" "unat (- n) \<noteq> 0" using assms(5) by (auto simp: unat_eq_0)
  have "new = sz ?x - (- n)" by (simp add: new_def)
  then have u: "unat new = unat (sz ?x) - unat (- n)"
    using assms(6) by (simp add: unat_sub word_le_nat_alt del: diff_minus_eq_add)
  then have lt: "new < sz ?x" using n(2) assms(6) by (simp add: word_less_nat_alt)
  obtain t where t: "deallocuvm (pgdir ?x) (sz ?x) new s = Ok new t"
    "uspace t (rev (map fst (drop (npages new) us)) @ ps) (pgdir ?x) T (take (npages new) us) data" "vframe s t"
    using deallocuvm_run [OF assms(1) assms(3) lt] assms(4) by auto
  note v = vframe_pmach [OF t(3)]
  have d: "pgdir ?x \<noteq> 0" "wf_cli (lk s)"
    using assms(1) page_ok_nz by (auto simp: uspace_def pgd_inv_def tabs_ok_def kmem_quiet_def)
  have "growproc n s = (if new = 0 then Ok (- 1) t else Ok 0 (switched p p (set_proc p (\<lambda>x. x\<lparr>sz := new\<rparr>) t)))"
    using assms(2,5) t(1) v d n(1) switchuvm_run [of "set_proc p (\<lambda>x. x\<lparr>sz := new\<rparr>) t" p p]
    by (simp add: growproc_def new_def set_proc_def)
  moreover have "sz (ptable (switched p p (set_proc p (\<lambda>x. x\<lparr>sz := new\<rparr>) t)) p) = new"
    by (simp add: switched_def set_proc_def)
  ultimately show ?thesis using t(2) lt v by (cases "new = 0") auto
qed

theorem growproc_shrinks_witness:
  "\<exists>(s :: smach) t. sz (ptable s 0) = 8192 \<and> growproc (- 4096) s = Ok 0 t \<and> sz (ptable t 0) = 4096
     \<and> (\<exists>t. growproc (- 8192) s = Ok (- 1) t \<and> sz (ptable t 0) = 8192)"
proof -
  obtain u :: vmach and ps d T us where u: "uspace u ps d T us (kdata u)" "length us = 2" using vm_user by blast
  define s where "s = smach0\<lparr>pmem := pmem u, freelist := freelist u, kend := kend u,
    ptable := (\<lambda>_. proc0\<lparr>pgdir := d, sz := 8192\<rparr>)\<rparr>"
  have "uspace s ps d T us (kdata u)"
    by (rule uspace_transfer [OF u(1)]) (simp_all add: s_def quiet_lk0)
  then have s: "uspace s ps (pgdir (ptable s 0)) T us (kdata u)" "sz (ptable s 0) = 8192" by (simp_all add: s_def)
  have c: "curproc s = Some 0" by (simp add: s_def lk0_def)
  have np: "npages 8192 = 2" by (simp add: npages_def)
  note g = growproc_shrinks [OF s(1) c, unfolded s(2) np, OF _ u(2)]
  have "\<exists>t. growproc (- 4096) s = Ok 0 t \<and> sz (ptable t 0) = 4096" using g [of "- 4096"] by (auto simp: sint_unat)
  moreover have "\<exists>t. growproc (- 8192) s = Ok (- 1) t \<and> sz (ptable t 0) = 8192" using g [of "- 8192"] by (auto simp: sint_unat)
  ultimately show ?thesis using s(2) by blast
qed

end
