(* ===== verification/Exec.thy ===== *)
theory Exec
  imports Life
begin

text \<open>
  \<^verbatim>\<open>exec.c\<close> with \<open>loaduvm\<close> of \<^verbatim>\<open>vm.c\<close>: replacing the memory of the current process by a program from the
  file system. The path and the arguments are lists of characters; \<open>junk\<close> is what the kernel stack
  holds where \<open>exec\<close> keeps the ELF header before it is read.
\<close>

section \<open>Operations\<close>

fun loaduvm_loop :: "nat \<Rightarrow> u32 \<Rightarrow> u32 \<Rightarrow> nat \<Rightarrow> u32 \<Rightarrow> u32 \<Rightarrow> u32 \<Rightarrow> ('z imach_scheme, int) kern" where
  "loaduvm_loop 0 d addr ip offset size' i = spink"
| "loaduvm_loop (Suc fuel) d addr ip offset size' i =
     (if \<not> i < size' then retk 0 else
      bindk (walkpgdir d (addr + i) False) (\<lambda>pte.
      if pte = 0 then panic ''loaduvm: address should exist'' else
      bindk (load32 pte) (\<lambda>w.
      let n = (if size' - i < PGSIZE then size' - i else PGSIZE) in
      bindk (readi ip (Va (p2v (PTE_ADDR w))) (offset + i) n) (\<lambda>(r, _).
      if word_of_int r \<noteq> n then retk (-1)
      else loaduvm_loop fuel d addr ip offset size' (i + PGSIZE)))))"

definition loaduvm :: "u32 \<Rightarrow> u32 \<Rightarrow> nat \<Rightarrow> u32 \<Rightarrow> u32 \<Rightarrow> ('z imach_scheme, int) kern" where
  "loaduvm d addr ip offset size' =
     (if addr mod PGSIZE \<noteq> 0 then panic ''loaduvm: addr must be page aligned''
      else loaduvm_loop page_fuel d addr ip offset size' 0)"

text \<open>The fields of \<open>struct elfhdr\<close> and \<open>struct proghdr\<close> that are used.\<close>

record elfhdr =
  e_magic :: u32
  e_entry :: u32
  e_phoff :: u32
  e_phnum :: u16

definition elfhdr_size :: u32 where [simp]: "elfhdr_size = 52"

definition get_elfhdr :: "bytes \<Rightarrow> elfhdr" where
  "get_elfhdr d = \<lparr>e_magic = get32 d 0, e_entry = get32 d 24, e_phoff = get32 d 28, e_phnum = get16 d 44\<rparr>"

record proghdr =
  p_type :: u32
  p_off :: u32
  p_vaddr :: u32
  p_filesz :: u32
  p_memsz :: u32

definition proghdr_size :: u32 where [simp]: "proghdr_size = 32"

definition get_proghdr :: "bytes \<Rightarrow> proghdr" where
  "get_proghdr d = \<lparr>p_type = get32 d 0, p_off = get32 d 4, p_vaddr = get32 d 8,
     p_filesz = get32 d 16, p_memsz = get32 d 20\<rparr>"

definition ELF_MAGIC :: u32 where [simp]: "ELF_MAGIC = 0x464C457F"
definition ELF_PROG_LOAD :: u32 where [simp]: "ELF_PROG_LOAD = 1"

text \<open>The loop over the program headers: the size reached, or \<open>None\<close> for the jump to \<open>bad\<close>.\<close>

fun exec_load :: "nat \<Rightarrow> nat \<Rightarrow> u32 \<Rightarrow> u32 \<Rightarrow> u32 \<Rightarrow> ('z imach_scheme, u32 option) kern" where
  "exec_load 0 ip d off size' = retk (Some size')"
| "exec_load (Suc n) ip d off size' =
     bindk (readi ip (Obj (\<lambda>_. 0)) off proghdr_size) (\<lambda>(r, p).
     if word_of_int r \<noteq> proghdr_size then retk None else
     let ph = get_proghdr (obj_bytes p) in
     if p_type ph \<noteq> ELF_PROG_LOAD then exec_load n ip d (off + proghdr_size) size' else
     if p_memsz ph < p_filesz ph then retk None else
     bindk (allocuvm d size' (p_vaddr ph + p_memsz ph)) (\<lambda>size'.
     if size' = 0 then retk None else
     bindk (loaduvm d (p_vaddr ph) ip (p_off ph) (p_filesz ph)) (\<lambda>r.
     if r < 0 then retk None else exec_load n ip d (off + proghdr_size) size')))"

text \<open>The loop that pushes the arguments, with the stack pointer and the addresses so far.\<close>

fun exec_args :: "u8 list list \<Rightarrow> nat \<Rightarrow> u32 \<Rightarrow> u32 \<Rightarrow> u32 list \<Rightarrow> ('z vmach_scheme, (u32 \<times> u32 list) option) kern" where
  "exec_args [] argc d sp ust = retk (Some (sp, ust))"
| "exec_args (a # as) argc d sp ust =
     (if MAXARG \<le> argc then retk None else
      let sp = (sp - (of_nat (length a) + 1)) AND NOT 3 in
      bindk (copyout d sp (lbytes a) (of_nat (length a) + 1)) (\<lambda>r.
      if r < 0 then retk None else exec_args as (Suc argc) d sp (ust @ [sp])))"

text \<open>An array of words as bytes.\<close>

definition word_bytes :: "u32 list \<Rightarrow> bytes" where
  "word_bytes ws = (\<lambda>i. if i div 4 < length ws then ucast (drop_bit (8 * (i mod 4)) (ws ! (i div 4))) else 0)"

definition exec_bad :: "u32 \<Rightarrow> nat option \<Rightarrow> ('z imach_scheme, int) kern" where
  "exec_bad d ip =
     thenk (whenk (d \<noteq> 0) (freevm d))
     (thenk (case ip of None \<Rightarrow> retk () | Some i \<Rightarrow> iunlockput i)
     (retk (-1)))"

text \<open>The characters after the last slash.\<close>

definition base_name :: "u8 list \<Rightarrow> u8 list" where
  "base_name path = rev (takeWhile (\<lambda>c. c \<noteq> 47) (rev path))"

text \<open>The part of \<open>exec\<close> after the program has been loaded: stack, arguments, and the switch.\<close>

definition exec_stack :: "u8 list \<Rightarrow> u8 list list \<Rightarrow> u32 \<Rightarrow> u32 \<Rightarrow> u32 \<Rightarrow> ('z smach_scheme, int) kern" where
  "exec_stack path argv entry d size' =
     (let size' = PGROUNDUP size' in
      bindk (allocuvm d size' (size' + 2 * PGSIZE)) (\<lambda>size'.
      if size' = 0 then exec_bad d None else
      thenk (clearpteu d (size' - 2 * PGSIZE))
      (bindk (exec_args argv 0 d size' []) (\<lambda>r.
      case r of None \<Rightarrow> exec_bad d None | Some (sp, ust) \<Rightarrow>
      let argc = of_nat (length ust);
          ustack = [0xFFFFFFFF, argc, sp - (argc + 1) * 4] @ ust @ [0];
          sp = sp - (3 + argc + 1) * 4 in
      bindk (copyout d sp (word_bytes ustack) ((3 + argc + 1) * 4)) (\<lambda>r.
      if r < 0 then exec_bad d None else
      thenk (upd_proc (\<lambda>x. x\<lparr>pname := copy_name (lbytes (base_name path)) (pname x)\<rparr>))
      (bindk (readk curproc) (\<lambda>c.
      case c of None \<Rightarrow> panic ''null proc'' | Some p \<Rightarrow>
      bindk (getproc pgdir) (\<lambda>old.
      thenk (upd_proc (\<lambda>x. x\<lparr>pgdir := d, sz := size', tf := (tf x)\<lparr>tf_eip := entry, tf_esp := sp\<rparr>\<rparr>))
      (thenk (switchuvm p)
      (thenk (freevm old)
      (retk 0)))))))))))"

text \<open>The test of the size of the header compares unsigned numbers, so an error of \<open>readi\<close> passes it.\<close>

definition exec :: "bytes \<Rightarrow> u8 list \<Rightarrow> u8 list list \<Rightarrow> ('z smach_scheme, int) kern" where
  "exec junk path argv =
     bindk (namei path) (\<lambda>r.
     case r of None \<Rightarrow> retk (-1) | Some ip \<Rightarrow>
     thenk (ilock ip)
     (bindk (readi ip (Obj junk) 0 elfhdr_size) (\<lambda>(r, p).
     if word_of_int r < elfhdr_size then exec_bad 0 (Some ip) else
     let elf = get_elfhdr (obj_bytes p) in
     if e_magic elf \<noteq> ELF_MAGIC then exec_bad 0 (Some ip) else
     bindk setupkvm (\<lambda>d.
     if d = 0 then exec_bad 0 (Some ip) else
     bindk (exec_load (unat (e_phnum elf)) ip d (e_phoff elf) 0) (\<lambda>l.
     case l of None \<Rightarrow> exec_bad d (Some ip) | Some size' \<Rightarrow>
     thenk (iunlockput ip)
     (exec_stack path argv (e_entry elf) d size'))))))"

end
