(* ===== verification/Sysfile.thy ===== *)
theory Sysfile
  imports Exec
begin

text \<open>
  \<^verbatim>\<open>sysfile.c\<close>: the system calls on files. A string argument is fetched once as the list of its
  characters: user memory is not shared, so it cannot change during the call.
\<close>

section \<open>Arguments\<close>

definition argfd :: "u32 \<Rightarrow> ('z pmach_scheme, (nat \<times> nat) option) kern" where
  "argfd n =
     bindk (argint n) (\<lambda>a.
     case a of None \<Rightarrow> retk None | Some fd \<Rightarrow>
     if sint fd < 0 \<or> int NOFILE \<le> sint fd then retk None else
     bindk (getproc ofile) (\<lambda>fs.
     retk (map_option (\<lambda>f. (unat fd, f)) (fs (unat fd)))))"

definition fdalloc :: "nat \<Rightarrow> ('z pmach_scheme, nat option) kern" where
  "fdalloc f =
     bindk (getproc ofile) (\<lambda>fs.
     case find (\<lambda>fd. fs fd = None) [0..<NOFILE] of
       None \<Rightarrow> retk None
     | Some fd \<Rightarrow> thenk (upd_proc (\<lambda>x. x\<lparr>ofile := (ofile x)(fd := Some f)\<rparr>)) (retk (Some fd)))"

text \<open>\<open>argstr\<close>, and the characters it points to.\<close>

definition argpath :: "u32 \<Rightarrow> ('z pmach_scheme, u8 list option) kern" where
  "argpath n =
     bindk (argstr n) (\<lambda>r.
     case r of None \<Rightarrow> retk None | Some (p, len) \<Rightarrow>
     bindk (vread_bytes p (unat len)) (\<lambda>bs. retk (Some bs)))"

section \<open>Calls on open files\<close>

definition sys_dup :: "('z fmach_scheme, int) kern" where
  "sys_dup =
     bindk (argfd 0) (\<lambda>a.
     case a of None \<Rightarrow> retk (-1) | Some (_, f) \<Rightarrow>
     bindk (fdalloc f) (\<lambda>r.
     case r of None \<Rightarrow> retk (-1) | Some fd \<Rightarrow>
     bindk (filedup f) (\<lambda>_. retk (int fd))))"

definition sys_read :: "('z fmach_scheme, int) kern" where
  "sys_read =
     bindk (argfd 0) (\<lambda>a.
     case a of None \<Rightarrow> retk (-1) | Some (_, f) \<Rightarrow>
     bindk (argint 2) (\<lambda>b.
     case b of None \<Rightarrow> retk (-1) | Some n \<Rightarrow>
     bindk (argptr 1 n) (\<lambda>c.
     case c of None \<Rightarrow> retk (-1) | Some p \<Rightarrow> fileread f p n)))"

definition sys_write :: "('z fmach_scheme, int) kern" where
  "sys_write =
     bindk (argfd 0) (\<lambda>a.
     case a of None \<Rightarrow> retk (-1) | Some (_, f) \<Rightarrow>
     bindk (argint 2) (\<lambda>b.
     case b of None \<Rightarrow> retk (-1) | Some n \<Rightarrow>
     bindk (argptr 1 n) (\<lambda>c.
     case c of None \<Rightarrow> retk (-1) | Some p \<Rightarrow> filewrite f p n)))"

definition sys_close :: "('z fmach_scheme, int) kern" where
  "sys_close =
     bindk (argfd 0) (\<lambda>a.
     case a of None \<Rightarrow> retk (-1) | Some (fd, f) \<Rightarrow>
     thenk (upd_proc (\<lambda>x. x\<lparr>ofile := (ofile x)(fd := None)\<rparr>))
     (thenk (fileclose f)
     (retk 0)))"

definition sys_fstat :: "('z fmach_scheme, int) kern" where
  "sys_fstat =
     bindk (argfd 0) (\<lambda>a.
     case a of None \<Rightarrow> retk (-1) | Some (_, f) \<Rightarrow>
     bindk (argptr 1 stat_size) (\<lambda>b.
     case b of None \<Rightarrow> retk (-1) | Some st \<Rightarrow> filestat f st))"

definition sys_pipe :: "('z fmach_scheme, int) kern" where
  "sys_pipe =
     bindk (argptr 0 8) (\<lambda>a.
     case a of None \<Rightarrow> retk (-1) | Some fd \<Rightarrow>
     bindk pipealloc (\<lambda>r.
     case r of None \<Rightarrow> retk (-1) | Some (rd, wr) \<Rightarrow>
     bindk (fdalloc rd) (\<lambda>r0.
     case r0 of
       None \<Rightarrow> thenk (fileclose rd) (thenk (fileclose wr) (retk (-1)))
     | Some fd0 \<Rightarrow>
         bindk (fdalloc wr) (\<lambda>r1.
         case r1 of
           None \<Rightarrow>
             thenk (upd_proc (\<lambda>x. x\<lparr>ofile := (ofile x)(fd0 := None)\<rparr>))
             (thenk (fileclose rd)
             (thenk (fileclose wr)
             (retk (-1))))
         | Some fd1 \<Rightarrow>
             thenk (vwrite32 fd (of_nat fd0))
             (thenk (vwrite32 (fd + 4) (of_nat fd1))
             (retk 0))))))"

section \<open>Calls on paths\<close>

definition sys_link_bad :: "nat \<Rightarrow> ('z imach_scheme, int) kern" where
  "sys_link_bad ip =
     thenk (ilock ip)
     (thenk (set_ino ip (\<lambda>x. x\<lparr>inlink := inlink x - 1\<rparr>))
     (thenk (iupdate ip)
     (thenk (iunlockput ip)
     (thenk commit_trans
     (retk (-1))))))"

definition sys_link :: "('z imach_scheme, int) kern" where
  "sys_link =
     bindk (argpath 0) (\<lambda>a.
     case a of None \<Rightarrow> retk (-1) | Some old \<Rightarrow>
     bindk (argpath 1) (\<lambda>b.
     case b of None \<Rightarrow> retk (-1) | Some new \<Rightarrow>
     bindk (namei old) (\<lambda>c.
     case c of None \<Rightarrow> retk (-1) | Some ip \<Rightarrow>
     thenk begin_trans
     (thenk (ilock ip)
     (bindk (get_ino ip) (\<lambda>x.
     if itype x = T_DIR then
       thenk (iunlockput ip)
       (thenk commit_trans
       (retk (-1)))
     else
       thenk (set_ino ip (\<lambda>x. x\<lparr>inlink := inlink x + 1\<rparr>))
       (thenk (iupdate ip)
       (thenk (iunlock ip)
       (bindk (nameiparent new) (\<lambda>d.
       case d of None \<Rightarrow> sys_link_bad ip | Some (dp, name) \<Rightarrow>
       thenk (ilock dp)
       (bindk (get_ino dp) (\<lambda>y.
       bindk (if idev y \<noteq> idev x then retk (-1) else dirlink dp name (inum x)) (\<lambda>r.
       if r < 0 then thenk (iunlockput dp) (sys_link_bad ip) else
       thenk (iunlockput dp)
       (thenk (iput ip)
       (thenk commit_trans
       (retk 0))))))))))))))))"

text \<open>The loop of \<open>isdirempty\<close>, from the third entry on.\<close>

fun isdirempty_loop :: "nat \<Rightarrow> nat \<Rightarrow> u32 \<Rightarrow> ('z imach_scheme, bool) kern" where
  "isdirempty_loop 0 dp off = spink"
| "isdirempty_loop (Suc fuel) dp off =
     bindk (get_ino dp) (\<lambda>x.
     if \<not> off < isize x then retk True else
     bindk (readi dp (Obj (\<lambda>_. 0)) off (of_nat dirent_size)) (\<lambda>(r, p).
     if r \<noteq> int dirent_size then panic ''isdirempty: readi'' else
     if de_inum (get_dirent (obj_bytes p)) \<noteq> 0 then retk False
     else isdirempty_loop fuel dp (off + of_nat dirent_size)))"

definition isdirempty :: "nat \<Rightarrow> ('z imach_scheme, bool) kern" where
  "isdirempty dp = isdirempty_loop dir_fuel dp (2 * of_nat dirent_size)"

definition sys_unlink_bad :: "nat \<Rightarrow> ('z imach_scheme, int) kern" where
  "sys_unlink_bad dp = thenk (iunlockput dp) (thenk commit_trans (retk (-1)))"

definition sys_unlink :: "('z imach_scheme, int) kern" where
  "sys_unlink =
     bindk (argpath 0) (\<lambda>a.
     case a of None \<Rightarrow> retk (-1) | Some path \<Rightarrow>
     bindk (nameiparent path) (\<lambda>b.
     case b of None \<Rightarrow> retk (-1) | Some (dp, name) \<Rightarrow>
     thenk begin_trans
     (thenk (ilock dp)
     (if namecmp (lbytes name) (lbytes (str ''.'')) = 0 \<or> namecmp (lbytes name) (lbytes (str ''..'')) = 0
      then sys_unlink_bad dp else
     bindk (dirlookup dp name) (\<lambda>c.
     case c of None \<Rightarrow> sys_unlink_bad dp | Some (ip, off) \<Rightarrow>
     thenk (ilock ip)
     (bindk (get_ino ip) (\<lambda>x.
     if sint (inlink x) < 1 then panic ''unlink: nlink < 1'' else
     bindk (if itype x = T_DIR then isdirempty ip else retk True) (\<lambda>empty.
     if \<not> empty then thenk (iunlockput ip) (sys_unlink_bad dp) else
     bindk (writei dp (Obj (\<lambda>_. 0)) off (of_nat dirent_size)) (\<lambda>r.
     if r \<noteq> int dirent_size then panic ''unlink: writei'' else
     thenk (whenk (itype x = T_DIR)
       (thenk (set_ino dp (\<lambda>y. y\<lparr>inlink := inlink y - 1\<rparr>)) (iupdate dp)))
     (thenk (iunlockput dp)
     (thenk (set_ino ip (\<lambda>y. y\<lparr>inlink := inlink y - 1\<rparr>))
     (thenk (iupdate ip)
     (thenk (iunlockput ip)
     (thenk commit_trans
     (retk 0)))))))))))))))"

definition create :: "u8 list \<Rightarrow> u16 \<Rightarrow> u16 \<Rightarrow> u16 \<Rightarrow> ('z imach_scheme, nat option) kern" where
  "create path type major minor =
     bindk (nameiparent path) (\<lambda>a.
     case a of None \<Rightarrow> retk None | Some (dp, name) \<Rightarrow>
     thenk (ilock dp)
     (bindk (dirlookup dp name) (\<lambda>b.
     case b of
       Some (ip, off) \<Rightarrow>
         thenk (iunlockput dp)
         (thenk (ilock ip)
         (bindk (get_ino ip) (\<lambda>x.
         if type = T_FILE \<and> itype x = T_FILE then retk (Some ip)
         else thenk (iunlockput ip) (retk None))))
     | None \<Rightarrow>
         bindk (get_ino dp) (\<lambda>y.
         bindk (ialloc (idev y) type) (\<lambda>ip.
         thenk (ilock ip)
         (thenk (set_ino ip (\<lambda>x. x\<lparr>imajor := major, iminor := minor, inlink := 1\<rparr>))
         (thenk (iupdate ip)
         (bindk (get_ino ip) (\<lambda>x.
         thenk (whenk (type = T_DIR)
           (thenk (set_ino dp (\<lambda>y. y\<lparr>inlink := inlink y + 1\<rparr>))
           (thenk (iupdate dp)
           (bindk (dirlink ip (str ''.'') (inum x)) (\<lambda>r.
           if r < 0 then panic ''create dots'' else
           bindk (dirlink ip (str ''..'') (inum y)) (\<lambda>r.
           if r < 0 then panic ''create dots'' else retk ()))))))
         (bindk (dirlink dp name (inum x)) (\<lambda>r.
         if r < 0 then panic ''create: dirlink'' else
         thenk (iunlockput dp)
         (retk (Some ip)))))))))))))"

text \<open>The end of \<open>sys_open\<close>: a file structure and a descriptor for the locked inode.\<close>

definition open_inode :: "nat \<Rightarrow> u32 \<Rightarrow> ('z fmach_scheme, int) kern" where
  "open_inode ip omode =
     bindk filealloc (\<lambda>a.
     case a of None \<Rightarrow> thenk (iunlockput ip) (retk (-1)) | Some f \<Rightarrow>
     bindk (fdalloc f) (\<lambda>b.
     case b of None \<Rightarrow> thenk (fileclose f) (thenk (iunlockput ip) (retk (-1))) | Some fd \<Rightarrow>
     thenk (iunlock ip)
     (thenk (set_file f (\<lambda>x. x\<lparr>ft := FD_INODE, fip := ip, foff := 0, readable := (omode AND O_WRONLY = 0),
        writable := (omode AND O_WRONLY \<noteq> 0 \<or> omode AND O_RDWR \<noteq> 0)\<rparr>))
     (retk (int fd)))))"

definition sys_open :: "('z fmach_scheme, int) kern" where
  "sys_open =
     bindk (argpath 0) (\<lambda>a.
     case a of None \<Rightarrow> retk (-1) | Some path \<Rightarrow>
     bindk (argint 1) (\<lambda>b.
     case b of None \<Rightarrow> retk (-1) | Some omode \<Rightarrow>
     if omode AND O_CREATE \<noteq> 0 then
       thenk begin_trans
       (bindk (create path T_FILE 0 0) (\<lambda>r.
       thenk commit_trans
       (case r of None \<Rightarrow> retk (-1) | Some ip \<Rightarrow> open_inode ip omode)))
     else
       bindk (namei path) (\<lambda>r.
       case r of None \<Rightarrow> retk (-1) | Some ip \<Rightarrow>
       thenk (ilock ip)
       (bindk (get_ino ip) (\<lambda>x.
       if itype x = T_DIR \<and> omode \<noteq> O_RDONLY then thenk (iunlockput ip) (retk (-1))
       else open_inode ip omode)))))"

text \<open>The common end of \<open>sys_mkdir\<close> and \<open>sys_mknod\<close>.\<close>

definition made :: "nat option \<Rightarrow> ('z imach_scheme, int) kern" where
  "made r =
     (case r of
        None \<Rightarrow> thenk commit_trans (retk (-1))
      | Some ip \<Rightarrow> thenk (iunlockput ip) (thenk commit_trans (retk 0)))"

definition sys_mkdir :: "('z imach_scheme, int) kern" where
  "sys_mkdir =
     thenk begin_trans
     (bindk (argpath 0) (\<lambda>a.
     case a of None \<Rightarrow> made None | Some path \<Rightarrow>
     bindk (create path T_DIR 0 0) made))"

definition sys_mknod :: "('z imach_scheme, int) kern" where
  "sys_mknod =
     thenk begin_trans
     (bindk (argpath 0) (\<lambda>a.
     case a of None \<Rightarrow> made None | Some path \<Rightarrow>
     bindk (argint 1) (\<lambda>b.
     case b of None \<Rightarrow> made None | Some major \<Rightarrow>
     bindk (argint 2) (\<lambda>c.
     case c of None \<Rightarrow> made None | Some minor \<Rightarrow>
     bindk (create path T_DEV (ucast major) (ucast minor)) made))))"

definition sys_chdir :: "('z imach_scheme, int) kern" where
  "sys_chdir =
     bindk (argpath 0) (\<lambda>a.
     case a of None \<Rightarrow> retk (-1) | Some path \<Rightarrow>
     bindk (namei path) (\<lambda>r.
     case r of None \<Rightarrow> retk (-1) | Some ip \<Rightarrow>
     thenk (ilock ip)
     (bindk (get_ino ip) (\<lambda>x.
     if itype x \<noteq> T_DIR then thenk (iunlockput ip) (retk (-1)) else
     thenk (iunlock ip)
     (bindk (getproc cwd) (\<lambda>w.
     thenk (case w of None \<Rightarrow> panic ''null cwd'' | Some old \<Rightarrow> iput old)
     (thenk (upd_proc (\<lambda>x. x\<lparr>cwd := Some ip\<rparr>))
     (retk 0))))))))"

text \<open>The loop of \<open>sys_exec\<close>: at most \<open>MAXARG\<close> argument strings, with the null pointer after them.\<close>

fun exec_argv :: "nat \<Rightarrow> u32 \<Rightarrow> ('z pmach_scheme, u8 list list option) kern" where
  "exec_argv 0 uargv = retk None"
| "exec_argv (Suc n) uargv =
     bindk (fetchint uargv) (\<lambda>a.
     case a of None \<Rightarrow> retk None | Some uarg \<Rightarrow>
     if uarg = 0 then retk (Some []) else
     bindk (fetchstr uarg) (\<lambda>b.
     case b of None \<Rightarrow> retk None | Some (p, len) \<Rightarrow>
     bindk (vread_bytes p (unat len)) (\<lambda>bs.
     bindk (exec_argv n (uargv + 4)) (\<lambda>r.
     retk (map_option (Cons bs) r)))))"

definition sys_exec :: "bytes \<Rightarrow> ('z smach_scheme, int) kern" where
  "sys_exec junk =
     bindk (argpath 0) (\<lambda>a.
     case a of None \<Rightarrow> retk (-1) | Some path \<Rightarrow>
     bindk (argint 1) (\<lambda>b.
     case b of None \<Rightarrow> retk (-1) | Some uargv \<Rightarrow>
     bindk (exec_argv MAXARG uargv) (\<lambda>c.
     case c of None \<Rightarrow> retk (-1) | Some argv \<Rightarrow> exec junk path argv)))"

end
