(* ===== verification/Trap.thy ===== *)
theory Trap
  imports Sysfile
begin

text \<open>
  \<^verbatim>\<open>syscall.c\<close> and \<^verbatim>\<open>trap.c\<close>: the table of system calls, their dispatch, and the handler of traps and
  interrupts.

  \<^verbatim>\<open>sys_random\<close> returns a floating-point number, which the calling convention passes in a register of
  the floating-point unit, while the table declares a function returning \<^verbatim>\<open>int\<close>: the dispatcher takes
  the value that happens to be in \<^verbatim>\<open>eax\<close>, the field \<open>random_eax\<close> of the state. The entry points of
  \<^verbatim>\<open>vectors.S\<close>, a generated file, are the field \<open>vectors\<close>; \<open>cr2\<close> is the register with the address of
  the last page fault, \<open>exec_junk\<close> what \<open>exec\<close> finds in its uninitialised buffers.
\<close>

record gatedesc =
  off_15_0 :: "16 word"
  gate_cs :: "16 word"
  gate_args :: "5 word"
  gate_rsv1 :: "3 word"
  gate_type :: "4 word"
  gate_s :: "1 word"
  gate_dpl :: "2 word"
  gate_p :: "1 word"
  off_31_16 :: "16 word"

record tmach = smach +
  idt :: "nat \<Rightarrow> gatedesc"
  idtr :: bool
  vectors :: "nat \<Rightarrow> u32"
  cr2 :: u32
  random_eax :: u32
  exec_junk :: bytes

section \<open>System calls\<close>

definition NSYSCALL :: int where [simp]: "NSYSCALL = 26"

definition syscalls :: "int \<Rightarrow> ('z tmach_scheme, u32) kern option" where
  "syscalls num =
     (let ret = (\<lambda>f. bindk f (\<lambda>r. retk (word_of_int r))) in
      if num = 1 then Some (ret sys_fork)
      else if num = 2 then Some (ret sys_exit)
      else if num = 3 then Some (ret sys_wait)
      else if num = 4 then Some (ret sys_pipe)
      else if num = 5 then Some (ret sys_read)
      else if num = 6 then Some (ret sys_kill)
      else if num = 7 then Some (bindk (readk exec_junk) (\<lambda>j. ret (sys_exec j)))
      else if num = 8 then Some (ret sys_fstat)
      else if num = 9 then Some (ret sys_chdir)
      else if num = 10 then Some (ret sys_dup)
      else if num = 11 then Some (ret sys_getpid)
      else if num = 12 then Some (ret sys_sbrk)
      else if num = 13 then Some (ret sys_sleep)
      else if num = 14 then Some (ret sys_uptime)
      else if num = 15 then Some (ret sys_open)
      else if num = 16 then Some (ret sys_write)
      else if num = 17 then Some (ret sys_mknod)
      else if num = 18 then Some (ret sys_unlink)
      else if num = 19 then Some (ret sys_link)
      else if num = 20 then Some (ret sys_mkdir)
      else if num = 21 then Some (ret sys_close)
      else if num = 22 then Some (thenk (bindk sys_random (\<lambda>_. retk ())) (readk random_eax))
      else if num = 23 then Some (ret sys_random_set)
      else if num = 24 then Some (ret sys_change_seed)
      else if num = 25 then Some (ret sys_actual_seed)
      else None)"

text \<open>The comparison with \<^verbatim>\<open>NELEM(syscalls)\<close> is unsigned; it matters only for numbers that the first
  test has excluded.\<close>

definition syscall :: "('z tmach_scheme, unit) kern" where
  "syscall =
     bindk (getproc tf) (\<lambda>f.
     let num = sint (tf_eax f) in
     case (if 0 < num \<and> num < NSYSCALL then syscalls num else None) of
       Some call \<Rightarrow>
         bindk call (\<lambda>r.
         upd_proc (\<lambda>x. x\<lparr>tf := (tf x)\<lparr>tf_eax := r\<rparr>\<rparr>))
     | None \<Rightarrow>
         bindk (getproc (\<lambda>x. (pid x, pname x))) (\<lambda>(i, nm).
         thenk (cprintf (str ''%d %s: unknown sys call %d'' @ [10])
           [CInt (word_of_int i), CStr (name_chars nm), CInt (tf_eax f)])
         (upd_proc (\<lambda>x. x\<lparr>tf := (tf x)\<lparr>tf_eax := - 1\<rparr>\<rparr>))))"

section \<open>Traps\<close>

definition T_SYSCALL :: u32 where [simp]: "T_SYSCALL = 64"

definition cpuid :: "('z hmach_scheme, u32) kern" where
  "cpuid = readk (\<lambda>s. ucast (cpu_id s (int (me (lk s)))))"

text \<open>A process that was killed does not go back to user space.\<close>

definition exit_killed :: "trapframe \<Rightarrow> ('z smach_scheme, unit) kern" where
  "exit_killed f =
     bindk (readk curproc) (\<lambda>c.
     case c of None \<Rightarrow> retk () | Some p \<Rightarrow>
     bindk (readk (\<lambda>s. killed (ptable s p))) (\<lambda>k.
     whenk (k \<and> tf_cs f AND 3 = DPL_USER) exit))"

definition trap_tick :: "('z smach_scheme, unit) kern" where
  "trap_tick =
     bindk cpuid (\<lambda>i.
     whenk (i = 0)
       (thenk (acquire TicksLock)
       (thenk (modk (\<lambda>s. s\<lparr>ticks := ticks s + 1\<rparr>))
       (thenk (wakeup ChTicks)
       (release TicksLock)))))"

definition ideintr :: "('z hmach_scheme, unit) kern" where
  "ideintr = retk ()"

definition trap_default :: "trapframe \<Rightarrow> ('z tmach_scheme, unit) kern" where
  "trap_default f =
     bindk (readk curproc) (\<lambda>c.
     bindk (readk cr2) (\<lambda>addr.
     bindk cpuid (\<lambda>i.
     if c = None \<or> tf_cs f AND 3 = 0 then
       thenk (cprintf (str ''unexpected trap %d from cpu %d eip %x (cr2=0x%x)'' @ [10])
         [CInt (tf_trapno f), CInt i, CInt (tf_eip f), CInt addr])
       (panic ''trap'')
     else
       bindk (getproc (\<lambda>x. (pid x, pname x))) (\<lambda>(n, nm).
       thenk (cprintf (str ''pid %d %s: trap %d err %d on cpu %d eip 0x%x addr 0x%x--kill proc'' @ [10])
         [CInt (word_of_int n), CStr (name_chars nm), CInt (tf_trapno f), CInt (tf_err f), CInt i,
          CInt (tf_eip f), CInt addr])
       (upd_proc (\<lambda>x. x\<lparr>killed := True\<rparr>))))))"

text \<open>The \<^verbatim>\<open>switch\<close> of \<open>trap\<close>.\<close>

definition trap_switch :: "trapframe \<Rightarrow> ('z tmach_scheme, unit) kern" where
  "trap_switch f =
     (let n = tf_trapno f in
      if n = T_IRQ0 + IRQ_TIMER then thenk trap_tick lapiceoi
      else if n = T_IRQ0 + IRQ_IDE then thenk ideintr lapiceoi
      else if n = T_IRQ0 + IRQ_IDE + 1 then retk ()
      else if n = T_IRQ0 + IRQ_KBD then thenk kbdintr lapiceoi
      else if n = T_IRQ0 + IRQ_COM1 then thenk uartintr lapiceoi
      else if n = T_IRQ0 + 7 \<or> n = T_IRQ0 + IRQ_SPURIOUS then
        bindk cpuid (\<lambda>i.
        thenk (cprintf (str ''cpu%d: spurious interrupt at %x:%x'' @ [10])
          [CInt i, CInt (ucast (tf_cs f)), CInt (tf_eip f)])
        lapiceoi)
      else trap_default f)"

definition trap_yields :: "trapframe \<Rightarrow> 'z pmach_scheme \<Rightarrow> bool" where
  "trap_yields f s \<longleftrightarrow>
     (case curproc s of None \<Rightarrow> False
      | Some p \<Rightarrow> pstate (ptable s p) = RUNNING \<and> tf_trapno f = T_IRQ0 + IRQ_TIMER)"

definition trap :: "trapframe \<Rightarrow> ('z tmach_scheme, unit) kern" where
  "trap f =
     (if tf_trapno f = T_SYSCALL then
        bindk (getproc killed) (\<lambda>k.
        thenk (whenk k exit)
        (thenk (upd_proc (\<lambda>x. x\<lparr>tf := f\<rparr>))
        (thenk syscall
        (bindk (getproc killed) (\<lambda>k.
        whenk k exit)))))
      else
        thenk (trap_switch f)
        (thenk (exit_killed f)
        (bindk (readk (trap_yields f)) (\<lambda>y.
        thenk (whenk y yield)
        (exit_killed f)))))"

text \<open>The end of \<open>yield\<close> and of \<open>trap\<close>, when the process runs again.\<close>

definition trap_resume :: "trapframe \<Rightarrow> ('z smach_scheme, unit) kern" where
  "trap_resume f = thenk (release PtableLock) (exit_killed f)"

section \<open>Returning from traps\<close>

lemma exit_not_Ok [simp]: "exit s \<noteq> Ok x t"
  by (auto simp: exit_def split: option.splits if_splits)

lemma exit_killed_Ok:
  assumes "exit_killed f s = Ok u t"
  shows "t = s" "tf_cs f AND 3 = DPL_USER \<Longrightarrow> curproc s = Some p \<Longrightarrow> \<not> killed (ptable s p)"
  using assms by (auto simp: exit_killed_def split: option.splits elim!: whenk_OkE)

text \<open>The interrupts that \<open>trap\<close> knows.\<close>

definition unexpected :: "trapframe \<Rightarrow> bool" where
  "unexpected f \<longleftrightarrow> tf_trapno f \<notin> {T_SYSCALL, T_IRQ0 + IRQ_TIMER, T_IRQ0 + IRQ_IDE, T_IRQ0 + IRQ_IDE + 1,
     T_IRQ0 + IRQ_KBD, T_IRQ0 + IRQ_COM1, T_IRQ0 + 7, T_IRQ0 + IRQ_SPURIOUS}"

lemma trap_alive:
  assumes "trap f s = Ok () t" "tf_trapno f = T_SYSCALL \<or> tf_cs f AND 3 = DPL_USER" "curproc t = Some p"
  shows "\<not> killed (ptable t p)"
proof (cases "tf_trapno f = T_SYSCALL")
  case True
  then obtain k u v where "getproc killed u = Ok k v" "whenk k exit v = Ok () t"
    using assms(1) by (auto simp: trap_def)
  then show ?thesis using assms(3) by (auto simp: getproc_def split: option.splits elim!: whenk_OkE)
next
  case False
  then obtain u where u: "exit_killed f u = Ok () t" using assms(1) by (auto simp: trap_def)
  then show ?thesis using exit_killed_Ok [OF u] assms(2,3) False by auto
qed

lemma trap_default_kernel:
  assumes "can_print s" "tf_cs f AND 3 = 0 \<or> curproc s = None"
  shows "trap_default f s = Panic ''trap''"
proof -
  have "fmt_ok (str ''unexpected trap %d from cpu %d eip %x (cr2=0x%x)'' @ [10]) [CInt a, CInt b, CInt c, CInt d]" for a b c d
    by (simp add: str_def)
  then obtain t where "cprintf (str ''unexpected trap %d from cpu %d eip %x (cr2=0x%x)'' @ [10])
      [CInt (tf_trapno f), CInt (ucast (cpu_id s (int (me (lk s))))), CInt (tf_eip f), CInt (cr2 s)] s = Ok () t"
    using cprintf_out [OF assms(1)] by blast
  then show ?thesis using assms(2) by (auto simp: trap_default_def cpuid_def)
qed

lemma trap_default_user:
  assumes "can_print s" "tf_cs f AND 3 = DPL_USER" "curproc s = Some p"
  shows "\<exists>t. trap_default f s = Ok () t \<and> curproc t = Some p \<and> killed (ptable t p)"
proof -
  have "fmt_ok (str ''pid %d %s: trap %d err %d on cpu %d eip 0x%x addr 0x%x--kill proc'' @ [10])
      [CInt a, CStr b, CInt c, CInt d, CInt e, CInt g, CInt h]" for a b c d e g h
    by (simp add: str_def)
  then obtain t where "cprintf (str ''pid %d %s: trap %d err %d on cpu %d eip 0x%x addr 0x%x--kill proc'' @ [10])
      [CInt (word_of_int (pid (ptable s p))), CStr (name_chars (pname (ptable s p))), CInt (tf_trapno f),
       CInt (tf_err f), CInt (ucast (cpu_id s (int (me (lk s))))), CInt (tf_eip f), CInt (cr2 s)] s = Ok () t"
     "out_only s t"
    using cprintf_out [OF assms(1)] by blast
  then show ?thesis
    using assms(2,3) out_only_same [of s t] by (simp add: trap_default_def cpuid_def getproc_run upd_proc_def set_proc_def)
qed



section \<open>The clock\<close>

definition ticked :: "'z smach_scheme \<Rightarrow> 'z smach_scheme" where
  "ticked s = (if cpu_id s (int (me (lk s))) = 0
     then s\<lparr>ticks := ticks s + 1, ptable := wake (Some ChTicks) (ptable s)\<rparr> else s)"

lemma ucast_u8_0: "ucast (w :: u8) = (0 :: u32) \<longleftrightarrow> w = 0"
proof -
  have "unat w < 2 ^ LENGTH(8)" by (rule unsigned_less)
  then have "unat (ucast w :: u32) = unat w" by (simp add: unsigned_ucast_eq take_bit_nat_eq_self)
  then show ?thesis by (simp add: word_unat_eq_iff)
qed

lemma trap_tick_run: "quiet s \<Longrightarrow> trap_tick s = Ok () (ticked s)"
proof -
  assume q: "quiet s"
  have "ucast (cpu_id s (int (me (lk s)))) = (0 :: u32) \<longleftrightarrow> cpu_id s (int (me (lk s))) = 0"
    using ucast_u8_0 .
  then show ?thesis
    using q by (auto simp: trap_tick_def cpuid_def acquire_ok wakeup_run release_acq ticked_def whenk_def)
qed

lemma lapiceoi_run: "\<exists>r w. lapiceoi s = Ok () (s\<lparr>lregs := r, lwrites := w\<rparr>)"
proof (cases "lapic s = 0")
  case True
  then have "lapiceoi s = Ok () (s\<lparr>lregs := lregs s, lwrites := lwrites s\<rparr>)" by (simp add: lapiceoi_def)
  then show ?thesis by blast
next
  case False
  then show ?thesis by (auto simp: lapiceoi_def lapicw_def)
qed



definition tmach0 :: tmach where
  "tmach0 = smach.extend (smach0\<lparr>ptable := (\<lambda>_. proc0\<lparr>pstate := RUNNING\<rparr>)\<rparr>)
     (tmach.fields (\<lambda>_. \<lparr>off_15_0 = 0, gate_cs = 0, gate_args = 0, gate_rsv1 = 0, gate_type = 0, gate_s = 0,
        gate_dpl = 0, gate_p = 0, off_31_16 = 0\<rparr>) False (\<lambda>i. 0x80105000 + of_nat i) 0 0 (\<lambda>_. 0))"

lemma tmach0_simps [simp]:
  "lk tmach0 = lk0" "ptable tmach0 = (\<lambda>_. proc0\<lparr>pstate := RUNNING\<rparr>)" "panicked tmach0 = False"
  "vectors tmach0 i = 0x80105000 + of_nat i"
  by (simp_all add: tmach0_def tmach.defs smach0_def smach.defs hmach0_def hmach.defs fmach0_def fmach.defs imach.defs
    imach0_def cmach0_def rmach.defs cmach.defs rmach0_def lmach.defs lmach0_def amach0_def)

lemma tmach0_ready: "quiet tmach0" "ncli (mycpu tmach0) = 0" "curproc tmach0 = Some 0" "can_print tmach0"
  using quiet_lk0 [of tmach0] by (simp_all add: lk0_def can_print_def quiet_def)



end
