(* ===== verification/Boot.thy ===== *)
theory Boot
  imports Trap
begin

text \<open>
  The start of the kernel: \<open>seginit\<close> of \<^verbatim>\<open>vm.c\<close>, the interrupt descriptor table of \<^verbatim>\<open>trap.c\<close>, and
  \<^verbatim>\<open>main.c\<close>. The image of \<^verbatim>\<open>entryother.S\<close>, the address of \<open>mpenter\<close> and the physical address of
  \<^verbatim>\<open>entrypgdir\<close> are decided by the linker and are fields of the state; \<open>started\<close> says which CPUs answer
  the start-up interrupt, after which \<open>startothers\<close> waits for ever or not at all.
\<close>

record mmach = tmach +
  fs_img :: "u32 \<Rightarrow> bytes"
  fs_img_size :: u32
  entryother :: "u8 list"
  mpenter_pc :: u32
  entrypgdir_pa :: u32
  started :: "int \<Rightarrow> bool"

definition seginit :: "u32 \<Rightarrow> ('z smach_scheme, unit) kern" where
  "seginit ret =
     bindk (cpunum ret) (\<lambda>c.
     thenk (modk (\<lambda>s. s\<lparr>gdt := (gdt s)
       (SEG_KCODE := SEG (STA_X OR STA_R) 0 0xFFFFFFFF 0,
        SEG_KDATA := SEG STA_W 0 0xFFFFFFFF 0,
        SEG_UCODE := SEG (STA_X OR STA_R) 0 0xFFFFFFFF (ucast DPL_USER),
        SEG_UDATA := SEG STA_W 0 0xFFFFFFFF (ucast DPL_USER),
        SEG_KCPU := SEG STA_W (local_addr s) 8 0)\<rparr>))
     (thenk (modk (\<lambda>s. s\<lparr>gs_reg := sel SEG_KCPU\<rparr>))
     (thenk (modk (\<lambda>s. s\<lparr>lk := (lk s)\<lparr>me := unat c\<rparr>\<rparr>))
     (set_curproc None))))"

definition STS_IG32 :: "4 word" where [simp]: "STS_IG32 = 0xE"
definition STS_TG32 :: "4 word" where [simp]: "STS_TG32 = 0xF"

definition SETGATE :: "bool \<Rightarrow> u16 \<Rightarrow> u32 \<Rightarrow> u16 \<Rightarrow> gatedesc" where
  "SETGATE istrap cs off d = \<lparr>off_15_0 = ucast (off AND 0xFFFF), gate_cs = cs, gate_args = 0, gate_rsv1 = 0,
     gate_type = (if istrap then STS_TG32 else STS_IG32), gate_s = 0, gate_dpl = ucast d, gate_p = 1,
     off_31_16 = ucast (drop_bit 16 off)\<rparr>"

definition tvinit :: "('z tmach_scheme, unit) kern" where
  "tvinit =
     thenk (foreach [0..<256] (\<lambda>i.
        modk (\<lambda>s. s\<lparr>idt := (idt s)(i := SETGATE False (sel SEG_KCODE) (vectors s i) 0)\<rparr>)))
     (thenk (modk (\<lambda>s. s\<lparr>idt := (idt s)(unat T_SYSCALL :=
        SETGATE True (sel SEG_KCODE) (vectors s (unat T_SYSCALL)) DPL_USER)\<rparr>))
     (initlock TicksLock))"

definition idtinit :: "('z tmach_scheme, unit) kern" where
  "idtinit = modk (\<lambda>s. s\<lparr>idtr := True\<rparr>)"

text \<open>\<open>ideinit\<close> of the in-memory disk.\<close>

definition ideinit :: "('z mmach_scheme, unit) kern" where
  "ideinit = modk (\<lambda>s. s\<lparr>disk := fs_img s, disksize := fs_img_size s div 512\<rparr>)"

text \<open>\<open>mpmain\<close> up to the loop of the scheduler, whose first round it returns.\<close>

definition mpmain :: "('z mmach_scheme, nat option) kern" where
  "mpmain =
     bindk cpuid (\<lambda>i.
     thenk (cprintf (str ''cpu%d: starting'' @ [10]) [CInt i])
     (thenk idtinit
     (thenk (modk (\<lambda>s. s\<lparr>started := (started s)(int (me (lk s)) := True)\<rparr>))
     scheduler_round)))"

definition mpenter :: "u32 \<Rightarrow> ('z mmach_scheme, nat option) kern" where
  "mpenter ret =
     thenk switchkvm
     (thenk (seginit ret)
     (thenk lapicinit
     mpmain))"

definition startothers_one :: "u32 \<Rightarrow> int \<Rightarrow> ('z mmach_scheme, unit) kern" where
  "startothers_one ret c =
     (let code = p2v 0x7000 in
      bindk (cpunum ret) (\<lambda>n.
      whenk (c \<noteq> uint n)
        (bindk kalloc (\<lambda>stack.
         thenk (store32 (code - 4) (stack + KSTACKSIZE))
         (bindk (readk (\<lambda>s. (mpenter_pc s, entrypgdir_pa s, cpu_id s c))) (\<lambda>(pc, pa, i).
         thenk (store32 (code - 8) pc)
         (thenk (store32 (code - 12) pa)
         (thenk (lapicstartap i (v2p code))
         (bindk (readk (\<lambda>s. started s c)) (\<lambda>up.
         if up then retk () else spink))))))))))"

definition startothers :: "u32 \<Rightarrow> ('z mmach_scheme, unit) kern" where
  "startothers ret =
     bindk (readk entryother) (\<lambda>img.
     thenk (modk (\<lambda>s. s\<lparr>pmem := (\<lambda>a. if unat (a - p2v 0x7000) < length img
        then img ! unat (a - p2v 0x7000) else pmem s a)\<rparr>))
     (bindk (readk ncpu) (\<lambda>n.
     foreach (map int [0..<nat n]) (startothers_one ret))))"

text \<open>\<open>main\<close>; \<open>ret1\<close> and \<open>ret2\<close> are the return addresses that \<open>cpunum\<close> would print.\<close>

definition main :: "u32 \<Rightarrow> u32 \<Rightarrow> ('z mmach_scheme, nat option) kern" where
  "main ret1 ret2 =
     bindk (readk kend) (\<lambda>e.
     thenk (kinit1 e (p2v (4 * 1024 * 1024)))
     (thenk kvmalloc
     (thenk mpinit
     (thenk lapicinit
     (thenk (seginit ret1)
     (bindk cpuid (\<lambda>i.
     thenk (cprintf ([10] @ str ''cpu%d: starting xv6'' @ [10, 10]) [CInt i])
     (thenk picinit
     (thenk ioapicinit
     (thenk consoleinit
     (thenk uartinit
     (thenk pinit
     (thenk tvinit
     (thenk binit
     (thenk fileinit
     (thenk iinit
     (thenk ideinit
     (bindk (readk ismp) (\<lambda>mp.
     thenk (whenk (\<not> mp) timerinit)
     (thenk (startothers ret2)
     (thenk (kinit2 (p2v (4 * 1024 * 1024)) (p2v PHYSTOP))
     (thenk userinit
     mpmain))))))))))))))))))))))"

section \<open>The interrupt descriptor table\<close>

text \<open>The address of a handler, as the processor puts it together from a gate.\<close>

definition gate_off :: "gatedesc \<Rightarrow> u32" where
  "gate_off g = push_bit 16 (ucast (off_31_16 g)) OR ucast (off_15_0 g)"

lemma gate_SETGATE:
  "gate_p (SETGATE tr cs off d) = 1" "gate_s (SETGATE tr cs off d) = 0" "gate_cs (SETGATE tr cs off d) = cs"
  "gate_dpl (SETGATE tr cs off d) = ucast d" "gate_type (SETGATE tr cs off d) = (if tr then STS_TG32 else STS_IG32)"
  "gate_off (SETGATE tr cs off d) = off"
proof -
  have "off AND 0xFFFF = take_bit 16 off" by (simp add: take_bit_eq_mask mask_eq_exp_minus_1)
  then show "gate_off (SETGATE tr cs off d) = off"
    by (intro bit_word_eqI) (auto simp: gate_off_def SETGATE_def bit_simps)
qed (simp_all add: SETGATE_def)

text \<open>C39: after tvinit every one of the 256 vectors has a present gate into the kernel code segment with
  the address of its own entry point. User code can invoke only the gate of system calls; all other gates
  need kernel privilege and turn interrupts off.\<close>

theorem tvinit_gates:
  "\<exists>t. tvinit s = Ok () t \<and> (\<forall>i<256. gate_p (idt t i) = 1 \<and> gate_s (idt t i) = 0 \<and> gate_cs (idt t i) = sel SEG_KCODE
      \<and> gate_off (idt t i) = vectors s i
      \<and> (if i = unat T_SYSCALL then gate_dpl (idt t i) = 3 \<and> gate_type (idt t i) = STS_TG32
         else gate_dpl (idt t i) = 0 \<and> gate_type (idt t i) = STS_IG32))"
proof -
  let ?f = "\<lambda>i. modk (\<lambda>s. s\<lparr>idt := (idt s)(i := SETGATE False (sel SEG_KCODE) (vectors s i) 0)\<rparr>)"
  have "runs (foreach [0..<256] ?f) s (\<lambda>_ t. (\<forall>i \<in> set [0..<256]. idt t i = SETGATE False (sel SEG_KCODE) (vectors s i) 0) \<and> vectors t = vectors s)"
    by (rule runs_foreach) (auto simp: runs_def)
  then obtain t where t: "foreach [0..<256] ?f s = Ok () t" "vectors t = vectors s"
    "\<And>i. i < 256 \<Longrightarrow> idt t i = SETGATE False (sel SEG_KCODE) (vectors s i) 0"
    by (auto simp: runs_def)
  then show ?thesis by (auto simp: tvinit_def initlock_def gate_SETGATE)
qed

theorem tvinit_gates_witness:
  "\<exists>t. tvinit tmach0 = Ok () t \<and> gate_off (idt t 64) = 0x80105040 \<and> gate_dpl (idt t 64) = 3 \<and> gate_dpl (idt t 32) = 0"
proof -
  obtain t where t: "tvinit tmach0 = Ok () t" and "gate_off (idt t 64) = vectors tmach0 64"
    and "if (64 :: nat) = unat T_SYSCALL then gate_dpl (idt t 64) = 3 \<and> gate_type (idt t 64) = STS_TG32
         else gate_dpl (idt t 64) = 0 \<and> gate_type (idt t 64) = STS_IG32"
    and "if (32 :: nat) = unat T_SYSCALL then gate_dpl (idt t 32) = 3 \<and> gate_type (idt t 32) = STS_TG32
         else gate_dpl (idt t 32) = 0 \<and> gate_type (idt t 32) = STS_IG32"
    using tvinit_gates [of tmach0] by fastforce
  then show ?thesis by (simp add: T_SYSCALL_def)
qed

end
