(* ===== verification/Grep.thy ===== *)
theory Grep
  imports Prelude
begin

text \<open>
  The pattern matcher of \<^verbatim>\<open>grep.c\<close>: \<open>match\<close>, \<open>matchhere\<close> and \<open>matchstar\<close>. A C string is the list of its
  characters before the terminating NUL, and \<^verbatim>\<open>text + 1\<close> its tail.

  The reference is the language of a pattern: a list of atoms (a character, \<^verbatim>\<open>.\<close>, or a starred one)
  describes a set of words, and a pattern is found in a text when some part of the text is such a
  word, at the beginning after \<^verbatim>\<open>^\<close> and at the end before \<^verbatim>\<open>$\<close>.
\<close>

section \<open>The matcher\<close>

definition sym_eq :: "u8 \<Rightarrow> u8 \<Rightarrow> bool" where
  "sym_eq c x \<longleftrightarrow> c = 46 \<or> c = x"

function (sequential) matchhere :: "u8 list \<Rightarrow> u8 list \<Rightarrow> bool"
  and matchstar :: "u8 \<Rightarrow> u8 list \<Rightarrow> u8 list \<Rightarrow> bool" where
  "matchhere [] text = True"
| "matchhere (c # re) text =
     (case re of
        r # re' \<Rightarrow>
          if r = 42 then matchstar c re' text
          else (case text of [] \<Rightarrow> False | x # text' \<Rightarrow> sym_eq c x \<and> matchhere re text')
      | [] \<Rightarrow>
          if c = 36 then text = []
          else (case text of [] \<Rightarrow> False | x # text' \<Rightarrow> sym_eq c x \<and> matchhere re text'))"
| "matchstar c re text =
     (matchhere re text \<or>
      (case text of [] \<Rightarrow> False | x # text' \<Rightarrow> sym_eq c x \<and> matchstar c re text'))"
  by pat_completeness auto
termination
  by (relation "measure (\<lambda>x. case x of Inl (re, text) \<Rightarrow> length re + length text
        | Inr (c, re, text) \<Rightarrow> Suc (length re + length text))") auto

fun match_loop :: "u8 list \<Rightarrow> u8 list \<Rightarrow> bool" where
  "match_loop re text =
     (matchhere re text \<or> (case text of [] \<Rightarrow> False | _ # text' \<Rightarrow> match_loop re text'))"

definition match :: "u8 list \<Rightarrow> u8 list \<Rightarrow> bool" where
  "match re text =
     (case re of
        [] \<Rightarrow> match_loop re text
      | c # re' \<Rightarrow> if c = 94 then matchhere re' text else match_loop re text)"

declare matchhere.simps(2) [simp del] matchstar.simps [simp del] match_loop.simps [simp del]

section \<open>The language of a pattern\<close>

datatype atom = One u8 | Star u8

text \<open>The atoms of a pattern, and whether it ends in \<^verbatim>\<open>$\<close>.\<close>

fun atoms :: "u8 list \<Rightarrow> atom list \<times> bool" where
  "atoms [] = ([], False)"
| "atoms [c] = (if c = 36 then ([], True) else ([One c], False))"
| "atoms (c # r # re) =
     (if r = 42 then (let (as, e) = atoms re in (Star c # as, e))
      else let (as, e) = atoms (r # re) in (One c # as, e))"

inductive lang :: "atom list \<Rightarrow> u8 list \<Rightarrow> bool" where
  lang_Nil: "lang [] []"
| lang_One: "sym_eq c x \<Longrightarrow> lang as w \<Longrightarrow> lang (One c # as) (x # w)"
| lang_Star: "list_all (sym_eq c) u \<Longrightarrow> lang as w \<Longrightarrow> lang (Star c # as) (u @ w)"

inductive_simps lang_NilS: "lang [] w"
inductive_simps lang_OneS: "lang (One c # as) w"
inductive_simps lang_StarS: "lang (Star c # as) w"

text \<open>A prefix of the text, and all of it when the pattern is anchored at the end.\<close>

definition found_here :: "atom list \<times> bool \<Rightarrow> u8 list \<Rightarrow> bool" where
  "found_here p text \<longleftrightarrow> (\<exists>u v. text = u @ v \<and> lang (fst p) u \<and> (snd p \<longrightarrow> v = []))"

definition found :: "u8 list \<Rightarrow> u8 list \<Rightarrow> bool" where
  "found re text =
     (if re \<noteq> [] \<and> hd re = 94 then found_here (atoms (tl re)) text
      else \<exists>t u. text = t @ u \<and> found_here (atoms re) u)"

lemma found_here_Nil: "found_here ([], e) text \<longleftrightarrow> (e \<longrightarrow> text = [])"
  by (auto simp: found_here_def lang_NilS)

lemma found_here_One:
  "found_here (One c # as, e) text \<longleftrightarrow>
     (case text of [] \<Rightarrow> False | x # t \<Rightarrow> sym_eq c x \<and> found_here (as, e) t)"
  by (cases "text") (auto simp: found_here_def lang_OneS Cons_eq_append_conv)

lemma found_here_Star:
  "found_here (Star c # as, e) text \<longleftrightarrow>
     found_here (as, e) text \<or> (case text of [] \<Rightarrow> False | x # t \<Rightarrow> sym_eq c x \<and> found_here (Star c # as, e) t)"
proof -
  have *: "found_here (Star c # as, e) xs \<longleftrightarrow> (\<exists>u t. xs = u @ t \<and> list_all (sym_eq c) u \<and> found_here (as, e) t)"
    (is "?l \<longleftrightarrow> ?r") for xs
  proof
    assume ?l
    then obtain p w v where "xs = (p @ w) @ v" "list_all (sym_eq c) p" "lang as w" "e \<longrightarrow> v = []"
      unfolding found_here_def lang_StarS fst_conv snd_conv by blast
    then have "xs = p @ (w @ v)" "found_here (as, e) (w @ v)" by (auto simp: found_here_def)
    then show ?r using \<open>list_all (sym_eq c) p\<close> by blast
  next
    assume ?r
    then obtain p w v where "xs = p @ (w @ v)" "list_all (sym_eq c) p" "lang as w" "e \<longrightarrow> v = []"
      unfolding found_here_def fst_conv snd_conv by blast
    then have "xs = (p @ w) @ v" "lang (Star c # as) (p @ w)" by (auto intro: lang_Star)
    then show ?l using \<open>e \<longrightarrow> v = []\<close> unfolding found_here_def fst_conv snd_conv by blast
  qed
  show ?thesis
  proof (cases "text")
    case (Cons x t)
    show ?thesis
      unfolding Cons list.case * Cons_eq_append_conv by (simp add: conj_disj_distribR ex_disj_distrib) (metis list.pred_inject(2))
  qed (simp add: *)
qed

lemma matchhere_found:
  "matchhere re text = found_here (atoms re) text"
  "matchstar c re text = found_here (Star c # fst (atoms re), snd (atoms re)) text"
proof (induction re "text" and c re "text" rule: matchhere_matchstar.induct)
  case (2 c re t)
  show ?case
  proof (cases re)
    case Nil
    then show ?thesis using 2
      by (auto simp: matchhere.simps(2) found_here_Nil found_here_One split: list.splits)
  next
    case (Cons r re')
    have "matchhere (c # re) t = (if r = 42 then matchstar c re' t
        else (case t of [] \<Rightarrow> False | x # t' \<Rightarrow> sym_eq c x \<and> matchhere re t'))"
      by (subst matchhere.simps(2)) (simp add: Cons)
    moreover have "r = 42 \<Longrightarrow> matchstar c re' t = found_here (Star c # fst (atoms re'), snd (atoms re')) t"
      using 2 Cons by auto
    moreover have "r \<noteq> 42 \<Longrightarrow> t = x # t' \<Longrightarrow> matchhere re t' = found_here (atoms re) t'" for x t'
      using 2 Cons by auto
    ultimately show ?thesis
      using Cons by (cases t) (auto simp: found_here_One split_beta)
  qed
next
  case (3 c re t)
  then show ?case
    by (subst matchstar.simps, subst found_here_Star) (auto split: list.splits)
qed (simp add: found_here_Nil)

lemma match_loop_found: "match_loop re text \<longleftrightarrow> (\<exists>t u. text = t @ u \<and> found_here (atoms re) u)"
proof (induction "text")
  case Nil
  then show ?case by (simp add: match_loop.simps [of re "[]"] matchhere_found)
next
  case (Cons x t)
  have "match_loop re (x # t) \<longleftrightarrow> found_here (atoms re) (x # t) \<or> match_loop re t"
    by (subst match_loop.simps) (simp add: matchhere_found)
  then show ?case
    unfolding Cons.IH by (simp add: Cons_eq_append_conv) blast
qed

text \<open>C22: the matcher of grep returns for every pattern and text, and answers whether the text has a
  part in the language of the pattern, in the place its anchors ask for.\<close>

theorem grep_match_language: "match re text = found re text"
  unfolding match_def found_def
  by (cases re) (auto simp: matchhere_found match_loop_found)

end
