(* ===== verification/Alloc.thy ===== *)
theory Alloc
  imports Inode
begin

text \<open>
  The block allocator of \<^verbatim>\<open>fs.c\<close> on the transactional disk of \<^verbatim>\<open>Log\<close>: \<open>balloc\<close> and \<open>bfree\<close> as
  operations on the set of free blocks that the bitmap stands for, and a small file system on which
  the properties of the file-system theories are instantiated.
\<close>

section \<open>Blocks in a transaction\<close>

lemma readsb_trans:
  assumes "tpost s V L M H u" "L \<union> dom H \<subseteq> X" "finite X" "card X < NBUF" "1 \<notin> logsecs s" "1 < disksize s"
    "H 1 = None" "1 \<notin> M" "\<And>v. tpost s V L M H v \<Longrightarrow> Q (get_sb (V 1)) v"
  shows "runs (readsb 1) u Q"
proof -
  have "runs (bindk (bread 1 1) (\<lambda>b. bindk (bp_data b) (\<lambda>d. thenk (brelse b) (retk d)))) u (\<lambda>d v. Q (get_sb d) v)"
    by (rule td.read_block [OF assms(1-8)]) (rule assms(9))
  then show ?thesis by (simp add: readsb_def)
qed

lemma bzero_trans:
  assumes "tpost s V L M H u" "L \<union> dom H \<subseteq> X" "finite X" "card X < NBUF" "card X < log_room s"
    "b \<notin> logsecs s" "b < disksize s" "H b = None" "b \<in> X" "b \<notin> M"
    "\<And>v. tpost s (V(b := (\<lambda>i. if i < BSIZE then 0 else V b i))) (insert b L) M H v \<Longrightarrow> Q () v"
  shows "runs (bzero 1 b) u Q"
  unfolding bzero_def by (rule td.update_block [OF assms(1-10)]) (rule assms(11))

text \<open>The bit of block \<open>b\<close> in the allocation bitmap, and the bitmap with the bit set or cleared.\<close>

definition blk_free :: "(u32 \<Rightarrow> bytes) \<Rightarrow> superblock \<Rightarrow> u32 \<Rightarrow> bool" where
  "blk_free V sb b \<longleftrightarrow> bit_free (V (BBLOCK b (sb_ninodes sb))) (unat b mod BPB)"

definition mark_used :: "superblock \<Rightarrow> u32 \<Rightarrow> (u32 \<Rightarrow> bytes) \<Rightarrow> (u32 \<Rightarrow> bytes)" where
  "mark_used sb b V = (let c = BBLOCK b (sb_ninodes sb); bi = unat b mod BPB in
     V(c := (V c)(bi div 8 := V c (bi div 8) OR bit_mask bi)))"

definition zeroed :: "u32 \<Rightarrow> (u32 \<Rightarrow> bytes) \<Rightarrow> (u32 \<Rightarrow> bytes)" where
  "zeroed b V = V(b := (\<lambda>i. if i < BSIZE then 0 else V b i))"

text \<open>A block outside the log that the running transaction may take.\<close>

definition blk_ok :: "'z lmach_scheme \<Rightarrow> (u32 \<Rightarrow> nat option) \<Rightarrow> u32 \<Rightarrow> bool" where
  "blk_ok s H x \<longleftrightarrow> x \<notin> logsecs s \<and> x < disksize s \<and> H x = None"

definition room_for :: "'z lmach_scheme \<Rightarrow> u32 set \<Rightarrow> bool" where
  "room_for s X \<longleftrightarrow> finite X \<and> card X < NBUF \<and> card X < log_room s"

lemma find_takeWhile:
  assumes "k < n" "\<And>i. i \<le> k \<Longrightarrow> Q i" "P k" "\<And>i. i < k \<Longrightarrow> \<not> P i"
  shows "find P (takeWhile Q [0..<n]) = Some k"
proof -
  have "[0..<n] = [0..<k] @ [k..<n]" using assms(1) by (metis le_add_diff_inverse less_imp_le upt_add_eq_append zero_le)
  then have "takeWhile Q [0..<n] = [0..<k] @ takeWhile Q [k..<n]" using assms(2) by (simp add: takeWhile_append)
  moreover have "takeWhile Q [k..<n] = k # takeWhile Q [Suc k..<n]" using assms(1,2) by (simp add: upt_conv_Cons)
  moreover have "find P (xs @ k # zs) = Some k" if "\<forall>x \<in> set xs. \<not> P x" for xs zs
    using that assms(3) by (induction xs) auto
  ultimately show ?thesis using assms(4) by simp
qed

text \<open>Blocks with numbers in one chunk of \<open>BPB\<close> share a bitmap block.\<close>

lemma chunk:
  assumes "unat b mod 4096 = 0" "i < 4096"
  shows "unat (b + of_nat i) = unat b + i" "BBLOCK (b + of_nat i) n = BBLOCK b n" "unat (b + of_nat i) mod BPB = i"
proof -
  obtain q where q: "unat b = 4096 * q" using assms(1) by auto
  have "q < 1048576" using unat32_lt [of b] q by simp
  then show u: "unat (b + of_nat i) = unat b + i" using q assms(2) by (simp add: unat_word_ariths unat_of_nat)
  have "unat ((b + of_nat i) div 4096) = unat (b div 4096)" using assms(2) u q by (simp add: unat_div)
  then have "(b + of_nat i) div 4096 = b div 4096" by (simp only: word_unat_eq_iff)
  then show "BBLOCK (b + of_nat i) n = BBLOCK b n" by (simp add: BBLOCK_def)
  show "unat (b + of_nat i) mod BPB = i" using u q assms(2) by simp
qed

lemma balloc_skip:
  assumes p: "tpost s V L {} H u" and "L \<union> dom H \<subseteq> X" "room_for s X" "b < sb_size sb"
    and "unat b mod 4096 = 0" "blk_ok s H (BBLOCK b (sb_ninodes sb))"
    and "\<And>i. i < 4096 \<Longrightarrow> b + of_nat i < sb_size sb \<Longrightarrow> \<not> blk_free V sb (b + of_nat i)"
  shows "\<exists>v. tpost s V L {} H v \<and> balloc_loop (Suc fuel) 1 sb b u = balloc_loop fuel 1 sb (b + 4096) v"
proof -
  let ?c = "BBLOCK b (sb_ninodes sb)"
  have "runs (bread 1 ?c) u (\<lambda>bp w. tpost s V L {} (H(?c \<mapsto> bp)) w)"
    using assms(2,3,6) by (intro td.rd_vc [OF p, where X = X]) (auto simp: room_for_def blk_ok_def)
  then obtain bp w where w: "bread 1 ?c u = Ok bp w" "tpost s V L {} (H(?c \<mapsto> bp)) w" by (rule runsE)
  have d: "bp_data bp w = Ok (V ?c) w"
    using td.look_vc [OF w(2), of ?c bp "\<lambda>d t. d = V ?c \<and> t = w"] by (auto simp: runs_def)
  have "runs (brelse bp) w (\<lambda>_ v. tpost s V L {} ((H(?c \<mapsto> bp))(?c := None)) v)"
    by (rule td.rel_vc [OF w(2), where sec = ?c]) auto
  moreover have "(H(?c \<mapsto> bp))(?c := None) = H" using assms(6) by (auto simp: blk_ok_def)
  ultimately obtain v where v: "brelse bp w = Ok () v" "tpost s V L {} H v" by (auto simp: runs_def)
  have "find (bit_free (V ?c)) (takeWhile (\<lambda>bi. b + of_nat bi < sb_size sb) [0..<BPB]) = None"
    using assms(7) chunk [OF assms(5)] by (auto simp: find_None_iff blk_free_def dest!: set_takeWhileD simp del: upt.simps)
  with w(1) d v assms(4) show ?thesis by (simp del: BPB_def) (simp add: exI [of _ v])
qed

lemma balloc_take:
  assumes p: "tpost s V L {} H u" and "L \<union> dom H \<subseteq> X" "room_for s X"
    and b: "unat b mod 4096 = 0" "i < 4096" "b + of_nat i < sb_size sb" "blk_free V sb (b + of_nat i)"
    and n: "\<And>j. j < i \<Longrightarrow> \<not> blk_free V sb (b + of_nat j)"
    and k: "blk_ok s H (BBLOCK b (sb_ninodes sb))" "blk_ok s H (b + of_nat i)" "BBLOCK b (sb_ninodes sb) \<in> X" "b + of_nat i \<in> X"
    and Q: "\<And>v. tpost s (zeroed (b + of_nat i) (mark_used sb (b + of_nat i) V))
        (insert (b + of_nat i) (insert (BBLOCK b (sb_ninodes sb)) L)) {} H v \<Longrightarrow> Q (b + of_nat i) v"
  shows "runs (balloc_loop (Suc fuel) 1 sb b) u Q"
proof -
  let ?c = "BBLOCK b (sb_ninodes sb)" and ?r = "b + of_nat i"
  have lt: "b + of_nat j < sb_size sb" if "j \<le> i" for j
    using that b chunk(1) [OF b(1), of j] chunk(1) [OF b(1,2)] by (simp add: word_less_nat_alt)
  then have bs: "b < sb_size sb" using lt [of 0] by simp
  have f: "find (bit_free (V ?c)) (takeWhile (\<lambda>bi. b + of_nat bi < sb_size sb) [0..<BPB]) = Some i"
  proof (rule find_takeWhile)
    show "bit_free (V ?c) i" using b(4) chunk(2,3) [OF b(1,2)] by (simp add: blk_free_def)
    show "\<not> bit_free (V ?c) j" if "j < i" for j
      using n [OF that] chunk(2,3) [OF b(1), of j] that b(2) by (simp add: blk_free_def)
  qed (use b(2) lt in auto)
  have m: "mark_used sb ?r V = V(?c := (V ?c)(i div 8 := V ?c (i div 8) OR bit_mask i))"
    using chunk(2,3) [OF b(1,2)] by (simp add: mark_used_def Let_def)
  have h: "(H(?c \<mapsto> bp))(?c := None) = H" for bp using k(1) by (auto simp: blk_ok_def)
  note X = assms(2,3) [unfolded room_for_def] k [unfolded blk_ok_def]
  show ?thesis
    using bs
    apply (simp add: runs_vc del: BPB_def upt.simps)
    apply (rule td.rd_vc [OF p, where X = X])
           apply (use X in auto)[6]
    apply (rule td.look_vc [where sec = ?c], assumption, simp)
    apply (simp add: f runs_vc del: BPB_def upt.simps)
    apply (rule td.edit_vc [where sec = ?c], assumption, simp)
    apply (rule td.logw_vc [where sec = ?c and X = X], assumption)
         apply (use X in auto)[5]
    apply (rule td.rel_vc [where sec = ?c], assumption, simp, simp)
    apply (rule bzero_trans [where X = X], assumption)
             apply (use X in \<open>auto simp: h\<close>)[9]
    using Q m h by (simp add: zeroed_def)
qed

lemma balloc_skips:
  assumes "tpost s V L {} H u" "L \<union> dom H \<subseteq> X" "room_for s X" "4096 * n \<le> unat (sb_size sb) + 4095"
    and "\<And>c. c < sb_size sb \<Longrightarrow> blk_ok s H (BBLOCK c (sb_ninodes sb))"
    and "\<And>c. unat c < 4096 * n \<Longrightarrow> c < sb_size sb \<Longrightarrow> \<not> blk_free V sb c"
  shows "\<exists>v. tpost s V L {} H v \<and> balloc_loop (n + fuel) 1 sb 0 u = balloc_loop fuel 1 sb (of_nat (4096 * n)) v"
  using assms(4,6)
proof (induction n arbitrary: fuel)
  case 0
  then show ?case using assms(1) by auto
next
  case (Suc n)
  let ?b = "of_nat (4096 * n) :: u32"
  obtain v where v: "tpost s V L {} H v" "balloc_loop (n + Suc fuel) 1 sb 0 u = balloc_loop (Suc fuel) 1 sb ?b v"
    using Suc.IH [of "Suc fuel"] Suc.prems by auto
  have u: "unat ?b = 4096 * n" using Suc.prems(1) unat32_lt [of "sb_size sb"] by (intro unat32_of_nat) (simp del: unat32_lt)
  have lt: "?b < sb_size sb" using u Suc.prems(1) by (simp add: word_less_nat_alt)
  have "\<exists>w. tpost s V L {} H w \<and> balloc_loop (Suc fuel) 1 sb ?b v = balloc_loop fuel 1 sb (?b + 4096) w"
  proof (rule balloc_skip [OF v(1) assms(2,3) lt])
    show "\<not> blk_free V sb (?b + of_nat i)" if "i < 4096" "?b + of_nat i < sb_size sb" for i
      using that chunk(1) [of ?b i] u by (intro Suc.prems(2)) simp
  qed (use u assms(5) lt in auto)
  with v(2) show ?case by (simp del: balloc_loop.simps add: add.commute)
qed

text \<open>The first free block of the disk.\<close>

definition first_free :: "(u32 \<Rightarrow> bytes) \<Rightarrow> superblock \<Rightarrow> nat option" where
  "first_free V sb = find (\<lambda>b. blk_free V sb (of_nat b)) [0..<unat (sb_size sb)]"

lemma balloc_runs:
  assumes p: "tpost s V L {} H u" "L \<union> dom H \<subseteq> X" "room_for s X" "blk_ok s H 1"
    and sb: "sb = get_sb (V 1)" "\<And>c. c < sb_size sb \<Longrightarrow> blk_ok s H (BBLOCK c (sb_ninodes sb))"
    and r: "first_free V sb = Some r" "blk_ok s H (of_nat r)" "{BBLOCK (of_nat r) (sb_ninodes sb), of_nat r} \<subseteq> X"
    and Q: "\<And>v. tpost s (zeroed (of_nat r) (mark_used sb (of_nat r) V))
        (insert (of_nat r) (insert (BBLOCK (of_nat r) (sb_ninodes sb)) L)) {} H v \<Longrightarrow> Q (of_nat r) v"
  shows "runs (balloc 1) u Q"
proof -
  define n i b where "n = r div 4096" and "i = r mod 4096" and "b = (of_nat (4096 * n) :: u32)"
  have d: "r = 4096 * n + i" "i < 4096" by (simp_all add: n_def i_def)
  have f: "r < unat (sb_size sb)" "blk_free V sb (of_nat r)" "\<And>j. j < r \<Longrightarrow> \<not> blk_free V sb (of_nat j)"
    using find_upt_Some [of _ 0 "unat (sb_size sb)" r] r(1) by (auto simp: first_free_def)
  have n: "n < 1048577" and r32: "r < 4294967296" using d f(1) unat32_lt [of "sb_size sb"] by linarith+
  then have u: "unat b = 4096 * n" unfolding b_def using d by (intro unat32_of_nat) linarith
  have e: "b + of_nat i = of_nat r" by (simp add: d(1) b_def)
  have fr: "\<not> blk_free V sb c" if "unat c < r" for c using f(3) [OF that] by simp
  have B: "BBLOCK b m = BBLOCK (of_nat r) m" for m using chunk(2) [of b i m] u e d(2) by simp
  have rs: "of_nat r < sb_size sb" using f(1) r32 by (simp add: word_less_nat_alt)
  have loop: "runs (balloc_loop (2 ^ 20 + 1) 1 sb 0) v Q" if v: "tpost s V L {} H v" for v
  proof -
    obtain k where k: "(2 :: nat) ^ 20 + 1 = n + Suc k" using n by (auto intro: that [of "1048576 - n"])
    obtain w where w: "tpost s V L {} H w" "balloc_loop (n + Suc k) 1 sb 0 v = balloc_loop (Suc k) 1 sb b w"
      using balloc_skips [OF v p(2,3), of n sb "Suc k"] sb(2) d(1) f(1) fr unfolding b_def by auto
    have "runs (balloc_loop (Suc k) 1 sb b) w Q"
    proof (rule balloc_take [OF w(1) p(2,3), where i = i])
      show "\<not> blk_free V sb (b + of_nat j)" if "j < i" for j
        using that chunk(1) [of b j] u d by (intro fr) simp
    qed (use u d(2) e B f(2) rs sb(2) r(2,3) Q in auto)
    then show ?thesis using w(2) by (simp only: runs_def k)
  qed
  have "runs (readsb 1) u (\<lambda>x v. x = sb \<and> tpost s V L {} H v)"
    using p sb(1) by (intro readsb_trans [OF p(1,2)]) (auto simp: room_for_def blk_ok_def)
  then show ?thesis unfolding balloc_def runs_bindk
    by (rule runs_mono) (use loop in auto)
qed

lemma balloc_full:
  assumes p: "tpost s V L {} H u" "L \<union> dom H \<subseteq> X" "room_for s X" "blk_ok s H 1"
    and sb: "sb = get_sb (V 1)" "\<And>c. c < sb_size sb \<Longrightarrow> blk_ok s H (BBLOCK c (sb_ninodes sb))"
    and n: "first_free V sb = None" "unat (sb_size sb) \<le> 4294963200"
  shows "balloc 1 u = Panic ''balloc: out of blocks''"
proof -
  define n where "n = (unat (sb_size sb) + 4095) div 4096"
  have d: "4096 * n \<le> unat (sb_size sb) + 4095" "unat (sb_size sb) \<le> 4096 * n" "n < 1048577"
    using n(2) unfolding n_def by linarith+
  have fr: "\<not> blk_free V sb c" if "c < sb_size sb" for c
    using find_upt_None [OF n(1) [unfolded first_free_def], of "unat c"] that by (simp add: word_less_nat_alt)
  have "runs (readsb 1) u (\<lambda>x v. x = sb \<and> tpost s V L {} H v)"
    using p sb(1) by (intro readsb_trans [OF p(1,2)]) (auto simp: room_for_def blk_ok_def)
  then obtain v where v: "readsb 1 u = Ok sb v" "tpost s V L {} H v" by (auto simp: runs_def)
  obtain k where k: "(2 :: nat) ^ 20 + 1 = n + Suc k" using d(3) by (auto intro: that [of "1048576 - n"])
  obtain w where w: "balloc_loop (n + Suc k) 1 sb 0 v = balloc_loop (Suc k) 1 sb (of_nat (4096 * n)) w"
    using balloc_skips [OF v(2) p(2,3) d(1), of "Suc k"] sb(2) fr by blast
  have "4096 * n < 4294967296" using d n(2) by linarith
  then have "\<not> of_nat (4096 * n) < sb_size sb" using d(2) unat32_of_nat [of "4096 * n"] by (simp add: word_less_nat_alt)
  then have "balloc_loop (Suc k) 1 sb (of_nat (4096 * n)) w = Panic ''balloc: out of blocks''" by simp
  then have "balloc_loop (2 ^ 20 + 1) 1 sb 0 v = Panic ''balloc: out of blocks''" using w by (simp only: k)
  then show ?thesis using v(1) by (simp add: balloc_def bindk_def del: balloc_loop.simps)
qed

definition mark_free :: "superblock \<Rightarrow> u32 \<Rightarrow> (u32 \<Rightarrow> bytes) \<Rightarrow> (u32 \<Rightarrow> bytes)" where
  "mark_free sb b V = (let c = BBLOCK b (sb_ninodes sb); bi = unat b mod BPB in
     V(c := (V c)(bi div 8 := V c (bi div 8) AND NOT (bit_mask bi))))"

lemma mark_free_used:
  assumes "blk_free V sb b"
  shows "mark_free sb b (mark_used sb b V) = V"
proof -
  have "(x OR m) AND NOT m = x" if "x AND m = 0" for x m :: u8
    using that by (auto simp: bit_eq_iff bit_simps)
  then show ?thesis using assms by (auto simp: mark_free_def mark_used_def blk_free_def bit_free_def Let_def)
qed

lemma mark_used_not_free: "\<not> blk_free (mark_used sb b V) sb b"
proof -
  have "bit_mask i \<noteq> 0" for i by (simp add: bit_mask_def)
  moreover have "(x OR m) AND m = m" for x m :: u8 by (auto intro!: bit_word_eqI simp: bit_simps)
  ultimately show ?thesis by (simp add: mark_used_def blk_free_def bit_free_def Let_def)
qed

lemma bfree_runs:
  assumes p: "tpost s V L {} H u" "L \<union> dom H \<subseteq> X" "room_for s X" "blk_ok s H 1"
    and sb: "sb = get_sb (V 1)" "blk_ok s H (BBLOCK b (sb_ninodes sb))" "BBLOCK b (sb_ninodes sb) \<in> X"
  shows "\<not> blk_free V sb b \<Longrightarrow> runs (bfree 1 b) u (\<lambda>_ v. tpost s (mark_free sb b V) (insert (BBLOCK b (sb_ninodes sb)) L) {} H v)"
    and "blk_free V sb b \<Longrightarrow> bfree 1 b u = Panic ''freeing free block''"
proof -
  let ?c = "BBLOCK b (sb_ninodes sb)"
  have h: "(H(?c \<mapsto> bp))(?c := None) = H" for bp using sb(2) by (auto simp: blk_ok_def)
  note X = p(2,3) [unfolded room_for_def] sb(2,3) [unfolded blk_ok_def]
  have "runs (readsb 1) u (\<lambda>x v. x = sb \<and> tpost s V L {} H v)"
    using p sb(1) by (intro readsb_trans [OF p(1,2)]) (auto simp: room_for_def blk_ok_def)
  then obtain v where v: "readsb 1 u = Ok sb v" "tpost s V L {} H v" by (auto simp: runs_def)
  have "runs (bread 1 ?c) v (\<lambda>bp w. tpost s V L {} (H(?c \<mapsto> bp)) w)"
    by (rule td.rd_vc [OF v(2), where X = X]) (use X in auto)
  then obtain bp w where w: "bread 1 ?c v = Ok bp w" "tpost s V L {} (H(?c \<mapsto> bp)) w" by (rule runsE)
  have d: "bp_data bp w = Ok (V ?c) w"
    using td.look_vc [OF w(2), of ?c bp "\<lambda>d t. d = V ?c \<and> t = w"] by (auto simp: runs_def)
  show "bfree 1 b u = Panic ''freeing free block''" if "blk_free V sb b"
    using that v(1) w(1) d by (simp add: bfree_def bindk_def blk_free_def panic_def)
  have e: "runs (thenk (set_data bp f) (thenk (log_write bp) (brelse bp))) w
      (\<lambda>_ v. tpost s (V(?c := f (V ?c))) (insert ?c L) {} H v)" for f
    unfolding runs_vc
    apply (rule td.edit_vc [where sec = ?c, OF w(2)], simp)
    apply (rule td.logw_vc [where sec = ?c and X = X], assumption)
         apply (use X in auto)[5]
    apply (rule td.rel_vc [where sec = ?c], assumption)
    using h by auto
  show "runs (bfree 1 b) u (\<lambda>_ v. tpost s (mark_free sb b V) (insert ?c L) {} H v)" if "\<not> blk_free V sb b"
    using that v(1) w(1) d e [of "\<lambda>d. d(unat b mod BPB div 8 := d (unat b mod BPB div 8) AND NOT (bit_mask (unat b mod BPB)))"]
    by (simp add: bfree_def blk_free_def mark_free_def Let_def runs_Ok del: runs_thenk BPB_def)
qed

section \<open>The free blocks as a set\<close>

definition free_set :: "'z lmach_scheme \<Rightarrow> u32 set" where
  "free_set s = (let sb = get_sb (tview s 1) in {b. b < sb_size sb \<and> blk_free (tview s) sb b})"

lemma free_set_eq: "get_sb (tview s 1) = sb \<Longrightarrow> free_set s = {b. b < sb_size sb \<and> blk_free (tview s) sb b}"
  by (simp add: free_set_def Let_def)

text \<open>The invariant of the bitmap: the super block and the bitmap are blocks outside the log, and no block
  of either is marked free.\<close>

definition meta_ok :: "'z lmach_scheme \<Rightarrow> (u32 \<Rightarrow> nat option) \<Rightarrow> superblock \<Rightarrow> bool" where
  "meta_ok s H sb \<longleftrightarrow> unat (sb_size sb) \<le> 4294963200 \<and> blk_ok s H 1
     \<and> (\<forall>c < sb_size sb. blk_ok s H (BBLOCK c (sb_ninodes sb)) \<and> BBLOCK c (sb_ninodes sb) \<noteq> 1)"

definition spare :: "'z lmach_scheme \<Rightarrow> (u32 \<Rightarrow> nat option) \<Rightarrow> superblock \<Rightarrow> u32 \<Rightarrow> bool" where
  "spare s H sb r \<longleftrightarrow> blk_ok s H r \<and> r \<noteq> 1 \<and> (\<forall>c < sb_size sb. r \<noteq> BBLOCK c (sb_ninodes sb))"

definition alloc_inv :: "'z lmach_scheme \<Rightarrow> bool" where
  "alloc_inv s \<longleftrightarrow> (let sb = get_sb (tview s 1) in meta_ok s (bheld s) sb \<and> (\<forall>r \<in> free_set s. spare s (bheld s) sb r))"

lemma bit_free_other:
  assumes "i \<noteq> j"
  shows "bit_free (d(i div 8 := d (i div 8) OR bit_mask i)) j = bit_free d j"
    "bit_free (d(i div 8 := d (i div 8) AND NOT (bit_mask i))) j = bit_free d j"
proof -
  have "bit_mask i AND bit_mask j = 0" if "i div 8 = j div 8"
  proof -
    have "i mod 8 \<noteq> j mod 8" using that assms by (metis mult_div_mod_eq)
    then show ?thesis by (auto intro!: bit_word_eqI simp: bit_mask_def bit_simps)
  qed
  moreover have "(x OR m) AND n = x AND n" "(x AND NOT m) AND n = x AND n" if "m AND n = 0" for x m n :: u8
    using that by (auto simp: bit_eq_iff bit_simps)
  ultimately show "bit_free (d(i div 8 := d (i div 8) OR bit_mask i)) j = bit_free d j"
    "bit_free (d(i div 8 := d (i div 8) AND NOT (bit_mask i))) j = bit_free d j"
    by (auto simp: bit_free_def)
qed

lemma BBLOCK_inj:
  assumes "BBLOCK b n = BBLOCK c n" "unat b mod BPB = unat c mod BPB"
  shows "b = c"
proof -
  have "unat (b div 4096) = unat (c div 4096)" using assms(1) by (simp add: BBLOCK_def)
  then have "unat b div 4096 = unat c div 4096" by (simp add: unat_div)
  moreover have "unat b mod 4096 = unat c mod 4096" using assms(2) by simp
  ultimately have "unat b = unat c" by (metis div_mod_decomp)
  then show ?thesis by (simp only: word_unat_eq_iff)
qed

lemma blk_free_mark:
  "blk_free (mark_used sb b V) sb c \<longleftrightarrow> c \<noteq> b \<and> blk_free V sb c"
  "blk_free (mark_free sb b V) sb c \<longleftrightarrow> c = b \<or> blk_free V sb c"
proof -
  have "bit_free (d(i div 8 := d (i div 8) AND NOT (bit_mask i))) i" for d i
    by (auto simp: bit_free_def intro!: bit_word_eqI simp: bit_simps)
  then have "c = b \<Longrightarrow> blk_free (mark_free sb b V) sb c" by (simp add: blk_free_def mark_free_def Let_def)
  moreover have "c \<noteq> b \<Longrightarrow> blk_free (mark_used sb b V) sb c = blk_free V sb c \<and> blk_free (mark_free sb b V) sb c = blk_free V sb c"
  proof -
    assume "c \<noteq> b"
    then have "unat b mod BPB \<noteq> unat c mod BPB" if "BBLOCK c (sb_ninodes sb) = BBLOCK b (sb_ninodes sb)"
      using BBLOCK_inj [OF that] by auto
    then show ?thesis by (cases "BBLOCK c (sb_ninodes sb) = BBLOCK b (sb_ninodes sb)")
      (simp_all add: blk_free_def mark_used_def mark_free_def Let_def bit_free_other del: BPB_def)
  qed
  ultimately show "blk_free (mark_used sb b V) sb c \<longleftrightarrow> c \<noteq> b \<and> blk_free V sb c"
    "blk_free (mark_free sb b V) sb c \<longleftrightarrow> c = b \<or> blk_free V sb c"
    using mark_used_not_free [of sb b V] by auto
qed

lemma first_free_None:
  assumes "first_free V sb = None" "c < sb_size sb"
  shows "\<not> blk_free V sb c"
  using find_upt_None [OF assms(1) [unfolded first_free_def], of "unat c"] assms(2) by (simp add: word_less_nat_alt)

lemma first_free_Min:
  assumes "first_free V sb = Some r"
  shows "of_nat r < sb_size sb" "blk_free V sb (of_nat r)" "\<And>c. c < sb_size sb \<Longrightarrow> blk_free V sb c \<Longrightarrow> of_nat r \<le> c"
proof -
  have f: "r < unat (sb_size sb)" "blk_free V sb (of_nat r)" "\<And>j. j < r \<Longrightarrow> \<not> blk_free V sb (of_nat j)"
    using find_upt_Some [of _ 0 "unat (sb_size sb)" r] assms by (auto simp: first_free_def)
  have r: "unat (of_nat r :: u32) = r" using f(1) unat32_lt [of "sb_size sb"] by (intro unat32_of_nat) linarith
  show "of_nat r < sb_size sb" using f(1) r by (simp add: word_less_nat_alt)
  show "blk_free V sb (of_nat r)" by (rule f(2))
  show "of_nat r \<le> c" if "blk_free V sb c" for c
    using f(3) [of "unat c"] that r by (auto simp: word_le_nat_alt not_less [symmetric])
qed

lemma zeroed_other: "x \<noteq> r \<Longrightarrow> zeroed r V x = V x"
  by (simp add: zeroed_def)

lemma mark_other:
  "x \<noteq> BBLOCK r (sb_ninodes sb) \<Longrightarrow> mark_used sb r V x = V x"
  "x \<noteq> BBLOCK r (sb_ninodes sb) \<Longrightarrow> mark_free sb r V x = V x"
  by (simp_all add: mark_used_def mark_free_def Let_def)

lemma blk_free_zeroed: "r \<noteq> BBLOCK c (sb_ninodes sb) \<Longrightarrow> blk_free (zeroed r V) sb c = blk_free V sb c"
  by (simp add: blk_free_def zeroed_def)

lemma room_for_add:
  assumes "finite (A :: u32 set)" "card A + 2 < min NBUF (log_room s)"
  shows "room_for s (A \<union> {x, y})"
proof -
  have "card (A \<union> {x, y}) \<le> card A + card {x, y}" by (rule card_Un_le)
  moreover have "card {x, y} \<le> 2" by (simp add: card_insert_if)
  ultimately show ?thesis using assms by (simp add: room_for_def)
qed

lemma meta_ok_post: "tpost s V L M H t \<Longrightarrow> meta_ok t H sb = meta_ok s H sb \<and> spare t H sb r = spare s H sb r
    \<and> log_room t = log_room s"
  using tframe_same [of s t] by (simp add: tpost_def meta_ok_def spare_def blk_ok_def log_room_def)

lemma alloc_inv_sub:
  assumes "tpost s V L {} H t" "alloc_inv s" "H = bheld s" "get_sb (V 1) = get_sb (tview s 1)" "free_set t \<subseteq> free_set s"
  shows "alloc_inv t"
  using assms meta_ok_post [OF assms(1)] by (auto simp: alloc_inv_def tpost_def Let_def)

text \<open>What \<open>balloc\<close> and \<open>bfree\<close> do to the set.\<close>

lemma balloc_free_set:
  assumes p: "in_trans s {}" "alloc_inv s" "card (lhset s \<union> dom (bheld s)) + 2 < min NBUF (log_room s)"
    and sb: "sb = get_sb (tview s 1)" and k: "first_free (tview s) sb = Some k"
  defines "r \<equiv> of_nat k :: u32"
  shows "\<exists>t. balloc 1 s = Ok r t \<and> free_set t = free_set s - {r} \<and> get_sb (tview t 1) = sb
    \<and> tpost s (zeroed r (mark_used sb r (tview s))) (insert r (insert (BBLOCK r (sb_ninodes sb)) (lhset s))) {} (bheld s) t"
proof -
  let ?V = "tview s" and ?H = "bheld s" and ?L = "lhset s" and ?c = "BBLOCK r (sb_ninodes sb)"
  let ?V1 = "zeroed r (mark_used sb r ?V)" and ?L1 = "insert r (insert ?c ?L)"
  have q: "tpost s ?V ?L {} ?H s" using p(1) by (simp add: tpost_def)
  have fs: "free_set s = {b. b < sb_size sb \<and> blk_free ?V sb b}" by (simp add: free_set_eq sb)
  have f: "r < sb_size sb" "blk_free ?V sb r" using first_free_Min [OF k] by (simp_all add: r_def)
  have m: "meta_ok s ?H sb" "spare s ?H sb r" using p(2) f by (auto simp: alloc_inv_def fs Let_def simp flip: sb)
  then have n: "r \<noteq> 1" "?c \<noteq> 1" "\<And>c. c < sb_size sb \<Longrightarrow> r \<noteq> BBLOCK c (sb_ninodes sb)"
    using f(1) by (auto simp: spare_def meta_ok_def)
  have "runs (balloc 1) s (\<lambda>x t. x = r \<and> tpost s ?V1 ?L1 {} ?H t)"
    by (rule balloc_runs [OF q _ room_for_add [OF _ p(3), of ?c r] _ sb _ k]) (use m in \<open>auto simp: spare_def meta_ok_def r_def\<close>)
  then obtain t where t: "balloc 1 s = Ok r t" "tpost s ?V1 ?L1 {} ?H t" by (auto simp: runs_def)
  then have tv: "tview t = ?V1" by (simp add: tpost_def)
  then have s1: "get_sb (tview t 1) = sb" using n by (simp add: zeroed_other mark_other sb)
  have "blk_free ?V1 sb c \<longleftrightarrow> c \<noteq> r \<and> blk_free ?V sb c" if "c < sb_size sb" for c
    using n(3) [OF that] by (simp add: blk_free_zeroed blk_free_mark)
  then have "free_set t = free_set s - {r}" unfolding fs free_set_eq [OF s1] tv by auto
  with t s1 show ?thesis by blast
qed

lemma bfree_free_set:
  assumes p: "in_trans t {}" "meta_ok t (bheld t) sb" "sb = get_sb (tview t 1)" "b < sb_size sb"
    "room_for t (lhset t \<union> dom (bheld t) \<union> {BBLOCK b (sb_ninodes sb)})"
  shows "b \<notin> free_set t \<Longrightarrow> \<exists>u. bfree 1 b t = Ok () u \<and> free_set u = insert b (free_set t) \<and> get_sb (tview u 1) = sb
      \<and> tpost t (mark_free sb b (tview t)) (insert (BBLOCK b (sb_ninodes sb)) (lhset t)) {} (bheld t) u"
    and "b \<in> free_set t \<Longrightarrow> bfree 1 b t = Panic ''freeing free block''"
proof -
  let ?V = "tview t" and ?H = "bheld t" and ?L = "lhset t" and ?c = "BBLOCK b (sb_ninodes sb)"
  have q: "tpost t ?V ?L {} ?H t" using p(1) by (simp add: tpost_def)
  have fs: "free_set t = {b. b < sb_size sb \<and> blk_free ?V sb b}" by (simp add: free_set_eq p(3))
  have ok: "blk_ok t ?H 1" "blk_ok t ?H ?c" "?c \<noteq> 1" using p(2,4) by (auto simp: meta_ok_def)
  note run = bfree_runs [OF q _ p(5) ok(1) p(3) ok(2)]
  show "b \<in> free_set t \<Longrightarrow> bfree 1 b t = Panic ''freeing free block''" by (rule run(2)) (auto simp: fs)
  assume "b \<notin> free_set t"
  then have "runs (bfree 1 b) t (\<lambda>_ u. tpost t (mark_free sb b ?V) (insert ?c ?L) {} ?H u)"
    by (intro run(1)) (use p(4) in \<open>auto simp: fs\<close>)
  then obtain u where u: "bfree 1 b t = Ok () u" "tpost t (mark_free sb b ?V) (insert ?c ?L) {} ?H u" by (auto simp: runs_def)
  then have uv: "tview u = mark_free sb b ?V" by (simp add: tpost_def)
  then have s1: "get_sb (tview u 1) = sb" using ok(3) p(3) by (simp add: mark_other)
  have "free_set u = insert b (free_set t)" unfolding free_set_eq [OF s1] fs uv using p(4) by (auto simp: blk_free_mark)
  with u s1 show "\<exists>u. bfree 1 b t = Ok () u \<and> free_set u = insert b (free_set t) \<and> get_sb (tview u 1) = sb
      \<and> tpost t (mark_free sb b (tview t)) (insert ?c (lhset t)) {} (bheld t) u" by blast
qed

text \<open>C3: the block allocator keeps a set of free blocks. In a transaction with room for two more blocks,
  balloc takes the lowest free block, fills it with zeros and touches no other block but its
  bitmap block; when no block is free it panics. Freeing the block makes it free again and no other
  block, and freeing it twice panics. No operation ever hands out the super block or the bitmap.\<close>

theorem balloc_bfree:
  assumes "in_trans s {}" "alloc_inv s" "card (lhset s \<union> dom (bheld s)) + 2 < min NBUF (log_room s)"
  shows "(free_set s = {} \<longrightarrow> balloc 1 s = Panic ''balloc: out of blocks'')
    \<and> (free_set s \<noteq> {} \<longrightarrow> (\<exists>r t u. r \<in> free_set s \<and> (\<forall>c \<in> free_set s. r \<le> c) \<and> balloc 1 s = Ok r t
        \<and> in_trans t {} \<and> alloc_inv t \<and> free_set t = free_set s - {r} \<and> (\<forall>i < BSIZE. tview t r i = 0)
        \<and> (\<forall>x. x \<noteq> r \<and> x \<noteq> BBLOCK r (sb_ninodes (get_sb (tview s 1))) \<longrightarrow> tview t x = tview s x)
        \<and> bfree 1 r t = Ok () u \<and> in_trans u {} \<and> alloc_inv u \<and> free_set u = free_set s
        \<and> bfree 1 r u = Panic ''freeing free block''))"
proof -
  let ?H = "bheld s" and ?L = "lhset s"
  define sb where "sb = get_sb (tview s 1)"
  have m: "meta_ok s ?H sb" using assms(2) by (auto simp: alloc_inv_def sb_def Let_def)
  have fs: "free_set s = {b. b < sb_size sb \<and> blk_free (tview s) sb b}" by (simp add: free_set_eq sb_def)
  show ?thesis
  proof (cases "first_free (tview s) sb")
    case None
    have "tpost s (tview s) ?L {} ?H s" using assms(1) by (simp add: tpost_def)
    then have "balloc 1 s = Panic ''balloc: out of blocks''"
      by (rule balloc_full [OF _ _ room_for_add [OF _ assms(3), of 0 0] _ sb_def _ None]) (use m in \<open>auto simp: meta_ok_def\<close>)
    then show ?thesis using first_free_None [OF None] by (auto simp: fs)
  next
    case (Some k)
    define r where "r = (of_nat k :: u32)"
    let ?c = "BBLOCK r (sb_ninodes sb)"
    note r = first_free_Min [OF Some, folded r_def]
    obtain t where t: "balloc 1 s = Ok r t" "free_set t = free_set s - {r}" "get_sb (tview t 1) = sb"
      "tpost s (zeroed r (mark_used sb r (tview s))) (insert r (insert ?c ?L)) {} ?H t"
      using balloc_free_set [OF assms sb_def Some] unfolding r_def by blast
    have h: "bheld t = ?H" "lhset t = insert r (insert ?c ?L)" "in_trans t {}" "log_room t = log_room s"
      "tview t = zeroed r (mark_used sb r (tview s))"
      using t(4) meta_ok_post [OF t(4)] by (simp_all add: tpost_def)
    have rt: "room_for t (lhset t \<union> dom (bheld t) \<union> {?c})"
      using room_for_add [OF _ assms(3), of ?c r] by (simp add: h room_for_def insert_commute Un_commute)
    have mt: "meta_ok t (bheld t) sb" using meta_ok_post [OF t(4)] m h(1) by simp
    obtain u where u: "bfree 1 r t = Ok () u" "free_set u = free_set s" "get_sb (tview u 1) = sb"
      "tpost t (mark_free sb r (tview t)) (insert ?c (lhset t)) {} (bheld t) u"
      using bfree_free_set(1) [OF h(3) mt t(3) [symmetric] r(1) rt] t(2) r by (auto simp: fs insert_absorb)
    have hu: "bheld u = ?H" "lhset u = lhset t" "in_trans u {}" using u(4) h by (auto simp: tpost_def)
    have mu: "meta_ok u (bheld u) sb" "room_for u (lhset u \<union> dom (bheld u) \<union> {?c})"
      using meta_ok_post [OF u(4)] mt rt hu h(1) by (simp_all add: room_for_def)
    have "bfree 1 r u = Panic ''freeing free block''"
      by (rule bfree_free_set(2) [OF hu(3) mu(1) u(3) [symmetric] r(1) mu(2)]) (use r u(2) in \<open>simp add: fs\<close>)
    moreover have "alloc_inv t" "alloc_inv u"
      using alloc_inv_sub [OF t(4) assms(2)] alloc_inv_sub [OF tpost_trans [OF t(4) u(4)] assms(2)] t u h
      by (auto simp: sb_def tpost_def)
    moreover have "\<forall>i < BSIZE. tview t r i = 0" by (simp add: zeroed_def h)
    ultimately show ?thesis
      using r t(1,2) u(1,2) h hu(3) by (auto simp: fs zeroed_other mark_other simp flip: sb_def)
  qed
qed

section \<open>A small file system\<close>

text \<open>A disk of 1024 blocks on which only block 5 is free, and block 2 has inode 1: a file of 700 bytes in the
  blocks 6 and 7.\<close>

definition ino1 :: dinode where
  "ino1 = \<lparr>di_type = 2, di_major = 0, di_minor = 0, di_nlink = 1, di_size = 700, di_addrs = (\<lambda>i. if i < 2 then 6 + of_nat i else 0)\<rparr>"

definition disk1 :: "u32 \<Rightarrow> bytes" where
  "disk1 = disk0(2 := put_dinode ino1 64 (\<lambda>_. 0), 3 := (\<lambda>i. if i = 0 then 0xDF else 0xFF),
     6 := (\<lambda>i. of_nat (i mod 256)), 7 := (\<lambda>i. of_nat (i mod 100)))"

text \<open>The machine after booting from that disk.\<close>

definition booted1 :: "imach \<Rightarrow> bool" where
  "booted1 t \<longleftrightarrow> log_idle t \<and> bheld t = Map.empty \<and> (\<forall>x < 1014. disk t x = disk1 x)
    \<and> lstart t = 1014 \<and> lsize t = 10 \<and> disksize t = 1024"

lemma booted1_ex: "\<exists>t. booted1 t"
proof -
  have e: "lstart imach0 = 1014" "lsize imach0 = 10" "ldev imach0 = 1" "disksize imach0 = 1024"
    by (simp_all add: imach0_def cmach0_def rmach0_def lmach0_def lmach.defs rmach.defs cmach.defs imach.defs)
  have h: "head_n (disk1 (lstart imach0)) = 0" by (simp add: e disk1_def disk0_def get32_def)
  have g: "log_geom imach0" by (simp add: log_geom_def e)
  have "sb_matches imach0 disk1" "head_ok imach0 disk1" "recovered imach0 disk1 = disk1"
    using recovered_empty [of disk1 imach0, OF h] by (simp_all add: sb_matches_def e disk1_def disk0_sb)
  then have "runs boot (reboot disk1 imach0) (\<lambda>_ t. booted1 t)"
    using reboot_recovers [of imach0 disk1] g e
    by (auto simp: booted1_def runs_def logsecs_def word_less_nat_alt)
  then show ?thesis by (auto simp: runs_def)
qed

text \<open>The machine in a transaction.\<close>

definition trans1 :: "imach \<Rightarrow> bool" where
  "trans1 s \<longleftrightarrow> in_trans s {} \<and> bheld s = Map.empty \<and> lhset s = {} \<and> (\<forall>x < 1014. tview s x = disk1 x)
    \<and> log_room s = 9 \<and> disksize s = 1024 \<and> logsecs s = {1014..<1024}"

lemma trans1_ex: "\<exists>s. trans1 s"
proof -
  obtain t where t: "booted1 t" using booted1_ex ..
  let ?s = "t\<lparr>lbusy := True\<rparr>"
  have b: "log_idle t" "bheld t = Map.empty" "\<And>x. x < 1014 \<Longrightarrow> disk t x = disk1 x" "lstart t = 1014" "lsize t = 10" "disksize t = 1024"
    using t by (auto simp: booted1_def)
  have l: "logsecs t = {1014..<1024}" using b by (auto simp: logsecs_def word_le_nat_alt word_less_nat_alt)
  then have "tview t x = disk1 x" if "x < 1014" for x
    using b(1) that b(3) [OF that] by (auto simp: tview_def log_idle_def)
  moreover have "bheld ?s = bheld t" by (rule cache_cong) simp_all
  moreover have "logsecs ?s = logsecs t" "log_room ?s = 9" using b by (simp_all add: logsecs_def log_room_def)
  ultimately have "trans1 ?s" using log_idle_begin [OF b(1)] b l by (simp add: trans1_def)
  then show ?thesis ..
qed

lemma BBLOCK_low: "unat r < 4096 \<Longrightarrow> BBLOCK r 0 = 3"
proof -
  assume "unat r < 4096"
  then have "r div 4096 = 0" by (simp add: word_unat_eq_iff unat_div)
  then show ?thesis by (simp add: BBLOCK_def)
qed

lemma disk1_free: "unat r < 1024 \<Longrightarrow> blk_free disk1 (get_sb (disk1 1)) r \<longleftrightarrow> r = 5"
proof -
  assume r: "unat r < 1024"
  have "blk_free disk1 (get_sb (disk1 1)) r = bit_free (disk1 3) (unat r)"
    using r BBLOCK_low [of r] by (simp add: blk_free_def disk1_def disk0_sb)
  also have "\<dots> \<longleftrightarrow> unat r = 5"
  proof (cases "unat r < 8")
    case True
    then have "unat r \<in> {0,1,2,3,4,5,6,7}" by auto
    then show ?thesis by (auto simp: bit_free_def disk1_def bit_mask_def)
  next
    case False
    have "bit_free (disk1 3) (unat r) = (0xFF AND bit_mask (unat r) = 0)" using False by (simp add: bit_free_def disk1_def div_eq_0_iff)
    moreover have "(0xFF :: u8) = - 1" by simp
    ultimately show ?thesis using False by (simp only:) (simp add: bit_mask_def)
  qed
  also have "\<dots> \<longleftrightarrow> r = 5" by (auto simp: word_unat_eq_iff)
  finally show ?thesis .
qed

lemma trans1_free:
  assumes "trans1 s"
  shows "free_set s = {5}" "alloc_inv s"
proof -
  have v: "tview s 1 = disk0 1" "tview s 3 = disk1 3" using assms by (simp_all add: trans1_def disk1_def)
  have B: "BBLOCK r 0 = 3" if "r < 1024" for r
    using that by (simp add: BBLOCK_low word_less_nat_alt)
  have "blk_free (tview s) (get_sb (disk0 1)) r = blk_free disk1 (get_sb (disk1 1)) r" if "r < 1024" for r
    using v B [OF that] by (simp add: blk_free_def disk0_sb) (simp add: disk1_def disk0_sb B [OF that])
  then show f: "free_set s = {5}"
    using disk1_free by (auto simp: free_set_eq [OF refl] v disk0_sb word_less_nat_alt)
  show "alloc_inv s"
    using assms B by (auto simp: alloc_inv_def f v disk0_sb meta_ok_def spare_def blk_ok_def trans1_def word_le_nat_alt)
qed

theorem balloc_bfree_witness:
  "\<exists>s t :: imach. balloc 1 s = Ok 5 t \<and> free_set s = {5} \<and> free_set t = {} \<and> tview t 5 0 = 0"
proof -
  obtain s where s: "trans1 s" using trans1_ex ..
  have "in_trans s {}" "card (lhset s \<union> dom (bheld s)) + 2 < min NBUF (log_room s)" using s by (simp_all add: trans1_def)
  with balloc_bfree [of s] trans1_free [OF s] have "\<exists>t. balloc 1 s = Ok 5 t \<and> free_set s = {5} \<and> free_set t = {} \<and> tview t 5 0 = 0" by auto
  then show ?thesis ..
qed

end
