(* ===== verification/Content.thy ===== *)
theory Content
  imports Alloc
begin

text \<open>
  What the inode layer of \<^verbatim>\<open>fs.c\<close> does: the inode cache as a count of references (\<open>iget\<close>, \<open>idup\<close>,
  \<open>iput\<close>), the way of an inode to disk and back (\<open>iupdate\<close>, \<open>ilock\<close>), and the content of a file
  through \<open>bmap\<close> and \<open>readi\<close>.
\<close>

section \<open>The codec of disk inodes\<close>

lemma put_addrs:
  "j < k \<Longrightarrow> get32 (foldl (\<lambda>e i. put32 e (p + 4 * i) (a i)) d [0..<k]) (p + 4 * j) = a j"
  "q + n \<le> p \<or> p + 4 * k \<le> q \<Longrightarrow> i < n \<Longrightarrow> foldl (\<lambda>e i. put32 e (p + 4 * i) (a i)) d [0..<k] (q + i) = d (q + i)"
proof (induction k)
  case (Suc k)
  { case 1 then show ?case using Suc by (cases "j = k") (auto simp: get32_put32_other) }
  { case 2 then show ?case using Suc by (auto simp: put32_other) }
qed simp_all

lemma put_addrs_get:
  "q + 2 \<le> p \<Longrightarrow> get16 (foldl (\<lambda>e i. put32 e (p + 4 * i) (a i)) d [0..<k]) q = get16 d q"
  "q + 4 \<le> p \<Longrightarrow> get32 (foldl (\<lambda>e i. put32 e (p + 4 * i) (a i)) d [0..<k]) q = get32 d q"
  using put_addrs(2) [of q 2 p k 0 a d] put_addrs(2) [of q 2 p k 1 a d] put_addrs(2) [of q 4 p k _ a d]
  by (auto intro!: get16_cong get32_cong)

lemma get_put_dinode:
  "di_type (get_dinode (put_dinode di p d) p) = di_type di" "di_major (get_dinode (put_dinode di p d) p) = di_major di"
  "di_minor (get_dinode (put_dinode di p d) p) = di_minor di" "di_nlink (get_dinode (put_dinode di p d) p) = di_nlink di"
  "di_size (get_dinode (put_dinode di p d) p) = di_size di"
  "j < NDIRECT + 1 \<Longrightarrow> di_addrs (get_dinode (put_dinode di p d) p) j = di_addrs di j"
  by (simp_all add: get_dinode_def put_dinode_def Let_def put_addrs put_addrs_get get_put_other del: upt.simps upt_Suc)

lemma put_dinode_other:
  assumes "k < p \<or> p + dinode_size \<le> k"
  shows "put_dinode di p d k = d k"
  using put_addrs(2) [of k 1 "p + 12" 13 0] assms
  by (auto simp: put_dinode_def Let_def put16_other put32_other simp del: upt.simps upt_Suc)

text \<open>Disk inodes of one block do not overlap.\<close>

lemma get_dinode_cong:
  "(\<And>k. p \<le> k \<Longrightarrow> k < p + 64 \<Longrightarrow> d k = e k) \<Longrightarrow> (\<forall>j < NDIRECT + 1. di_addrs (get_dinode d p) j = di_addrs (get_dinode e p) j)
    \<and> (get_dinode d p)\<lparr>di_addrs := f\<rparr> = (get_dinode e p)\<lparr>di_addrs := f\<rparr>"
  by (auto simp: get_dinode_def intro!: get16_cong get32_cong)


section \<open>The inode cache\<close>

text \<open>The cache is well formed when no count is negative and no inode is in two slots in use. It stands
  for the number of references to each inode.\<close>

definition icache_ok :: "'z imach_scheme \<Rightarrow> bool" where
  "icache_ok s \<longleftrightarrow> (\<forall>k < NINODE. 0 \<le> iref (icache s k))
     \<and> (\<forall>j < NINODE. \<forall>k < NINODE. 0 < iref (icache s j) \<and> 0 < iref (icache s k)
         \<and> idev (icache s j) = idev (icache s k) \<and> inum (icache s j) = inum (icache s k) \<longrightarrow> j = k)"

definition irefs :: "'z imach_scheme \<Rightarrow> u32 \<times> u32 \<Rightarrow> int" where
  "irefs s x = (\<Sum>k < NINODE. if (idev (icache s k), inum (icache s k)) = x then iref (icache s k) else 0)"

definition with_ino :: "nat \<Rightarrow> inode \<Rightarrow> 'z imach_scheme \<Rightarrow> 'z imach_scheme" where
  "with_ino ip x s = s\<lparr>icache := (icache s)(ip := x)\<rparr>"

lemma with_ino_simps [simp]:
  "icache (with_ino ip x s) = (icache s)(ip := x)" "lk (with_ino ip x s) = lk s"
  "quiet (with_ino ip x s) = quiet s"
  by (simp_all add: with_ino_def cong: quiet_cong)

lemma set_ino_run: "set_ino ip f s = Ok () (with_ino ip (f (icache s ip)) s)"
  by (simp add: set_ino_def with_ino_def modk_def)

lemma ino_release:
  "quiet s \<Longrightarrow> release IcacheLock (with_ino ip x (s\<lparr>lk := lk_acq IcacheLock (lk s)\<rparr>)) = Ok () (with_ino ip x s)"
  using release_acq [of "with_ino ip x (s\<lparr>lk := lk_acq IcacheLock (lk s)\<rparr>)" IcacheLock "lk s"] by (simp add: with_ino_def)

text \<open>A cache operation under the lock of the cache.\<close>

lemma ino_locked:
  assumes "quiet s"
  shows "thenk (acquire IcacheLock) (thenk (set_ino ip f) (thenk (release IcacheLock) (retk r))) s
    = Ok r (with_ino ip (f (icache s ip)) s)"
  using assms by (simp add: acquire_ok set_ino_run ino_release)

lemma irefs_upd:
  assumes "ip < NINODE"
  shows "irefs (with_ino ip x s) = (\<lambda>y. irefs s y
     - (if (idev (icache s ip), inum (icache s ip)) = y then iref (icache s ip) else 0)
     + (if (idev x, inum x) = y then iref x else 0))"
proof
  fix y
  let ?f = "\<lambda>x. if (idev x, inum x) = y then iref x else 0"
  have i: "ip \<in> {..<NINODE}" using assms by simp
  have "(\<Sum>k < NINODE. ?f (icache s k)) = ?f (icache s ip) + (\<Sum>k \<in> {..<NINODE} - {ip}. ?f (icache s k))"
    by (rule sum.remove [OF _ i]) simp
  moreover have "(\<Sum>k < NINODE. ?f (((icache s)(ip := x)) k)) = ?f x + (\<Sum>k \<in> {..<NINODE} - {ip}. ?f (icache s k))"
    by (subst sum.remove [OF _ i]) (auto intro!: sum.cong split: if_splits)
  ultimately show "irefs (with_ino ip x s) y = irefs s y - ?f (icache s ip) + ?f x"
    by (simp only: irefs_def with_ino_simps)
qed

lemma iget_hit:
  assumes "quiet s" "find (\<lambda>k. iref (icache s k) > 0 \<and> idev (icache s k) = d \<and> inum (icache s k) = n) [0..<NINODE] = Some ip"
  shows "iget d n s = Ok ip (with_ino ip ((icache s ip)\<lparr>iref := iref (icache s ip) + 1\<rparr>) s)"
  using ino_locked [OF assms(1), of ip "\<lambda>x. x\<lparr>iref := iref x + 1\<rparr>" ip] assms
  by (simp add: iget_def acquire_ok thenk_def del: NINODE_def)

lemma iget_miss:
  assumes "quiet s" "find (\<lambda>k. iref (icache s k) > 0 \<and> idev (icache s k) = d \<and> inum (icache s k) = n) [0..<NINODE] = None"
  shows "find (\<lambda>k. iref (icache s k) = 0) [0..<NINODE] = Some ip \<Longrightarrow>
      iget d n s = Ok ip (with_ino ip ((icache s ip)\<lparr>idev := d, inum := n, iref := 1, ibusy := False, ivalid := False\<rparr>) s)"
    and "find (\<lambda>k. iref (icache s k) = 0) [0..<NINODE] = None \<Longrightarrow> iget d n s = Panic ''iget: no inodes''"
  using ino_locked [OF assms(1), of ip "\<lambda>x. x\<lparr>idev := d, inum := n, iref := 1, ibusy := False, ivalid := False\<rparr>" ip] assms
  by (simp_all add: iget_def acquire_ok thenk_def bindk_def panic_def del: NINODE_def)

lemma icache_ok_upd:
  assumes "icache_ok s" "0 \<le> iref x"
    and "\<And>k. 0 < iref x \<Longrightarrow> k < NINODE \<Longrightarrow> k \<noteq> ip \<Longrightarrow> 0 < iref (icache s k) \<Longrightarrow>
      (idev (icache s k), inum (icache s k)) \<noteq> (idev x, inum x)"
  shows "icache_ok (with_ino ip x s)"
  unfolding icache_ok_def
proof (intro conjI allI impI)
  fix k assume "k < NINODE"
  then show "0 \<le> iref (icache (with_ino ip x s) k)" using assms(1,2) by (simp add: icache_ok_def)
next
  fix j k assume a: "j < NINODE" "k < NINODE" "0 < iref (icache (with_ino ip x s) j) \<and> 0 < iref (icache (with_ino ip x s) k)
    \<and> idev (icache (with_ino ip x s) j) = idev (icache (with_ino ip x s) k)
    \<and> inum (icache (with_ino ip x s) j) = inum (icache (with_ino ip x s) k)"
  have "j = k" if "j \<noteq> ip" "k \<noteq> ip" using a that assms(1) unfolding icache_ok_def with_ino_simps by auto
  then show "j = k" using a assms(3) [of j] assms(3) [of k] by (cases "j = ip"; cases "k = ip") auto
qed

text \<open>A slot in use with another count.\<close>

lemma iref_step:
  assumes "icache_ok s" "ip < NINODE" "0 < iref (icache s ip)" "0 \<le> r"
  defines "y \<equiv> (idev (icache s ip), inum (icache s ip))" and "t \<equiv> with_ino ip ((icache s ip)\<lparr>iref := r\<rparr>) s"
  shows "icache_ok t" "irefs t = (irefs s)(y := irefs s y + (r - iref (icache s ip)))"
proof -
  show "icache_ok t" unfolding t_def
    by (rule icache_ok_upd [OF assms(1)]) (use assms(1-4) in \<open>auto simp: icache_ok_def\<close>)
  show "irefs t = (irefs s)(y := irefs s y + (r - iref (icache s ip)))"
    unfolding t_def irefs_upd [OF assms(2)] y_def by (auto simp: fun_eq_iff)
qed

lemma iput_keeps:
  assumes "quiet s" "\<not> (iref (icache s ip) = 1 \<and> ivalid (icache s ip) \<and> inlink (icache s ip) = 0)"
  shows "iput ip s = Ok () (with_ino ip ((icache s ip)\<lparr>iref := iref (icache s ip) - 1\<rparr>) s)"
  using assms by (auto simp: iput_def acquire_ok get_ino_def set_ino_run whenk_def ino_release)

lemma iget_run:
  assumes "quiet s" "icache_ok s"
    and "\<exists>k < NINODE. iref (icache s k) = 0 \<or> 0 < iref (icache s k) \<and> (idev (icache s k), inum (icache s k)) = (d, n)"
  shows "\<exists>ip x. ip < NINODE \<and> (idev x, inum x) = (d, n) \<and> iget d n s = Ok ip (with_ino ip x s)
        \<and> icache_ok (with_ino ip x s) \<and> irefs (with_ino ip x s) = (irefs s)((d, n) := irefs s (d, n) + 1)
        \<and> (ivalid x \<longrightarrow> ivalid (icache s ip) \<and> (idev (icache s ip), inum (icache s ip)) = (d, n))"
proof (cases "find (\<lambda>k. iref (icache s k) > 0 \<and> idev (icache s k) = d \<and> inum (icache s k) = n) [0..<NINODE]")
  case (Some ip)
  then have ip: "ip < NINODE" "0 < iref (icache s ip)" "idev (icache s ip) = d" "inum (icache s ip) = n"
    using find_upt_Some [OF Some] by auto
  let ?x = "(icache s ip)\<lparr>iref := iref (icache s ip) + 1\<rparr>"
  have "icache_ok (with_ino ip ?x s)" "irefs (with_ino ip ?x s) = (irefs s)((d, n) := irefs s (d, n) + 1)"
    using iref_step [OF assms(2) ip(1,2), of "iref (icache s ip) + 1"] ip(2-4) by simp_all
  then show ?thesis using iget_hit [OF assms(1) Some] ip by (intro exI [of _ ip] exI [of _ ?x]) simp
next
  case None
  note m = iget_miss [OF assms(1) None] and no = find_upt_None [OF None]
  obtain ip where z: "find (\<lambda>k. iref (icache s k) = 0) [0..<NINODE] = Some ip"
    using assms(3) no find_upt_None [of "\<lambda>k. iref (icache s k) = 0" 0 NINODE]
    by (cases "find (\<lambda>k. iref (icache s k) = 0) [0..<NINODE]") auto
  have ip: "ip < NINODE" "iref (icache s ip) = 0" using find_upt_Some [OF z] by auto
  let ?x = "(icache s ip)\<lparr>idev := d, inum := n, iref := 1, ibusy := False, ivalid := False\<rparr>"
  have "icache_ok (with_ino ip ?x s)" by (rule icache_ok_upd [OF assms(2)]) (use no in auto)
  moreover have "irefs (with_ino ip ?x s) = (irefs s)((d, n) := irefs s (d, n) + 1)"
    unfolding irefs_upd [OF ip(1)] using ip(2) by (auto simp: fun_eq_iff)
  ultimately show ?thesis using m(1) [OF z] ip(1) by (intro exI [of _ ip] exI [of _ ?x]) auto
qed

lemma iget_full:
  assumes "quiet s" "\<not> (\<exists>k < NINODE. iref (icache s k) = 0 \<or> 0 < iref (icache s k) \<and> (idev (icache s k), inum (icache s k)) = (d, n))"
  shows "iget d n s = Panic ''iget: no inodes''"
  by (rule iget_miss(2) [OF assms(1)]) (use assms(2) in \<open>auto simp: find_None_iff\<close>)

text \<open>C19: the inode cache stays well formed and counts references. iget returns the slot of the inode,
  the one that already holds it or an unused one, with one more reference, and panics exactly when the
  inode is not cached and every slot is in use. idup adds a reference; iput takes one away, as long as it
  is not the last one to a file without links. No operation touches another slot.\<close>

theorem icache_refs:
  assumes "quiet s" "icache_ok s"
  shows "(if (\<exists>k < NINODE. iref (icache s k) = 0 \<or> 0 < iref (icache s k) \<and> (idev (icache s k), inum (icache s k)) = (d, n))
      then \<exists>ip x. ip < NINODE \<and> (idev x, inum x) = (d, n) \<and> iget d n s = Ok ip (with_ino ip x s)
        \<and> icache_ok (with_ino ip x s) \<and> irefs (with_ino ip x s) = (irefs s)((d, n) := irefs s (d, n) + 1)
        \<and> (ivalid x \<longrightarrow> ivalid (icache s ip) \<and> (idev (icache s ip), inum (icache s ip)) = (d, n))
      else iget d n s = Panic ''iget: no inodes'')
    \<and> (\<forall>ip < NINODE. 0 < iref (icache s ip) \<longrightarrow> (let y = (idev (icache s ip), inum (icache s ip)) in
        (\<exists>x. idup ip s = Ok ip (with_ino ip x s) \<and> icache_ok (with_ino ip x s)
          \<and> irefs (with_ino ip x s) = (irefs s)(y := irefs s y + 1))
      \<and> (\<not> (iref (icache s ip) = 1 \<and> ivalid (icache s ip) \<and> inlink (icache s ip) = 0) \<longrightarrow>
        (\<exists>x. iput ip s = Ok () (with_ino ip x s) \<and> icache_ok (with_ino ip x s)
          \<and> irefs (with_ino ip x s) = (irefs s)(y := irefs s y - 1)))))"
proof (intro conjI allI impI)
  show "if (\<exists>k < NINODE. iref (icache s k) = 0 \<or> 0 < iref (icache s k) \<and> (idev (icache s k), inum (icache s k)) = (d, n))
      then \<exists>ip x. ip < NINODE \<and> (idev x, inum x) = (d, n) \<and> iget d n s = Ok ip (with_ino ip x s)
        \<and> icache_ok (with_ino ip x s) \<and> irefs (with_ino ip x s) = (irefs s)((d, n) := irefs s (d, n) + 1)
        \<and> (ivalid x \<longrightarrow> ivalid (icache s ip) \<and> (idev (icache s ip), inum (icache s ip)) = (d, n))
      else iget d n s = Panic ''iget: no inodes''"
    unfolding if_bool_eq_conj using iget_run [OF assms, of d n] iget_full [OF assms(1), of d n] by blast
next
  fix ip assume ip: "ip < NINODE" "0 < iref (icache s ip)"
  note step = iref_step [OF assms(2) ip]
  show "let y = (idev (icache s ip), inum (icache s ip)) in
        (\<exists>x. idup ip s = Ok ip (with_ino ip x s) \<and> icache_ok (with_ino ip x s)
          \<and> irefs (with_ino ip x s) = (irefs s)(y := irefs s y + 1))
      \<and> (\<not> (iref (icache s ip) = 1 \<and> ivalid (icache s ip) \<and> inlink (icache s ip) = 0) \<longrightarrow>
        (\<exists>x. iput ip s = Ok () (with_ino ip x s) \<and> icache_ok (with_ino ip x s)
          \<and> irefs (with_ino ip x s) = (irefs s)(y := irefs s y - 1)))"
    using step [of "iref (icache s ip) + 1"] step [of "iref (icache s ip) - 1"] ip(2) iput_keeps [OF assms(1), of ip]
      ino_locked [OF assms(1), of ip "\<lambda>x. x\<lparr>iref := iref x + 1\<rparr>" ip]
    by (auto simp: Let_def idup_def)
qed

theorem icache_refs_witness:
  "\<exists>ip x. iget 1 7 imach0 = Ok ip (with_ino ip x imach0) \<and> irefs (with_ino ip x imach0) (1, 7) = 1"
proof -
  have "icache_ok imach0" "irefs imach0 (1, 7) = 0" by (auto simp: icache_ok_def irefs_def intro!: sum.neutral)
  moreover have "\<exists>k :: nat. k < 50" by (rule exI [of _ 0]) simp
  ultimately obtain ip x where "iget 1 7 imach0 = Ok ip (with_ino ip x imach0)"
    "irefs (with_ino ip x imach0) = (irefs imach0)((1, 7) := irefs imach0 (1, 7) + 1)" "irefs imach0 (1, 7) = 0"
    using icache_refs [of imach0 1 7] by auto
  then show ?thesis by (intro exI [of _ ip] exI [of _ x]) simp
qed

section \<open>Inodes on disk\<close>

lemma cache_ino [simp]:
  "bio_ok (with_ino ip x s) = bio_ok s" "bview (with_ino ip x s) = bview s" "bheld (with_ino ip x s) = bheld s"
  "bdirty (with_ino ip x s) = bdirty s"
  by (rule cache_cong; simp add: with_ino_def)+

lemma with_ino_sel [simp]:
  "disk (with_ino ip x s) = disk s" "dtrace (with_ino ip x s) = dtrace s" "disksize (with_ino ip x s) = disksize s"
  "ptable (with_ino ip x s) = ptable s" "with_ino ip y (with_ino ip x s) = with_ino ip y s"
  by (simp_all add: with_ino_def)

lemma bframe_ino: "bframe s t \<Longrightarrow> icache t = icache s \<and> bframe (with_ino ip x s) (with_ino ip x t)"
proof -
  assume b: "bframe s t"
  then have t: "t = s\<lparr>ptable := ptable t, bufs := bufs t, bnext := bnext t, bprev := bprev t, disk := disk t, dtrace := dtrace t\<rparr>"
    and p: "pt_woken (ptable s) (ptable t)" by (simp_all add: bframe_def)
  have i: "icache t = icache s" by (subst t) simp
  have "with_ino ip x t = with_ino ip x s\<lparr>ptable := ptable t, bufs := bufs t, bnext := bnext t, bprev := bprev t, disk := disk t, dtrace := dtrace t\<rparr>"
    unfolding with_ino_def i by (subst t) simp
  with i p show ?thesis by (simp add: bframe_def with_ino_def)
qed

lemma bpost_ino:
  assumes "bpost s V D H k w t"
  shows "icache t = icache s" "bpost (with_ino ip x s) V D H k w (with_ino ip x t)"
  using assms bframe_ino [of s t ip x] by (auto simp: bpost_def)

text \<open>The part of an inode in memory that has a copy on disk, and an inode filled from its copy.\<close>

definition dino :: "inode \<Rightarrow> dinode" where
  "dino x = \<lparr>di_type = itype x, di_major = imajor x, di_minor = iminor x, di_nlink = inlink x, di_size = isize x, di_addrs = iaddrs x\<rparr>"

definition loaded :: "dinode \<Rightarrow> inode \<Rightarrow> inode" where
  "loaded di x = x\<lparr>ibusy := True, ivalid := True, itype := di_type di, imajor := di_major di, iminor := di_minor di,
     inlink := di_nlink di, isize := di_size di, iaddrs := (\<lambda>i. if i < NDIRECT + 1 then di_addrs di i else iaddrs x i)\<rparr>"

definition same_dino :: "inode \<Rightarrow> inode \<Rightarrow> bool" where
  "same_dino x y \<longleftrightarrow> dino (x\<lparr>iaddrs := (\<lambda>_. 0)\<rparr>) = dino (y\<lparr>iaddrs := (\<lambda>_. 0)\<rparr>) \<and> (\<forall>i < NDIRECT + 1. iaddrs x i = iaddrs y i)"

lemma loaded_same: "same_dino (loaded (get_dinode (put_dinode (dino x) p d) p) y) x"
  by (simp add: same_dino_def loaded_def dino_def get_put_dinode)

lemma iupdate_runs:
  assumes p: "tpost s V L {} H u" "L \<union> dom H \<subseteq> X" "room_for s X" "idev (icache s ip) = 1"
    and b: "b = IBLOCK (inum (icache s ip))" "blk_ok s H b" "b \<in> X"
  shows "runs (iupdate ip) u (\<lambda>_ v. tpost s (V(b := put_dinode (dino (icache s ip)) (dino_off (inum (icache s ip))) (V b))) (insert b L) {} H v)"
proof -
  have "lmach.more u = lmach.more s" using p(1) tframe_same(7) [of s u] by (simp add: tpost_def)
  then have i: "icache u = icache s" by (cases u, cases s) (simp add: imach.defs)
  have "runs (bindk (bread 1 b) (\<lambda>bp. thenk (set_data bp (put_dinode (dino (icache s ip)) (dino_off (inum (icache s ip))))) (thenk (log_write bp) (brelse bp)))) u
     (\<lambda>_ v. tpost s (V(b := put_dinode (dino (icache s ip)) (dino_off (inum (icache s ip))) (V b))) (insert b L) {} H v)"
    by (rule td.update_block [OF p(1,2)]) (use p(3) b in \<open>auto simp: room_for_def blk_ok_def\<close>)
  then show ?thesis using p(4) b(1) by (simp add: iupdate_def get_ino_def i dino_def)
qed

text \<open>A block that can be read.\<close>

definition readable_blk :: "'z bmach_scheme \<Rightarrow> u32 \<Rightarrow> bool" where
  "readable_blk s b \<longleftrightarrow> b < disksize s \<and> bheld s b = None \<and> (b \<in> bdirty s \<or> bview s b = disk s b)
     \<and> card (insert b (dom (bheld s) \<union> bdirty s)) \<le> NBUF"

lemma ilock_busy:
  assumes "quiet s" "0 < iref (icache s ip)" "\<not> ibusy (icache s ip)"
  shows "ilock ip s = bindk (get_ino ip) (\<lambda>x.
     if ivalid x then retk () else
     bindk (bread (idev x) (IBLOCK (inum x))) (\<lambda>bp.
     bindk (bp_data bp) (\<lambda>d.
     let di = get_dinode d (dino_off (inum x)) in
     thenk (set_ino ip (\<lambda>x. x\<lparr>itype := di_type di, imajor := di_major di, iminor := di_minor di,
        inlink := di_nlink di, isize := di_size di,
        iaddrs := (\<lambda>i. if i < NDIRECT + 1 then di_addrs di i else iaddrs x i)\<rparr>))
     (thenk (brelse bp)
     (thenk (set_ino ip (\<lambda>x. x\<lparr>ivalid := True\<rparr>))
     (if di_type di = 0 then panic ''ilock: no type'' else retk ())))))) (with_ino ip ((icache s ip)\<lparr>ibusy := True\<rparr>) s)"
  using assms by (simp add: ilock_def get_ino_def acquire_ok set_ino_run ino_release)

lemma ilock_loads:
  assumes "bio_ok s" "0 < iref (icache s ip)" "\<not> ibusy (icache s ip)" "\<not> ivalid (icache s ip)" "idev (icache s ip) = 1"
    and b: "b = IBLOCK (inum (icache s ip))" "readable_blk s b"
    and di: "di = get_dinode (bview s b) (dino_off (inum (icache s ip)))" "di_type di \<noteq> 0"
  shows "\<exists>t. ilock ip s = Ok () t
    \<and> bpost (with_ino ip (loaded di (icache s ip)) s) (bview s) (bdirty s) (bheld s) (disk s) (dtrace s) t"
proof -
  let ?x = "(icache s ip)\<lparr>ibusy := True\<rparr>" and ?H = "bheld s"
  let ?s = "with_ino ip ?x s"
  have q: "quiet s" using assms(1) by (simp add: bio_ok_def)
  have p: "bpost ?s (bview s) (bdirty s) ?H (disk s) (dtrace s) ?s" using assms(1) by (simp add: bpost_def)
  have "runs (bread 1 b) ?s (\<lambda>bp. bpost ?s (bview s) (bdirty s) (?H(b \<mapsto> bp)) (disk s) (dtrace s))"
    by (rule bc.rd_vc [OF p]) (use b(2) in \<open>auto simp: readable_blk_def\<close>)
  then obtain bp t where t: "bread 1 b ?s = Ok bp t" "bpost ?s (bview s) (bdirty s) (?H(b \<mapsto> bp)) (disk s) (dtrace s) t"
    by (rule runsE)
  have d: "bp_data bp t = Ok (bview s b) t"
    using bc.look_vc [OF t(2), of b bp "\<lambda>d v. d = bview s b \<and> v = t"] by (auto simp: runs_def)
  let ?y = "(loaded di (icache s ip))\<lparr>ivalid := False\<rparr>" and ?z = "loaded di (icache s ip)"
  let ?t = "with_ino ip ?y t"
  have ct: "icache t ip = ?x" using bpost_ino(1) [OF t(2)] by simp
  then have y: "(icache t ip)\<lparr>itype := di_type di, imajor := di_major di, iminor := di_minor di, inlink := di_nlink di,
      isize := di_size di, iaddrs := (\<lambda>i. if i < NDIRECT + 1 then di_addrs di i else iaddrs (icache t ip) i)\<rparr> = ?y"
    unfolding ct using assms(4) by (cases "icache s ip") (simp add: loaded_def cong: if_cong)
  have h: "(?H(b \<mapsto> bp))(b := None) = ?H" using b(2) by (auto simp: readable_blk_def)
  have "runs (brelse bp) ?t (\<lambda>_. bpost (with_ino ip ?y ?s) (bview s) (bdirty s) ?H (disk s) (dtrace s))"
    by (rule bc.rel_vc [OF bpost_ino(2) [OF t(2)], where sec = b]) (use b(2) h in \<open>auto simp: readable_blk_def\<close>)
  then obtain u where u: "brelse bp ?t = Ok () u" "bpost (with_ino ip ?y ?s) (bview s) (bdirty s) ?H (disk s) (dtrace s) u"
    by (auto simp: runs_def)
  have "icache u ip = ?y" using bpost_ino(1) [OF u(2)] by simp
  then have z: "(icache u ip)\<lparr>ivalid := True\<rparr> = ?z" by (simp add: loaded_def)
  have "ilock ip s = Ok () (with_ino ip ?z u)"
    using ilock_busy [OF q assms(2,3)] t(1) d y u(1) z assms(4,5) di(2)
    by (simp add: get_ino_def set_ino_run Let_def flip: b(1) di(1) cong: if_cong)
  moreover have "bpost (with_ino ip ?z s) (bview s) (bdirty s) ?H (disk s) (dtrace s) (with_ino ip ?z u)"
    using bpost_ino(2) [OF u(2), of ip ?z] by simp
  ultimately show ?thesis by blast
qed

lemma in_trans_readable:
  assumes "in_trans s {}" "blk_ok s (bheld s) b" "card (insert b (lhset s \<union> dom (bheld s))) \<le> NBUF"
  shows "readable_blk s b"
  using assms by (auto simp: readable_blk_def in_trans_def blk_ok_def Un_commute)

text \<open>C10: an inode survives its way to the disk and back. iupdate in a transaction changes the 64 bytes of
  the disk inode and nothing else of the file system; when ilock later fills a cache slot of the same
  inode, the slot has the type, device numbers, link count, size and all block addresses again, and
  the slot is locked and valid.\<close>

theorem iupdate_ilock:
  assumes "in_trans s {}" "idev (icache s ip) = 1" "itype (icache s ip) \<noteq> 0"
    and "b = IBLOCK (inum (icache s ip))" "blk_ok s (bheld s) b" "card (lhset s \<union> dom (bheld s)) + 2 < min NBUF (log_room s)"
    and "idev (icache s j) = 1" "inum (icache s j) = inum (icache s ip)"
    and "0 < iref (icache s j)" "\<not> ibusy (icache s j)" "\<not> ivalid (icache s j)"
  shows "\<exists>t u. iupdate ip s = Ok () t \<and> in_trans t {} \<and> icache t = icache s \<and> lhset t = insert b (lhset s)
    \<and> (\<forall>x k. tview t x k \<noteq> tview s x k \<longrightarrow> x = b \<and> k div dinode_size = unat (inum (icache s ip)) mod IPB)
    \<and> ilock j t = Ok () u \<and> tview u = tview t \<and> same_dino (icache u j) (icache s ip)
    \<and> ibusy (icache u j) \<and> ivalid (icache u j) \<and> (\<forall>k. k \<noteq> j \<longrightarrow> icache u k = icache s k)"
proof -
  let ?x = "icache s ip" and ?V = "tview s" and ?H = "bheld s" and ?L = "lhset s"
  let ?o = "dino_off (inum ?x)"
  let ?V1 = "?V(b := put_dinode (dino ?x) ?o (?V b))"
  note room = room_for_add [OF _ assms(6), of b b, simplified]
  have "tpost s ?V ?L {} ?H s" using assms(1) by (simp add: tpost_def)
  then have "runs (iupdate ip) s (\<lambda>_ t. tpost s ?V1 (insert b ?L) {} ?H t)"
    by (rule iupdate_runs [OF _ _ room assms(2,4,5)]) auto
  then obtain t where t: "iupdate ip s = Ok () t" "tpost s ?V1 (insert b ?L) {} ?H t" by (auto simp: runs_def)
  have tr: "in_trans t {}" "tview t = ?V1" "lhset t = insert b ?L" "bheld t = ?H" and fr: "tframe s t"
    using t(2) by (simp_all add: tpost_def)
  have c: "icache t = icache s" using fr by (auto elim!: tframeE)
  have bk: "blk_ok t (bheld t) b" using assms(5) tframe_same [OF fr] by (simp add: blk_ok_def tr)
  have rd: "readable_blk t b" using room by (intro in_trans_readable [OF tr(1) bk]) (simp add: room_for_def tr)
  have bv: "bview t b = put_dinode (dino ?x) ?o (?V b)" using tview_log [of b t] bk by (simp add: tr blk_ok_def)
  have ty: "di_type (get_dinode (bview t b) ?o) \<noteq> 0" using assms(3) by (simp add: bv get_put_dinode dino_def)
  obtain u where u: "ilock j t = Ok () u"
    "bpost (with_ino j (loaded (get_dinode (bview t b) ?o) (icache t j)) t) (bview t) (bdirty t) (bheld t) (disk t) (dtrace t) u"
    using ilock_loads [of t j b] tr(1) c assms(4,7-11) rd ty by (auto simp: in_trans_def)
  have cu: "icache u = (icache t)(j := loaded (get_dinode (bview t b) ?o) (icache t j))"
    using bpost_ino(1) [OF u(2)] by simp
  have "logsecs u = logsecs t" using u(2) bframe_log [of "with_ino j _ t" u] by (auto simp: bpost_def logsecs_def with_ino_def)
  then have "tview u = tview t" using u(2) by (auto simp: bpost_def tview_def)
  moreover have "k div dinode_size = unat (inum ?x) mod IPB" if "?V1 x k \<noteq> ?V x k" for x k
  proof -
    have "\<not> (k < ?o \<or> ?o + dinode_size \<le> k)" using that put_dinode_other [of k ?o "dino ?x" "?V b"] by (auto split: if_splits)
    then show ?thesis by (auto simp: dino_off_def intro!: div_nat_eqI)
  qed
  moreover have "x = b" if "?V1 x k \<noteq> ?V x k" for x k using that by (auto split: if_splits)
  moreover have "same_dino (icache u j) ?x" using loaded_same [of ?x ?o "?V b" "icache t j"] by (simp add: cu bv)
  moreover have "ibusy (icache u j)" "ivalid (icache u j)" "\<forall>k. k \<noteq> j \<longrightarrow> icache u k = icache s k"
    by (simp_all add: cu c loaded_def)
  ultimately show ?thesis using t(1) u(1) tr c by (intro exI [of _ t] exI [of _ u]) (simp only: simp_thms, blast)
qed

text \<open>The machine in a transaction, with the inode of the file in slot 3 of the cache.\<close>

definition ino3 :: inode where
  "ino3 = \<lparr>idev = 1, inum = 1, iref = 1, ibusy = False, ivalid = False, itype = 2, imajor = 0, iminor = 0, inlink = 1,
     isize = 700, iaddrs = di_addrs ino1\<rparr>"

lemma trans1_ino:
  assumes "trans1 s"
  shows "trans1 (with_ino ip x s)"
proof -
  have "logsecs (with_ino ip x s) = logsecs s" "lhset (with_ino ip x s) = lhset s" "log_room (with_ino ip x s) = log_room s"
    "log_geom (with_ino ip x s) = log_geom s" "lslot (with_ino ip x s) = lslot s"
    by (simp_all add: with_ino_def logsecs_def lhset_def log_room_def log_geom_def lslot_def fun_eq_iff)
  moreover from this have "tview (with_ino ip x s) = tview s" by (simp add: tview_def fun_eq_iff)
  moreover have "lbusy (with_ino ip x s) = lbusy s" "lh_n (with_ino ip x s) = lh_n s" "lsize (with_ino ip x s) = lsize s"
    "lh_sector (with_ino ip x s) = lh_sector s" "lstart (with_ino ip x s) = lstart s" by (simp_all add: with_ino_def)
  ultimately show ?thesis using assms by (simp add: trans1_def in_trans_def)
qed

theorem iupdate_ilock_witness:
  "\<exists>s t u :: imach. iupdate 3 s = Ok () t \<and> ilock 3 t = Ok () u \<and> isize (icache u 3) = 700 \<and> ivalid (icache u 3)"
proof -
  obtain s0 where "trans1 s0" using trans1_ex ..
  then have s: "trans1 (with_ino 3 ino3 s0)" (is "trans1 ?s") by (rule trans1_ino)
  have c: "icache ?s 3 = ino3" by simp
  have b: "IBLOCK (inum (icache ?s 3)) = 2" unfolding c by (simp add: IBLOCK_def ino3_def)
  have "in_trans ?s {}" "blk_ok ?s (bheld ?s) 2" "card (lhset ?s \<union> dom (bheld ?s)) + 2 < min NBUF (log_room ?s)"
    using s by (simp_all add: trans1_def blk_ok_def word_le_nat_alt)
  then obtain t u where "iupdate 3 ?s = Ok () t" "ilock 3 t = Ok () u" "same_dino (icache u 3) (icache ?s 3)" "ivalid (icache u 3)"
    using iupdate_ilock [of ?s 3 2 3] b c by (auto simp: ino3_def)
  moreover from this have "isize (icache u 3) = 700" by (simp add: same_dino_def dino_def ino3_def)
  ultimately show ?thesis by blast
qed

section \<open>The content of a file\<close>

text \<open>The block with the \<open>n\<close>-th block of a file, and byte \<open>i\<close> of the file.\<close>

definition file_addr :: "(u32 \<Rightarrow> bytes) \<Rightarrow> inode \<Rightarrow> nat \<Rightarrow> u32" where
  "file_addr V x n = (if n < NDIRECT then iaddrs x n else get32 (V (iaddrs x NDIRECT)) (4 * (n - NDIRECT)))"

definition file_byte :: "(u32 \<Rightarrow> bytes) \<Rightarrow> inode \<Rightarrow> nat \<Rightarrow> u8" where
  "file_byte V x i = V (file_addr V x (i div BSIZE)) (i mod BSIZE)"

text \<open>All blocks of the file are allocated and can be read.\<close>

definition blk_mapped :: "'z bmach_scheme \<Rightarrow> inode \<Rightarrow> nat \<Rightarrow> bool" where
  "blk_mapped s x n \<longleftrightarrow> file_addr (bview s) x n \<noteq> 0 \<and> readable_blk s (file_addr (bview s) x n)
     \<and> (NDIRECT \<le> n \<longrightarrow> iaddrs x NDIRECT \<noteq> 0 \<and> readable_blk s (iaddrs x NDIRECT))"

definition file_ok :: "'z bmach_scheme \<Rightarrow> inode \<Rightarrow> bool" where
  "file_ok s x \<longleftrightarrow> idev x = 1 \<and> unat (isize x) \<le> MAXFILE * BSIZE \<and> (\<forall>n. n * BSIZE < unat (isize x) \<longrightarrow> blk_mapped s x n)"

text \<open>Only the internal order of the cache, and the memory, may have changed since \<open>s\<close>.\<close>

abbreviation rpost :: "'z bmach_scheme \<Rightarrow> mem \<Rightarrow> 'z bmach_scheme \<Rightarrow> bool" where
  "rpost s m u \<equiv> bpost (s\<lparr>pmem := m\<rparr>) (bview s) (bdirty s) (bheld s) (disk s) (dtrace s) u"

lemma bpost_frame: "bpost s V D H k w t \<Longrightarrow> bframe s t"
  by (simp add: bpost_def)

lemma bpost_mem:
  assumes "bpost s V D H k w t"
  shows "bpost (s\<lparr>pmem := m\<rparr>) V D H k w (t\<lparr>pmem := m\<rparr>)" "pmem t = pmem s" "cr3 t = cr3 s"
proof -
  have t: "t = s\<lparr>ptable := ptable t, bufs := bufs t, bnext := bnext t, bprev := bprev t, disk := disk t, dtrace := dtrace t\<rparr>"
    and p: "pt_woken (ptable s) (ptable t)" using bpost_frame [OF assms] by (simp_all add: bframe_def)
  show "pmem t = pmem s" "cr3 t = cr3 s" by (subst t, simp)+
  have e: "t\<lparr>pmem := m\<rparr> = s\<lparr>pmem := m, ptable := ptable t, bufs := bufs t, bnext := bnext t, bprev := bprev t, disk := disk t, dtrace := dtrace t\<rparr>"
    by (subst t) simp
  have "bio_ok (t\<lparr>pmem := m\<rparr>) = bio_ok t" "bview (t\<lparr>pmem := m\<rparr>) = bview t" "bheld (t\<lparr>pmem := m\<rparr>) = bheld t"
    "bdirty (t\<lparr>pmem := m\<rparr>) = bdirty t" by (rule cache_cong; simp)+
  with assms p e show "bpost (s\<lparr>pmem := m\<rparr>) V D H k w (t\<lparr>pmem := m\<rparr>)" by (simp add: bpost_def bframe_def)
qed

lemma rd_blk:
  assumes u: "rpost s m u" and b: "readable_blk s b"
  obtains bp t where "bread 1 b u = Ok bp t" "bp_data bp t = Ok (bview s b) t" "pmem t = m" "cr3 t = cr3 s"
    "\<And>m'. \<exists>v. brelse bp (t\<lparr>pmem := m'\<rparr>) = Ok () v \<and> rpost s m' v"
proof -
  let ?s = "s\<lparr>pmem := m\<rparr>" and ?V = "bview s" and ?D = "bdirty s" and ?H = "bheld s"
  have "runs (bread 1 b) u (\<lambda>bp. bpost ?s ?V ?D (?H(b \<mapsto> bp)) (disk s) (dtrace s))"
    by (rule bc.rd_vc [OF u]) (use b in \<open>auto simp: readable_blk_def\<close>)
  then obtain bp t where t: "bread 1 b u = Ok bp t" "bpost ?s ?V ?D (?H(b \<mapsto> bp)) (disk s) (dtrace s) t" by (rule runsE)
  have d: "bp_data bp t = Ok (?V b) t"
    using bc.look_vc [OF t(2), of b bp "\<lambda>d v. d = ?V b \<and> v = t"] by (auto simp: runs_def)
  have h: "(?H(b \<mapsto> bp))(b := None) = ?H" using b by (auto simp: readable_blk_def)
  have "\<exists>v. brelse bp (t\<lparr>pmem := m'\<rparr>) = Ok () v \<and> rpost s m' v" for m'
  proof -
    have "bpost (s\<lparr>pmem := m'\<rparr>) ?V ?D (?H(b \<mapsto> bp)) (disk s) (dtrace s) (t\<lparr>pmem := m'\<rparr>)"
      using bpost_mem(1) [OF t(2), of m'] by simp
    from bc.rel_vc [OF this, of b bp "\<lambda>_. rpost s m'"] show ?thesis
      using h b by (auto simp: runs_def readable_blk_def)
  qed
  then show thesis using that t d bpost_mem(2,3) [OF t(2)] by simp
qed

lemma bmap_reads:
  assumes u: "rpost s m u" and x: "icache u ip = x" "idev x = 1" and n: "unat bn < MAXFILE" "blk_mapped s x (unat bn)"
  shows "\<exists>v. bmap ip bn u = Ok (file_addr (bview s) x (unat bn)) v \<and> rpost s m v"
proof (cases "unat bn < NDIRECT")
  case True
  then show ?thesis using n u x by (auto simp: bmap_def get_ino_def blk_mapped_def file_addr_def)
next
  case False
  let ?a = "iaddrs x NDIRECT" and ?j = "4 * (unat bn - NDIRECT)"
  have r: "readable_blk s ?a" "?a \<noteq> 0" and f: "get32 (bview s ?a) ?j \<noteq> 0"
    using n(2) False by (auto simp: blk_mapped_def file_addr_def)
  obtain bp t where t: "bread 1 ?a u = Ok bp t" "bp_data bp t = Ok (bview s ?a) t"
    "pmem t = m" "\<And>m'. \<exists>v. brelse bp (t\<lparr>pmem := m'\<rparr>) = Ok () v \<and> rpost s m' v"
    using rd_blk [OF u r(1)] by metis
  have tm: "t\<lparr>pmem := m\<rparr> = t" using t(3) by auto
  have v: "\<exists>v. brelse bp t = Ok () v \<and> rpost s m v" using t(4) [of m] unfolding tm .
  have "12 \<le> bn" using False by (simp add: word_le_nat_alt)
  then have b: "unat (bn - 12) = unat bn - 12" by (simp add: unat_sub)
  then show ?thesis using False t(1,2) v r(2) f x n(1)
    by (auto simp: bmap_def get_ino_def file_addr_def Let_def)
qed

section \<open>Destinations of a copy\<close>

text \<open>A buffer of the kernel or of the process after \<open>bs\<close> has been copied into it.\<close>

fun put_dst :: "kptr \<Rightarrow> (nat \<Rightarrow> u32) \<Rightarrow> u8 list \<Rightarrow> mem \<Rightarrow> kptr \<times> mem" where
  "put_dst (Obj b) \<phi> bs m = (Obj (\<lambda>i. if i < length bs then bs ! i else b i), m)"
| "put_dst (Va a) \<phi> bs m = (Va a, stores \<phi> 0 bs m)"

definition dst_ok :: "'z vmach_scheme \<Rightarrow> kptr \<Rightarrow> (nat \<Rightarrow> u32) \<Rightarrow> nat \<Rightarrow> bool" where
  "dst_ok s p \<phi> n \<longleftrightarrow> (case p of Obj b \<Rightarrow> True | Va a \<Rightarrow> user_buffer s a \<phi> n)"

lemma dst_ok_le:
  assumes "dst_ok s p \<phi> n" "k \<le> n"
  shows "dst_ok s p \<phi> k"
proof -
  have "inj_on \<phi> {..<n} \<Longrightarrow> inj_on \<phi> {..<k}" by (rule inj_on_subset) (use assms(2) in auto)
  moreover have "agree_but (\<phi> ` {..<k}) m m' \<Longrightarrow> agree_but (\<phi> ` {..<n}) m m'" for m m'
    using image_mono [of "{..<k}" "{..<n}" \<phi>] assms(2) by (auto simp: agree_but_def subset_iff)
  ultimately show ?thesis using assms by (auto simp: dst_ok_def user_buffer_def split: kptr.splits)
qed

lemma stores_snoc: "stores \<phi> j (bs @ [b]) m = (stores \<phi> j bs m)(\<phi> (j + length bs) := b)"
  by (induction bs arbitrary: j m) simp_all

lemma copy_va:
  assumes "user_buffer s a \<phi> n" "length bs + k \<le> n" "cr3 u = cr3 s" "pmem u = stores \<phi> 0 bs (pmem s)"
  shows "foreach [0..<k] (\<lambda>i. vwrite8 (a + of_nat (length bs + i)) (d i)) u
    = Ok () (u\<lparr>pmem := stores \<phi> 0 (bs @ map d [0..<k]) (pmem s)\<rparr>)"
  using assms(2)
proof (induction k)
  case 0
  then show ?case using assms(4) by simp
next
  case (Suc k)
  let ?m = "stores \<phi> 0 (bs @ map d [0..<k]) (pmem s)" and ?j = "length bs + k"
  have "agree_but (\<phi> ` {..<n}) ?m (pmem s)" using Suc.prems by (intro stores_agree) simp
  then have "a + of_nat ?j < KERNBASE" "translate ?m (p2v (cr3 s)) (a + of_nat ?j) = Some (\<phi> ?j)"
    using assms(1) Suc.prems by (auto simp: user_buffer_def simp del: of_nat_add)
  then have "vwrite8 (a + of_nat ?j) (d k) (u\<lparr>pmem := ?m\<rparr>) = Ok () (u\<lparr>pmem := ?m(\<phi> ?j := d k)\<rparr>)"
    using assms(3) by (simp add: vwrite8_def)
  moreover have "?m(\<phi> ?j := d k) = stores \<phi> 0 (bs @ map d [0..<Suc k]) (pmem s)"
    using stores_snoc [of \<phi> 0 "bs @ map d [0..<k]" "d k" "pmem s"] by simp
  ultimately show ?case using Suc by (simp add: foreach_append)
qed

lemma copy_to_run:
  assumes "dst_ok s p \<phi> n" "length bs + k \<le> n" "cr3 u = cr3 s" "put_dst p \<phi> bs (pmem s) = (q, m)" "pmem u = m"
    and "put_dst p \<phi> (bs @ map (\<lambda>i. d (off + i)) [0..<k]) (pmem s) = (q', m')"
  shows "copy_to q (length bs) d off k u = Ok q' (u\<lparr>pmem := m'\<rparr>)"
proof (cases p)
  case (Va a)
  then show ?thesis
    using copy_va [of s a \<phi> n bs k u "\<lambda>i. d (off + i)"] assms by (auto simp: copy_to_def dst_ok_def)
next
  case (Obj b)
  have "blit (\<lambda>i. if i < length bs then bs ! i else b i) (length bs) d off k
    = (\<lambda>i. if i < length bs + k then (bs @ map (\<lambda>i. d (off + i)) [0..<k]) ! i else b i)"
    by (auto simp: fun_eq_iff blit_def nth_append)
  moreover have "u\<lparr>pmem := m\<rparr> = u" using assms(5) by auto
  ultimately show ?thesis using assms Obj by (auto simp: copy_to_def)
qed

section \<open>Reading\<close>

lemma block_bytes:
  assumes "off mod BSIZE + k \<le> BSIZE"
  shows "map (\<lambda>i. V (file_addr V x (off div BSIZE)) (off mod BSIZE + i)) [0..<k] = map (file_byte V x) [off..<off + k]"
proof (rule nth_equalityI)
  fix i assume "i < length (map (\<lambda>i. V (file_addr V x (off div BSIZE)) (off mod BSIZE + i)) [0..<k])"
  then have i: "i < k" by simp
  obtain a c where o: "off = 512 * a + c" "c < 512" using mult_div_mod_eq [of 512 off, symmetric] by (metis mod_less_divisor zero_less_numeral)
  then have "off + i = 512 * a + (c + i)" "c + i < 512" using assms i by simp_all
  then have "(off + i) div BSIZE = off div BSIZE" "(off + i) mod BSIZE = off mod BSIZE + i"
    using o by (simp_all only: BSIZE_def) simp_all
  then show "map (\<lambda>i. V (file_addr V x (off div BSIZE)) (off mod BSIZE + i)) [0..<k] ! i = map (file_byte V x) [off..<off + k] ! i"
    using i by (simp add: file_byte_def)
qed simp

lemma readi_loop_runs:
  assumes f: "file_ok s x" "icache s ip = x" and d: "dst_ok s p \<phi> n" and n: "unat off + n \<le> unat (isize x)"
  shows "tot \<le> n \<Longrightarrow> n - tot < fuel \<Longrightarrow> put_dst p \<phi> (map (file_byte (bview s) x) [unat off..<unat off + tot]) (pmem s) = (q, m)
    \<Longrightarrow> rpost s m u \<Longrightarrow> \<exists>q' m' v. readi_loop fuel ip q (off + of_nat tot) n tot u = Ok q' v \<and> rpost s m' v
      \<and> put_dst p \<phi> (map (file_byte (bview s) x) [unat off..<unat off + n]) (pmem s) = (q', m')"
proof (induction fuel arbitrary: tot q m u)
  case (Suc fuel)
  let ?F = "file_byte (bview s) x" and ?o = "off + of_nat tot"
  show ?case
  proof (cases "tot < n")
    case False
    then show ?thesis using Suc.prems by auto
  next
    case True
    define k where "k = min (n - tot) (BSIZE - unat ?o mod BSIZE)"
    define bs where "bs = map ?F [unat off..<unat off + tot]"
    have sz: "unat (isize x) \<le> 71680" using f(1) by (simp add: file_ok_def)
    have uo: "unat ?o = unat off + tot" using True n sz by (simp add: unat_word_ariths)
    have k: "0 < k" "tot + k \<le> n" "unat ?o mod BSIZE + k \<le> BSIZE" using True by (auto simp: k_def)
    let ?bn = "?o div of_nat BSIZE"
    have bn: "unat ?bn = unat ?o div BSIZE" by (simp add: unat_div)
    have "unat ?o div BSIZE * BSIZE < unat (isize x)" using uo n True by (simp add: div_times_less_eq_dividend order.strict_trans1)
    then have mp: "unat ?bn < MAXFILE" "blk_mapped s x (unat ?bn)"
      using f(1) sz uo n True bn by (auto simp: file_ok_def)
    have cu: "icache u = icache s" using bpost_ino(1) [OF Suc.prems(4)] by simp
    obtain v where v: "bmap ip ?bn u = Ok (file_addr (bview s) x (unat ?bn)) v" "rpost s m v"
      using bmap_reads [OF Suc.prems(4) _ _ mp] cu f by (auto simp: file_ok_def)
    obtain bp t where t: "bread 1 (file_addr (bview s) x (unat ?bn)) v = Ok bp t"
      "bp_data bp t = Ok (bview s (file_addr (bview s) x (unat ?bn))) t" "pmem t = m" "cr3 t = cr3 s"
      "\<And>m'. \<exists>v. brelse bp (t\<lparr>pmem := m'\<rparr>) = Ok () v \<and> rpost s m' v"
      using rd_blk [OF v(2), of "file_addr (bview s) x (unat ?bn)"] mp(2) by (metis blk_mapped_def)
    obtain q' m' where q': "put_dst p \<phi> (map ?F [unat off..<unat off + (tot + k)]) (pmem s) = (q', m')" by fastforce
    have bb: "bs @ map (\<lambda>i. bview s (file_addr (bview s) x (unat ?bn)) (unat ?o mod BSIZE + i)) [0..<k]
        = map ?F [unat off..<unat off + (tot + k)]"
      using block_bytes [OF k(3), of "bview s" x] upt_add_eq_append [of "unat off" "unat off + tot" k]
      by (simp add: unat_div uo bs_def add.assoc)
    have "copy_to q (length bs) (bview s (file_addr (bview s) x (unat ?bn))) (unat ?o mod BSIZE) k t = Ok q' (t\<lparr>pmem := m'\<rparr>)"
      by (rule copy_to_run [OF d _ t(4) Suc.prems(3) [folded bs_def] t(3)]) (use k(2) bb q' in \<open>auto simp: bs_def\<close>)
    then have c: "copy_to q tot (bview s (file_addr (bview s) x (unat ?bn))) (unat ?o mod BSIZE) k t = Ok q' (t\<lparr>pmem := m'\<rparr>)"
      by (simp add: bs_def)
    obtain w where w: "brelse bp (t\<lparr>pmem := m'\<rparr>) = Ok () w" "rpost s m' w" using t(5) by blast
    have "readi_loop (Suc fuel) ip q ?o n tot u = readi_loop fuel ip q' (?o + of_nat k) n (tot + k) w"
      using True v(1) t(1,2) c w(1) cu f by (simp add: get_ino_def file_ok_def Let_def k_def)
    moreover have "?o + of_nat k = off + of_nat (tot + k)" by simp
    ultimately show ?thesis using Suc.IH [OF k(2) _ q' w(2)] k(1,2) Suc.prems(2) by simp
  qed
qed simp

text \<open>C2: readi returns the content of a file. For an offset in the file it copies the bytes of the file from
  there on, as many as asked for or as there are, to the buffer of the kernel or of the process, across
  block boundaries and through the indirect block, and reports their number; the file system stays as it is.
  Beyond the end of the file, or when the offset overflows, it reports -1 and copies nothing.\<close>

theorem readi_content:
  assumes "bio_ok s" "file_ok s (icache s ip)" "itype (icache s ip) \<noteq> T_DEV"
    and "dst_ok s p \<phi> (unat n)"
  defines "x \<equiv> icache s ip"
  shows "(isize x < off \<or> off + n < off \<longrightarrow> readi ip p off n s = Ok (- 1, p) s)
    \<and> (\<not> (isize x < off \<or> off + n < off) \<longrightarrow>
        (let bs = map (file_byte (bview s) x) [unat off..<min (unat off + unat n) (unat (isize x))] in
         \<exists>q t. readi ip p off n s = Ok (int (length bs), q) t \<and> put_dst p \<phi> bs (pmem s) = (q, pmem t)
           \<and> (\<forall>a. p = Va a \<longrightarrow> user_bytes t a bs) \<and> bview t = bview s \<and> disk t = disk s \<and> bheld t = bheld s))"
proof (cases "isize x < off \<or> off + n < off")
  case True
  then show ?thesis using assms(3) by (auto simp: readi_def get_ino_def x_def)
next
  case False
  define n' where "n' = (if isize x < off + n then isize x - off else n)"
  define k where "k = unat n'"
  have "off \<le> off + n" using False by (simp add: not_less)
  then have le: "unat off \<le> unat (isize x)" "unat (off + n) = unat off + unat n"
    using False no_olen_add_nat [of off n] by (auto simp: not_less word_le_nat_alt unat_word_ariths)
  then have k: "unat off + k = min (unat off + unat n) (unat (isize x))" "k \<le> unat n"
    by (auto simp: k_def n'_def word_less_nat_alt unat_sub word_le_nat_alt)
  have "unat (isize x) \<le> 71680" using assms(2) by (simp add: file_ok_def x_def)
  then have "k \<le> 71680" using k(1) by linarith
  then have i: "sint n' = int k" unfolding k_def by (simp add: sint_unat)
  let ?bs = "map (file_byte (bview s) x) [unat off..<unat off + k]"
  have d: "dst_ok s p \<phi> k" using assms(4) k(2) dst_ok_le by blast
  have p0: "put_dst p \<phi> (map (file_byte (bview s) x) [unat off..<unat off + 0]) (pmem s) = (p, pmem s)" by (cases p) auto
  have cx: "icache s ip = x" by (simp add: x_def)
  have r: "rpost s (pmem s) s" using assms(1) by (simp add: bpost_def)
  obtain q m t where t: "readi_loop (Suc k) ip p off k 0 s = Ok q t" "rpost s m t" "put_dst p \<phi> ?bs (pmem s) = (q, m)"
    using readi_loop_runs [OF assms(2) [folded x_def] cx d _ _ _ p0 r, of "Suc k"] k(1) by auto
  have tm: "pmem t = m" "cr3 t = cr3 s" using bpost_mem(2,3) [OF t(2)] by simp_all
  have "readi ip p off n s = bindk (readi_loop (Suc (unat n')) ip p off (unat n') 0) (\<lambda>dst. retk (sint n', dst)) s"
    using False assms(3) cx by (simp add: readi_def get_ino_def Let_def n'_def del: readi_loop.simps)
  then have "readi ip p off n s = Ok (int k, q) t"
    using t(1) i by (simp add: bindk_def flip: k_def del: readi_loop.simps)
  moreover have "user_bytes t a ?bs" if "p = Va a" for a
    using user_buffer_bytes [of s a \<phi> k ?bs] d t(3) tm that by (auto simp: dst_ok_def user_bytes_def umem_def)
  moreover have "bview t = bview s" "disk t = disk s" "bheld t = bheld s" using t(2) by (simp_all add: bpost_def)
  ultimately show ?thesis using False t(3) tm(1) by (auto simp: Let_def k(1) [symmetric])
qed

lemma trans1_cache:
  assumes "trans1 s" "b < 1014"
  shows "readable_blk s b" "bview s b = disk1 b" "bio_ok s"
proof -
  have s: "in_trans s {}" "bheld s = Map.empty" "lhset s = {}" "disksize s = 1024" "logsecs s = {1014..<1024}"
    using assms(1) by (simp_all add: trans1_def)
  have b: "b < 1024" "b \<notin> logsecs s" using assms(2) s(5) by (auto simp: word_less_nat_alt word_le_nat_alt)
  show "readable_blk s b" using s b by (intro in_trans_readable) (simp_all add: blk_ok_def)
  show "bview s b = disk1 b" using tview_log [OF b(2)] assms by (simp add: trans1_def)
  show "bio_ok s" using s(1) by (simp add: in_trans_def)
qed

theorem readi_content_witness:
  "\<exists>s t :: imach. \<exists>q. readi 3 (Obj (\<lambda>_. 0)) 510 1000 s = Ok (190, q) t \<and> put_dst (Obj (\<lambda>_. 0)) (\<lambda>_. 0)
     (map (file_byte (bview s) ino3) [510..<700]) (pmem s) = (q, pmem t) \<and> file_byte (bview s) ino3 511 = 255"
proof -
  obtain s0 where s0: "trans1 s0" using trans1_ex ..
  let ?s = "with_ino 3 ino3 s0"
  have s: "trans1 ?s" using s0 by (rule trans1_ino)
  have c: "icache ?s 3 = ino3" by simp
  have a: "file_addr (bview ?s) ino3 n = 6 + of_nat n" if "n < 2" for n
    using that by (simp add: file_addr_def ino3_def ino1_def)
  have "blk_mapped ?s ino3 n" if "n * BSIZE < unat (isize ino3)" for n
  proof -
    have n: "n \<in> {0, 1}" using that by (auto simp: ino3_def)
    then show ?thesis using a [of n] trans1_cache(1) [OF s, of 6] trans1_cache(1) [OF s, of 7] by (auto simp: blk_mapped_def)
  qed
  then have "file_ok ?s (icache ?s 3)" "itype (icache ?s 3) \<noteq> T_DEV" unfolding c file_ok_def by (simp_all add: ino3_def)
  moreover have "dst_ok ?s (Obj (\<lambda>_. 0)) (\<lambda>_. 0) (unat (1000 :: u32))" by (simp add: dst_ok_def)
  moreover have "bio_ok ?s" using trans1_cache(3) [OF s, of 6] by simp
  moreover have "file_byte (bview ?s) ino3 511 = 255"
    using a [of 0] trans1_cache(2) [OF s, of 6] by (simp add: file_byte_def disk1_def)
  ultimately show ?thesis using readi_content [of ?s 3 "Obj (\<lambda>_. 0)" "\<lambda>_. 0" 1000 510] c
    by (simp only: c) (fastforce simp: ino3_def Let_def)
qed

end
