(* ===== verification/Sh.thy ===== *)
theory Sh
  imports Params "HOL-Library.Sublist"
begin

text \<open>
  The shell, \<^verbatim>\<open>sh.c\<close>: the parser of command lines and what a parsed command does.

  The parser walks over a line of non-zero characters that ends at \<open>es\<close>. A position \<open>s\<close> is the rest of the
  line from there on, so that \<open>s < es\<close> means that the rest is not empty, and \<open>*s\<close> is 0 at its end. A
  pointer into the line that is kept (\<open>q\<close>, \<open>eq\<close>) is its distance from \<open>es\<close>. The allocation of tree nodes
  is assumed to succeed, as the code does.
\<close>

section \<open>Commands\<close>

definition MAXARGS :: nat where [simp]: "MAXARGS = 10"

text \<open>A parsed command over words of type \<open>'w\<close>. A redirection has its open mode and the file descriptor it
  replaces.\<close>

datatype 'w cmd =
    EXEC "'w list"
  | REDIR "'w cmd" 'w u32 nat
  | PIPE "'w cmd" "'w cmd"
  | LIST "'w cmd" "'w cmd"
  | BACK "'w cmd"

type_synonym word_ptr = "nat \<times> nat"

section \<open>Tokens\<close>

definition whitespace :: "u8 list" where
  "whitespace = [32, 9, 13, 10, 11]"

definition symbols :: "u8 list" where
  "symbols = [60, 124, 62, 38, 59, 40, 41]"

definition cur :: "u8 list \<Rightarrow> u8" where
  "cur s = (case s of [] \<Rightarrow> 0 | c # _ \<Rightarrow> c)"

definition skip :: "u8 list \<Rightarrow> u8 list" where
  "skip s = dropWhile (\<lambda>c. c \<in> set whitespace) s"

definition word_char :: "u8 \<Rightarrow> bool" where
  "word_char c \<longleftrightarrow> c \<notin> set whitespace \<and> c \<notin> set symbols"

text \<open>The token, the bounds of its text, and the position after it and the white space that follows.\<close>

definition gettoken :: "u8 list \<Rightarrow> u8 \<times> word_ptr \<times> u8 list" where
  "gettoken s0 =
     (let s = skip s0;
          (ret, t) =
            (if cur s = 0 then (0, s)
             else if cur s \<in> {124, 40, 41, 59, 38, 60} then (cur s, tl s)
             else if cur s = 62 then
               (if cur (tl s) = 62 then (43, tl (tl s)) else (62, tl s))
             else (97, dropWhile word_char s))
      in (ret, (length s, length t), skip t))"

definition peek :: "u8 list \<Rightarrow> u8 list \<Rightarrow> u8 list \<times> bool" where
  "peek s0 toks = (let s = skip s0 in (s, cur s \<noteq> 0 \<and> cur s \<in> set toks))"

lemma length_skip: "length (skip s) \<le> length s"
  by (simp add: skip_def length_dropWhile_le)

lemma gettoken_less:
  assumes "gettoken s = (r, w, t)" "r \<noteq> 0"
  shows "length t < length s"
proof -
  let ?s = "skip s"
  have n: "?s \<noteq> []" using assms by (auto simp: gettoken_def cur_def Let_def split: if_splits)
  then obtain c u where c: "?s = c # u" by (cases ?s) auto
  have "length (dropWhile word_char ?s) \<le> length u" if "word_char c"
    using that length_dropWhile_le [of word_char u] by (simp add: c)
  moreover have "word_char c" if "c \<noteq> 0" "c \<notin> {124, 40, 41, 59, 38, 60}" "c \<noteq> 62"
  proof -
    have "hd ?s = c" by (simp add: c)
    then have "c \<notin> set whitespace" using hd_dropWhile [of "\<lambda>c. c \<in> set whitespace" s] n by (simp add: skip_def)
    then show ?thesis using that by (auto simp: word_char_def symbols_def)
  qed
  ultimately have "length t \<le> length u"
    using assms length_skip [of u] length_skip [of "tl u"] length_skip [of "dropWhile word_char ?s"]
    by (auto simp: gettoken_def Let_def cur_def c split: if_splits)
  then show ?thesis using length_skip [of s] by (simp add: c)
qed

lemma gettoken_le: "gettoken s = (r, w, t) \<Longrightarrow> length t \<le> length s"
proof -
  assume a: "gettoken s = (r, w, t)"
  have "length t \<le> length s" if "r = 0"
    using a that length_skip [of s] length_skip [of "skip s"]
    by (auto simp: gettoken_def Let_def cur_def split: if_splits list.splits)
  then show ?thesis using gettoken_less [OF a] by (cases "r = 0") auto
qed

lemma peek_le: "peek s toks = (t, b) \<Longrightarrow> length t \<le> length s"
  using length_skip [of s] by (auto simp: peek_def Let_def)

lemma skip_skip [simp]: "skip (skip s) = skip s"
  by (simp add: skip_def)

lemma peek_token: "(s, True) = peek s0 toks \<Longrightarrow> (r, w, t) = gettoken s \<Longrightarrow> length t < length s0"
proof -
  assume p: "(s, True) = peek s0 toks" and g: "(r, w, t) = gettoken s"
  have s: "s = skip s0" "cur s \<noteq> 0" using p by (auto simp: peek_def Let_def)
  then have "r \<noteq> 0" using g by (auto simp: gettoken_def Let_def split: if_splits)
  then show ?thesis using gettoken_less [of s r w t] g length_skip [of s0] s(1) by simp
qed

section \<open>Parsing\<close>

text \<open>A result is a message of \<open>panic\<close>, or a value and the position behind it.\<close>

type_synonym 'a presult = "string + 'a \<times> u8 list"

text \<open>One round of the loop of \<open>parseredirs\<close>: no redirection here, or the next one.\<close>

definition redir :: "u8 list \<Rightarrow> (word_ptr \<times> u32 \<times> nat) option presult" where
  "redir s0 =
     (let (s, p) = peek s0 [60, 62] in
      if \<not> p then Inr (None, s) else
      let (tok, _, s) = gettoken s;
          (tok', w, s) = gettoken s
      in
      if tok' \<noteq> 97 then Inl ''missing file for redirection''
      else if tok = 60 then Inr (Some (w, O_RDONLY, 0), s)
      else Inr (Some (w, O_WRONLY OR O_CREATE, 1), s))"

lemma redir_le:
  assumes "redir s0 = Inr (r, t)"
  shows "length t \<le> length s0" "r \<noteq> None \<Longrightarrow> length t < length s0"
proof -
  obtain s p where p: "peek s0 [60, 62] = (s, p)" by fastforce
  obtain tok w1 s1 where g1: "gettoken s = (tok, w1, s1)" by (metis prod_cases3)
  obtain tok' w s2 where g2: "gettoken s1 = (tok', w, s2)" by (metis prod_cases3)
  note l = peek_le [OF p] gettoken_le [OF g1] gettoken_less [OF g2]
  show "r \<noteq> None \<Longrightarrow> length t < length s0" and "length t \<le> length s0"
    using assms l by (auto simp: redir_def p g1 g2 Let_def split: if_splits)
qed

function parseredirs :: "(word_ptr \<times> u32 \<times> nat) list \<Rightarrow> u8 list \<Rightarrow> (word_ptr \<times> u32 \<times> nat) list presult" where
  "parseredirs rs s =
     (case redir s of
        Inl e \<Rightarrow> Inl e
      | Inr (None, s) \<Rightarrow> Inr (rs, s)
      | Inr (Some r, s) \<Rightarrow> parseredirs (rs @ [r]) s)"
  by pat_completeness auto
termination by (relation "measure (\<lambda>(rs, s). length s)") (auto dest: redir_le)

declare parseredirs.simps [simp del]

lemma parseredirs_le: "parseredirs rs s = Inr (rs', t) \<Longrightarrow> length t \<le> length s"
proof (induction "length s" arbitrary: rs s rule: less_induct)
  case less
  obtain r u where r: "redir s = Inr (r, u)"
    using less.prems by (cases "redir s") (auto simp: parseredirs.simps [of rs s])
  show ?case
  proof (cases r)
    case None
    then show ?thesis using less.prems r redir_le(1) [OF r] by (simp add: parseredirs.simps [of rs s])
  next
    case (Some x)
    then have "parseredirs (rs @ [x]) u = Inr (rs', t)" "length u < length s"
      using less.prems r redir_le(2) [OF r] by (simp_all add: parseredirs.simps [of rs s])
    then show ?thesis using less.hyps [of u "rs @ [x]"] by simp
  qed
qed

text \<open>One round of the loop of \<open>parseexec\<close>: the end of the arguments, or the next one.\<close>

definition arg :: "u8 list \<Rightarrow> word_ptr option presult" where
  "arg s0 =
     (let (s, p) = peek s0 [124, 41, 38, 59] in
      if p then Inr (None, s) else
      let (tok, w, s) = gettoken s in
      if tok = 0 then Inr (None, s)
      else if tok \<noteq> 97 then Inl ''syntax''
      else Inr (Some w, s))"

lemma arg_le:
  assumes "arg s0 = Inr (r, t)"
  shows "length t \<le> length s0" "r \<noteq> None \<Longrightarrow> length t < length s0"
proof -
  obtain s p where p: "peek s0 [124, 41, 38, 59] = (s, p)" by fastforce
  obtain tok w s1 where g: "gettoken s = (tok, w, s1)" by (metis prod_cases3)
  note l = peek_le [OF p] gettoken_le [OF g] gettoken_less [OF g]
  show "r \<noteq> None \<Longrightarrow> length t < length s0" and "length t \<le> length s0"
    using assms l by (auto simp: arg_def p g Let_def split: if_splits)
qed

function parseargs :: "word_ptr list \<Rightarrow> (word_ptr \<times> u32 \<times> nat) list \<Rightarrow> u8 list
    \<Rightarrow> (word_ptr list \<times> (word_ptr \<times> u32 \<times> nat) list) presult" where
  "parseargs args rs s =
     (case arg s of
        Inl e \<Rightarrow> Inl e
      | Inr (None, s) \<Rightarrow> Inr ((args, rs), s)
      | Inr (Some w, s) \<Rightarrow>
          if MAXARGS \<le> length args + 1 then Inl ''too many args''
          else (case parseredirs rs s of Inl e \<Rightarrow> Inl e | Inr (rs, s) \<Rightarrow> parseargs (args @ [w]) rs s))"
  by pat_completeness auto
termination by (relation "measure (\<lambda>(args, rs, s). length s)") (fastforce dest: arg_le parseredirs_le)+

declare parseargs.simps [simp del]

text \<open>The redirections wrap the command in the order in which they were read.\<close>

definition redirs :: "'w cmd \<Rightarrow> ('w \<times> u32 \<times> nat) list \<Rightarrow> 'w cmd" where
  "redirs c rs = foldl (\<lambda>c (w, mode, fd). REDIR c w mode fd) c rs"

function parsebacks :: "'w cmd \<Rightarrow> u8 list \<Rightarrow> 'w cmd \<times> u8 list" where
  "parsebacks cmd s0 =
     (let (s, p) = peek s0 [38] in
      if \<not> p then (cmd, s) else
      let (_, _, s) = gettoken s in parsebacks (BACK cmd) s)"
  by pat_completeness auto
termination by (relation "measure (\<lambda>(cmd, s). length s)") (auto, (metis peek_token)+)

declare parsebacks.simps [simp del]

text \<open>The recursive descent. Every fourth call consumes a character; \<open>None\<close> means that the fuel did not do.\<close>

definition pbind :: "'a presult option \<Rightarrow> ('a \<Rightarrow> u8 list \<Rightarrow> 'b presult option) \<Rightarrow> 'b presult option" where
  "pbind m f = (case m of None \<Rightarrow> None | Some (Inl e) \<Rightarrow> Some (Inl e) | Some (Inr (x, s)) \<Rightarrow> f x s)"

fun parseline :: "nat \<Rightarrow> u8 list \<Rightarrow> word_ptr cmd presult option"
  and parsepipe :: "nat \<Rightarrow> u8 list \<Rightarrow> word_ptr cmd presult option"
  and parseexec :: "nat \<Rightarrow> u8 list \<Rightarrow> word_ptr cmd presult option"
  and parseblock :: "nat \<Rightarrow> u8 list \<Rightarrow> word_ptr cmd presult option" where
  "parseline 0 s = None"
| "parsepipe 0 s = None"
| "parseexec 0 s = None"
| "parseblock 0 s = None"
| "parseline (Suc n) s =
     pbind (parsepipe n s) (\<lambda>cmd s.
     let (cmd, s) = parsebacks cmd s;
         (s, p) = peek s [59]
     in
     if p then
       let (_, _, s) = gettoken s in
       pbind (parseline n s) (\<lambda>right s. Some (Inr (LIST cmd right, s)))
     else Some (Inr (cmd, s)))"
| "parsepipe (Suc n) s =
     pbind (parseexec n s) (\<lambda>cmd s.
     let (s, p) = peek s [124] in
     if p then
       let (_, _, s) = gettoken s in
       pbind (parsepipe n s) (\<lambda>right s. Some (Inr (PIPE cmd right, s)))
     else Some (Inr (cmd, s)))"
| "parseexec (Suc n) s =
     (let (s, p) = peek s [40] in
      if p then parseblock n s else
      case parseredirs [] s of
        Inl e \<Rightarrow> Some (Inl e)
      | Inr (rs, s) \<Rightarrow>
          (case parseargs [] rs s of
             Inl e \<Rightarrow> Some (Inl e)
           | Inr ((args, rs), s) \<Rightarrow> Some (Inr (redirs (EXEC args) rs, s))))"
| "parseblock (Suc n) s =
     (let (s, p) = peek s [40] in
      if \<not> p then Some (Inl ''parseblock'') else
      let (_, _, s) = gettoken s in
      pbind (parseline n s) (\<lambda>cmd s.
      let (s, p) = peek s [41] in
      if \<not> p then Some (Inl ''syntax - missing )'') else
      let (_, _, s) = gettoken s in
      case parseredirs [] s of
        Inl e \<Rightarrow> Some (Inl e)
      | Inr (rs, s) \<Rightarrow> Some (Inr (redirs cmd rs, s))))"

text \<open>The fuel is enough for every line, see \<open>parsecmd_returns\<close>.\<close>

definition parsecmd :: "u8 list \<Rightarrow> (string + word_ptr cmd) option" where
  "parsecmd s =
     (case parseline (4 * length s + 4) s of
        None \<Rightarrow> None
      | Some (Inl e) \<Rightarrow> Some (Inl e)
      | Some (Inr (cmd, s)) \<Rightarrow>
          let (s, _) = peek s [] in
          if s \<noteq> [] then Some (Inl ''syntax'') else Some (Inr cmd))"

text \<open>The line has \<open>n\<close> characters and is stored from \<open>b 0\<close> on.\<close>

fun nulterminate :: "nat \<Rightarrow> word_ptr cmd \<Rightarrow> bytes \<Rightarrow> bytes" where
  "nulterminate n (EXEC args) b = foldl (\<lambda>b (q, eq). b(n - eq := 0)) b args"
| "nulterminate n (REDIR cmd (q, eq) mode fd) b = (nulterminate n cmd b)(n - eq := 0)"
| "nulterminate n (PIPE left right) b = nulterminate n right (nulterminate n left b)"
| "nulterminate n (LIST left right) b = nulterminate n right (nulterminate n left b)"
| "nulterminate n (BACK cmd) b = nulterminate n cmd b"

section \<open>Enough fuel\<close>

lemma pbind_simps [simp]:
  "pbind None f = None" "pbind (Some (Inl e)) f = Some (Inl e)" "pbind (Some (Inr (x, s))) f = f x s"
  by (simp_all add: pbind_def)

lemma parsebacks_le: "parsebacks c s = (c', t) \<Longrightarrow> length t \<le> length s"
proof (induction "length s" arbitrary: c s rule: less_induct)
  case less
  obtain u p where p: "peek s [38] = (u, p)" by fastforce
  obtain r w v where g: "gettoken u = (r, w, v)" by (metis prod_cases3)
  show ?case
  proof (cases p)
    case False
    then show ?thesis using less.prems p peek_le [OF p] by (simp add: parsebacks.simps [of c s])
  next
    case True
    then have "length v < length s" "parsebacks (BACK c) v = (c', t)"
      using less.prems p g peek_token [of u s "[38]" r w v] by (simp_all add: parsebacks.simps [of c s])
    then show ?thesis using less.hyps [of v] by force
  qed
qed

definition done_in :: "nat \<Rightarrow> 'a presult option \<Rightarrow> bool" where
  "done_in k m \<longleftrightarrow> (case m of None \<Rightarrow> False | Some (Inl e) \<Rightarrow> True | Some (Inr (x, s)) \<Rightarrow> length s \<le> k)"

lemma done_in_simps [simp]:
  "\<not> done_in k None" "done_in k (Some (Inl e))" "done_in k (Some (Inr (x, s))) \<longleftrightarrow> length s \<le> k"
  by (simp_all add: done_in_def)

lemma done_in_pbind:
  assumes "done_in k m" "\<And>x s. length s \<le> k \<Longrightarrow> done_in k' (f x s)"
  shows "done_in k' (pbind m f)"
proof (cases m)
  case (Some r)
  then show ?thesis using assms by (cases r) auto
qed (use assms(1) in simp)

lemma done_in_mono: "done_in k m \<Longrightarrow> k \<le> k' \<Longrightarrow> done_in k' m"
  by (auto simp: done_in_def split: option.splits sum.splits)

lemma parseargs_le: "parseargs args rs s = Inr (x, t) \<Longrightarrow> length t \<le> length s"
proof (induction "length s" arbitrary: args rs s rule: less_induct)
  case less
  obtain r u where r: "arg s = Inr (r, u)"
    using less.prems by (cases "arg s") (auto simp: parseargs.simps [of args rs s])
  show ?case
  proof (cases r)
    case None
    then show ?thesis using less.prems r arg_le(1) [OF r] by (simp add: parseargs.simps [of args rs s])
  next
    case (Some w)
    then obtain rs' v where v: "parseredirs rs u = Inr (rs', v)" "parseargs (args @ [w]) rs' v = Inr (x, t)"
      using less.prems r by (auto simp: parseargs.simps [of args rs s] split: if_splits sum.splits)
    then show ?thesis using less.hyps [of v] arg_le(2) [OF r] parseredirs_le [OF v(1)] Some by force
  qed
qed

lemma redir_tail:
  "length s \<le> k \<Longrightarrow> done_in k (case parseredirs [] s of Inl e \<Rightarrow> Some (Inl e) | Inr (rs, s) \<Rightarrow> Some (Inr (redirs cmd rs, s)))"
  using parseredirs_le [of "[]" s] by (fastforce split: sum.splits)

lemma tok_cases:
  obtains u p r w v where "peek s toks = (u, p)" "gettoken u = (r, w, v)" "length u \<le> length s" "length v \<le> length u"
    "p \<Longrightarrow> length v < length s"
proof -
  obtain u p where p: "peek s toks = (u, p)" by fastforce
  obtain r w v where g: "gettoken u = (r, w, v)" by (metis prod_cases3)
  show ?thesis using that [OF p g] peek_le [OF p] gettoken_le [OF g] peek_token [of u s toks r w v] p g by auto
qed

lemma parse_done:
  "(\<forall>s. 4 * length s + 3 \<le> n \<longrightarrow> done_in (length s) (parseline n s))
   \<and> (\<forall>s. 4 * length s + 2 \<le> n \<longrightarrow> done_in (length s) (parsepipe n s))
   \<and> (\<forall>s. 4 * length s + 1 \<le> n \<longrightarrow> done_in (length s) (parseexec n s))
   \<and> (\<forall>s. 4 * length s \<le> n \<and> s \<noteq> [] \<longrightarrow> done_in (length s) (parseblock n s))"
proof (induction n)
  case (Suc n)
  then have L: "\<And>s. 4 * length s + 3 \<le> n \<Longrightarrow> done_in (length s) (parseline n s)"
    and P: "\<And>s. 4 * length s + 2 \<le> n \<Longrightarrow> done_in (length s) (parsepipe n s)"
    and E: "\<And>s. 4 * length s + 1 \<le> n \<Longrightarrow> done_in (length s) (parseexec n s)"
    and B: "\<And>s. 4 * length s \<le> n \<Longrightarrow> s \<noteq> [] \<Longrightarrow> done_in (length s) (parseblock n s)" by auto
  have "done_in (length s) (parseline (Suc n) s)" if "4 * length s + 3 \<le> Suc n" for s
    unfolding parseline.simps
  proof (rule done_in_pbind [OF P])
    fix c :: "word_ptr cmd" and t :: "u8 list" assume t: "length t \<le> length s"
    obtain c' t' where b: "parsebacks c t = (c', t')" by fastforce
    obtain u p r w v where k: "peek t' [59] = (u, p)" "gettoken u = (r, w, v)" "length u \<le> length t'" "p \<Longrightarrow> length v < length t'"
      using tok_cases [of t' "[59]"] by metis
    have "done_in (length s) (pbind (parseline n v) (\<lambda>right s. Some (Inr (LIST c' right, s))))" if p
      by (rule done_in_pbind [OF L]) (use t parsebacks_le [OF b] k(4) [OF that] \<open>4 * length s + 3 \<le> Suc n\<close> in auto)
    then show "done_in (length s) (let (cmd, s) = parsebacks c t; (s, p) = peek s [59] in
        if p then let (_, _, s) = gettoken s in pbind (parseline n s) (\<lambda>right s. Some (Inr (LIST cmd right, s)))
        else Some (Inr (cmd, s)))"
      using t parsebacks_le [OF b] k(3) by (simp add: b k(1,2))
  qed (use that in simp)
  moreover have "done_in (length s) (parsepipe (Suc n) s)" if "4 * length s + 2 \<le> Suc n" for s
    unfolding parsepipe.simps
  proof (rule done_in_pbind [OF E])
    fix c :: "word_ptr cmd" and t :: "u8 list" assume t: "length t \<le> length s"
    obtain u p r w v where k: "peek t [124] = (u, p)" "gettoken u = (r, w, v)" "length u \<le> length t" "p \<Longrightarrow> length v < length t"
      using tok_cases [of t "[124]"] by metis
    have "done_in (length s) (pbind (parsepipe n v) (\<lambda>right s. Some (Inr (PIPE c right, s))))" if p
      by (rule done_in_pbind [OF P]) (use t k(4) [OF that] \<open>4 * length s + 2 \<le> Suc n\<close> in auto)
    then show "done_in (length s) (let (s, p) = peek t [124] in
        if p then let (_, _, s) = gettoken s in pbind (parsepipe n s) (\<lambda>right s. Some (Inr (PIPE c right, s)))
        else Some (Inr (c, s)))" using t k(3) by (simp add: k(1,2))
  qed (use that in simp)
  moreover have "done_in (length s) (parseexec (Suc n) s)" if "4 * length s + 1 \<le> Suc n" for s
  proof -
    obtain u p r w v where k: "peek s [40] = (u, p)" "gettoken u = (r, w, v)" "length u \<le> length s"
      using tok_cases [of s "[40]"] by metis
    have "u \<noteq> []" if p using k(1) that by (auto simp: peek_def Let_def cur_def)
    then have "done_in (length s) (parseblock n u)" if p
      using that B [of u] k(3) \<open>4 * length s + 1 \<le> Suc n\<close> done_in_mono by fastforce
    then show ?thesis
      using k(3) parseredirs_le [of "[]" u] parseargs_le [of "[]" _ _ _]
      by (auto simp: k(1) Let_def split: sum.splits) (meson le_trans)
  qed
  moreover have "done_in (length s) (parseblock (Suc n) s)" if "4 * length s \<le> Suc n" for s
  proof -
    obtain u p r w v where k: "peek s [40] = (u, p)" "gettoken u = (r, w, v)" "p \<Longrightarrow> length v < length s"
      using tok_cases [of s "[40]"] by metis
    have "done_in (length s) (pbind (parseline n v) (\<lambda>cmd s. let (s, p) = peek s [41] in
      if \<not> p then Some (Inl ''syntax - missing )'') else let (_, _, s) = gettoken s in
      case parseredirs [] s of Inl e \<Rightarrow> Some (Inl e) | Inr (rs, s) \<Rightarrow> Some (Inr (redirs cmd rs, s))))" if p
    proof (rule done_in_pbind [OF L])
      fix c :: "word_ptr cmd" and t :: "u8 list" assume t: "length t \<le> length v"
      obtain u' p' r' w' v' where k': "peek t [41] = (u', p')" "gettoken u' = (r', w', v')" "length u' \<le> length t" "length v' \<le> length u'"
        using tok_cases [of t "[41]"] by metis
      show "done_in (length s) (let (s, p) = peek t [41] in
        if \<not> p then Some (Inl ''syntax - missing )'') else let (_, _, s) = gettoken s in
        case parseredirs [] s of Inl e \<Rightarrow> Some (Inl e) | Inr (rs, s) \<Rightarrow> Some (Inr (redirs c rs, s)))"
        using redir_tail [of v' "length s" c] t k' k(3) [OF that] by (simp add: k'(1,2))
    qed (use that k(3) \<open>4 * length s \<le> Suc n\<close> in simp)
    then show ?thesis by (simp add: k(1,2))
  qed
  ultimately show ?case by blast
qed simp

lemma parsecmd_returns: "parsecmd s \<noteq> None"
proof -
  have "done_in (length s) (parseline (4 * length s + 4) s)" using parse_done [of "4 * length s + 4"] by simp
  then show ?thesis by (auto simp: parsecmd_def Let_def done_in_def split: option.splits sum.splits prod.splits)
qed

section \<open>Printed commands\<close>

text \<open>A word of a command line, a redirection the shell can write, and the commands it can write.\<close>

definition legal :: "u8 list \<Rightarrow> bool" where
  "legal w \<longleftrightarrow> w \<noteq> [] \<and> (\<forall>c\<in>set w. word_char c \<and> c \<noteq> 0)"

definition legal_redir :: "u8 list \<times> u32 \<times> nat \<Rightarrow> bool" where
  "legal_redir r \<longleftrightarrow> legal (fst r) \<and> (snd r = (O_RDONLY, 0) \<or> snd r = (O_WRONLY OR O_CREATE, 1))"

fun wf_cmd :: "u8 list cmd \<Rightarrow> bool" where
  "wf_cmd (EXEC ws) \<longleftrightarrow> length ws < MAXARGS \<and> (\<forall>w\<in>set ws. legal w)"
| "wf_cmd (REDIR c w mode fd) \<longleftrightarrow> wf_cmd c \<and> legal_redir (w, mode, fd)"
| "wf_cmd (PIPE a b) \<longleftrightarrow> wf_cmd a \<and> wf_cmd b"
| "wf_cmd (LIST a b) \<longleftrightarrow> wf_cmd a \<and> wf_cmd b"
| "wf_cmd (BACK c) \<longleftrightarrow> wf_cmd c"

definition words_text :: "u8 list list \<Rightarrow> u8 list" where
  "words_text ws = concat (map (\<lambda>w. w @ [32]) ws)"

definition redir_text :: "u8 list \<times> u32 \<times> nat \<Rightarrow> u8 list" where
  "redir_text r = (case r of (w, mode, fd) \<Rightarrow> (if fd = 0 then 60 else 62) # w @ [32])"

definition redirs_text :: "(u8 list \<times> u32 \<times> nat) list \<Rightarrow> u8 list" where
  "redirs_text rs = concat (map redir_text rs)"

text \<open>The text of a command where the grammar expects a list (0), a background command (1), a pipe (2) or
  a simple command (3).\<close>

definition paren :: "bool \<Rightarrow> u8 list \<Rightarrow> u8 list" where
  "paren b s = (if b then [40] @ s @ [41] else s)"

fun cmd_text :: "nat \<Rightarrow> u8 list cmd \<Rightarrow> u8 list" where
  "cmd_text l (EXEC ws) = words_text ws"
| "cmd_text l (REDIR c w mode fd) = cmd_text 3 c @ redir_text (w, mode, fd)"
| "cmd_text l (PIPE a b) = paren (2 < l) (cmd_text 3 a @ [124] @ cmd_text 2 b)"
| "cmd_text l (LIST a b) = paren (0 < l) (cmd_text 1 a @ [59] @ cmd_text 0 b)"
| "cmd_text l (BACK a) = paren (1 < l) (cmd_text 1 a @ [38])"

text \<open>\<open>p\<close> points to a maximal word \<open>w\<close> of the line \<open>s\<close>.\<close>

definition is_word :: "u8 list \<Rightarrow> word_ptr \<Rightarrow> u8 list \<Rightarrow> bool" where
  "is_word s p w \<longleftrightarrow> w \<noteq> [] \<and> (\<forall>c\<in>set w. word_char c)
     \<and> (\<exists>pre post. s = pre @ w @ post \<and> p = (length w + length post, length post) \<and> (post \<noteq> [] \<longrightarrow> \<not> word_char (hd post)))"

lemma is_word_app: "is_word t p w \<Longrightarrow> is_word (s @ t) p w"
  unfolding is_word_def by (metis append.assoc)

lemma is_word_apps: "is_word (s @ t) p w \<Longrightarrow> is_word (r @ s @ t) p w"
  by (rule is_word_app)

lemma is_word_Cons: "is_word t p w \<Longrightarrow> is_word (c # t) p w"
  using is_word_app [of t p w "[c]"] by simp

section \<open>White space\<close>

lemma skip_simps [simp]:
  "skip [] = []" "skip (32 # s) = skip s" "c \<notin> set whitespace \<Longrightarrow> skip (c # s) = c # s"
  by (simp_all add: skip_def whitespace_def)

lemma not_whitespace [simp]:
  "c \<in> {124, 40, 41, 59, 38, 60, 62} \<Longrightarrow> c \<notin> set whitespace" "word_char c \<Longrightarrow> c \<notin> set whitespace"
  by (auto simp: whitespace_def word_char_def)

lemma word_char_neq: "word_char c \<Longrightarrow> c \<notin> {124, 40, 41, 59, 38, 60, 62}"
  by (auto simp: word_char_def symbols_def)

lemma legal_Cons: "legal w \<Longrightarrow> \<exists>c v. w = c # v \<and> word_char c \<and> c \<noteq> 0 \<and> c \<notin> {124, 40, 41, 59, 38, 60, 62}"
  using word_char_neq by (cases w) (auto simp: legal_def)

lemma skip_legal [simp]: "legal w \<Longrightarrow> skip (w @ t) = w @ t"
  by (drule legal_Cons) auto

lemma peek_skip [simp]: "peek (skip s) toks = peek s toks"
  by (simp add: peek_def)

lemma gettoken_skip [simp]: "gettoken (skip s) = gettoken s"
  by (simp add: gettoken_def)

lemma redir_skip [simp]: "redir (skip s) = redir s"
  by (simp add: redir_def)

lemma parseredirs_skip [simp]: "parseredirs rs (skip s) = parseredirs rs s"
  by (simp add: parseredirs.simps [of rs "skip s"] parseredirs.simps [of rs s])

lemma arg_skip [simp]: "arg (skip s) = arg s"
  by (simp add: arg_def)

lemma parseargs_skip [simp]: "parseargs args rs (skip s) = parseargs args rs s"
  by (simp add: parseargs.simps [of args rs "skip s"] parseargs.simps [of args rs s])

lemma parsebacks_skip [simp]: "parsebacks c (skip s) = parsebacks c s"
  by (simp add: parsebacks.simps [of c "skip s"] parsebacks.simps [of c s])

lemma parse_skip [simp]:
  "parseblock n (skip s) = parseblock n s" "parseexec n (skip s) = parseexec n s"
  "parsepipe n (skip s) = parsepipe n s" "parseline n (skip s) = parseline n s"
proof -
  show "parseblock n (skip s) = parseblock n s" for n by (cases n) simp_all
  show *: "parseexec n (skip s) = parseexec n s" for n by (cases n) simp_all
  show **: "parsepipe n (skip s) = parsepipe n s" for n by (cases n) (simp_all add: *)
  show "parseline n (skip s) = parseline n s" for n by (cases n) (simp_all add: **)
qed

section \<open>Parsing printed text\<close>

text \<open>The rest of the line is empty or starts with one of the given symbols.\<close>

definition stop :: "u8 list \<Rightarrow> u8 list \<Rightarrow> bool" where
  "stop S t \<longleftrightarrow> skip t = [] \<or> cur (skip t) \<in> set S"

lemma peek_Cons [simp]: "c \<notin> set whitespace \<Longrightarrow> peek (c # t) toks = (c # t, c \<noteq> 0 \<and> c \<in> set toks)"
  by (simp add: peek_def cur_def)

lemma peek_stop: "stop S t \<Longrightarrow> set S \<inter> set toks = {} \<Longrightarrow> peek t toks = (skip t, False)"
  by (auto simp: stop_def peek_def cur_def Let_def)

lemma gettoken_sym [simp]:
  "gettoken (124 # t) = (124, (Suc (length t), length t), skip t)"
  "gettoken (40 # t) = (40, (Suc (length t), length t), skip t)"
  "gettoken (41 # t) = (41, (Suc (length t), length t), skip t)"
  "gettoken (59 # t) = (59, (Suc (length t), length t), skip t)"
  "gettoken (38 # t) = (38, (Suc (length t), length t), skip t)"
  "gettoken (60 # t) = (60, (Suc (length t), length t), skip t)"
  by (simp_all add: gettoken_def cur_def)

lemma gettoken_word:
  assumes "legal w"
  shows "gettoken (w @ 32 # t) = (97, (length w + length (32 # t), length (32 # t)), skip t)"
proof -
  obtain c v where c: "w = c # v" "word_char c" "c \<noteq> 0" "c \<notin> {124, 40, 41, 59, 38, 60, 62}"
    using legal_Cons [OF assms] by blast
  have "dropWhile word_char (w @ 32 # t) = 32 # t"
    using assms by (simp add: legal_def dropWhile_append word_char_def whitespace_def)
  then show ?thesis using c by (simp add: gettoken_def cur_def Let_def)
qed

lemma gettoken_gt:
  assumes "legal w"
  shows "gettoken (62 # w @ t) = (62, (Suc (length (w @ t)), length (w @ t)), w @ t)"
proof -
  obtain c v where c: "w = c # v" "word_char c" "c \<noteq> 0" "c \<notin> {124, 40, 41, 59, 38, 60, 62}"
    using legal_Cons [OF assms] by blast
  then show ?thesis by (simp add: gettoken_def cur_def)
qed

lemma is_word_here: "legal w \<Longrightarrow> is_word (w @ 32 # t) (length w + length (32 # t), length (32 # t)) w"
  unfolding is_word_def by (rule conjI, simp add: legal_def, rule conjI, simp add: legal_def, rule exI [of _ "[]"], rule exI [of _ "32 # t"])
    (simp add: word_char_def whitespace_def)

lemma redir_printed:
  assumes "legal_redir (w, mode, fd)"
  shows "\<exists>p. redir (redir_text (w, mode, fd) @ t) = Inr (Some (p, mode, fd), skip t)
    \<and> is_word (redir_text (w, mode, fd) @ t) p w"
proof -
  have w: "legal w" and m: "mode = O_RDONLY \<and> fd = 0 \<or> mode = O_WRONLY OR O_CREATE \<and> fd = 1"
    using assms by (auto simp: legal_redir_def)
  have "is_word (c # w @ 32 # t) (length w + length (32 # t), length (32 # t)) w" for c
    by (rule is_word_Cons [OF is_word_here [OF w]])
  then show ?thesis
    using m gettoken_word [OF w, of t] gettoken_gt [OF w, of "32 # t"] w
    by (auto simp: redir_text_def redir_def)
qed

lemma redir_none: "peek t [60, 62] = (u, False) \<Longrightarrow> redir t = Inr (None, u)"
  by (simp add: redir_def)

abbreviation redir_rel :: "u8 list \<Rightarrow> word_ptr \<times> u32 \<times> nat \<Rightarrow> u8 list \<times> u32 \<times> nat \<Rightarrow> bool" where
  "redir_rel s \<equiv> rel_prod (is_word s) (=)"

lemma redirs_text_simps [simp]:
  "redirs_text [] = []" "redirs_text (r # rs) = redir_text r @ redirs_text rs"
  by (simp_all add: redirs_text_def)

lemma words_text_simps [simp]:
  "words_text [] = []" "words_text (w # ws) = w @ 32 # words_text ws"
  by (simp_all add: words_text_def)

lemma parseredirs_text:
  assumes "\<forall>r\<in>set rs. legal_redir r" "peek t [60, 62] = (skip t, False)"
  shows "\<exists>ps. parseredirs acc (redirs_text rs @ t) = Inr (acc @ ps, skip t) \<and> list_all2 (redir_rel (redirs_text rs @ t)) ps rs"
  using assms(1)
proof (induction rs arbitrary: acc)
  case Nil
  then show ?case by (simp add: parseredirs.simps [of acc t] redir_none [OF assms(2)])
next
  case (Cons r rs)
  obtain w mode fd where r: "r = (w, mode, fd)" by (metis prod_cases3)
  then obtain p where p: "redir (redir_text r @ redirs_text rs @ t) = Inr (Some (p, mode, fd), skip (redirs_text rs @ t))"
    "is_word (redir_text r @ redirs_text rs @ t) p w"
    using redir_printed [of w mode fd "redirs_text rs @ t"] Cons.prems by auto
  obtain ps where ps: "parseredirs (acc @ [(p, mode, fd)]) (redirs_text rs @ t) = Inr ((acc @ [(p, mode, fd)]) @ ps, skip t)"
    "list_all2 (redir_rel (redirs_text rs @ t)) ps rs" using Cons.IH [of "acc @ [(p, mode, fd)]"] Cons.prems by auto
  have "list_all2 (redir_rel (redir_text r @ redirs_text rs @ t)) ps rs"
    by (rule list.rel_mono_strong [OF ps(2)]) (auto simp: rel_prod_sel intro: is_word_app)
  then show ?case using p ps(1) r
    by (intro exI [of _ "(p, mode, fd) # ps"]) (simp add: parseredirs.simps [of acc "redir_text (w, mode, fd) @ redirs_text rs @ t"])
qed

lemma word_arg: "legal w \<Longrightarrow> arg (w @ 32 # t) = Inr (Some (length w + length (32 # t), length (32 # t)), skip t)"
  using legal_Cons [of w] gettoken_word [of w t] by (auto simp: arg_def)

lemma arg_none: "stop [124, 41, 38, 59] t \<Longrightarrow> arg t = Inr (None, skip t)"
  by (cases "skip t = []") (auto simp: stop_def arg_def peek_def gettoken_def cur_def Let_def split: list.splits)

lemma stop_peek: "stop [124, 41, 38, 59] t \<Longrightarrow> peek t [60, 62] = (skip t, False)"
  by (erule peek_stop) simp

lemma words_peek:
  assumes "\<forall>w\<in>set ws. legal w" "ws \<noteq> []" "set toks \<subseteq> {60, 62, 40}"
  shows "peek (words_text ws @ t) toks = (words_text ws @ t, False)"
proof -
  obtain w vs where "ws = w # vs" using assms by (cases ws) auto
  then show ?thesis using legal_Cons [of w] assms by auto
qed

lemma parseargs_text:
  assumes "\<forall>r\<in>set rs. legal_redir r" "stop [124, 41, 38, 59] t"
    "\<forall>w\<in>set ws. legal w" "ws = [] \<longrightarrow> rs = []" "length acc + length ws < MAXARGS"
  shows "\<exists>as ps. parseargs acc racc (words_text ws @ redirs_text rs @ t) = Inr ((acc @ as, racc @ ps), skip t)
     \<and> list_all2 (is_word (words_text ws @ redirs_text rs @ t)) as ws
     \<and> list_all2 (redir_rel (words_text ws @ redirs_text rs @ t)) ps rs"
  using assms(1,3-5)
proof (induction ws arbitrary: acc racc rs)
  case Nil
  then show ?case by (simp add: parseargs.simps [of acc racc t] arg_none [OF assms(2)])
next
  case (Cons w ws)
  let ?u = "words_text ws @ redirs_text rs @ t"
  have w: "legal w" using Cons.prems by simp
  obtain p where arg: "arg (w @ 32 # ?u) = Inr (Some p, skip ?u)" and word: "is_word (w @ 32 # ?u) p w"
    using word_arg [OF w] is_word_here [OF w] by blast
  have "\<exists>as ps. (case parseredirs racc ?u of Inl e \<Rightarrow> Inl e | Inr (rs, s) \<Rightarrow> parseargs (acc @ [p]) rs s) = Inr ((acc @ p # as, racc @ ps), skip t)
     \<and> list_all2 (is_word ?u) as ws \<and> list_all2 (redir_rel ?u) ps rs"
  proof (cases "ws = []")
    case True
    then show ?thesis
      using parseredirs_text [OF Cons.prems(1) stop_peek [OF assms(2)], of racc] Cons.IH [of "[]" "acc @ [p]"] Cons.prems
      by fastforce
  next
    case False
    have "redir ?u = Inr (None, ?u)" using words_peek [OF _ False, of "[60, 62]"] Cons.prems by (simp add: redir_none)
    then have "parseredirs racc ?u = Inr (racc, ?u)" by (simp add: parseredirs.simps [of racc ?u])
    then show ?thesis using Cons.IH [of rs "acc @ [p]" racc] Cons.prems False by simp
  qed
  then obtain as ps where a: "(case parseredirs racc ?u of Inl e \<Rightarrow> Inl e | Inr (rs, s) \<Rightarrow> parseargs (acc @ [p]) rs s) = Inr ((acc @ p # as, racc @ ps), skip t)"
    "list_all2 (is_word ?u) as ws" "list_all2 (redir_rel ?u) ps rs" by blast
  have "list_all2 (is_word (w @ 32 # ?u)) (p # as) (w # ws)"
    using word list.rel_mono_strong [OF a(2)] is_word_app [OF is_word_Cons] by simp
  moreover have "list_all2 (redir_rel (w @ 32 # ?u)) ps rs"
    by (rule list.rel_mono_strong [OF a(3)]) (auto simp: rel_prod_sel intro: is_word_app is_word_Cons)
  moreover have "parseargs acc racc (w @ 32 # ?u) = Inr ((acc @ p # as, racc @ ps), skip t)"
    using a(1) Cons.prems by (simp add: parseargs.simps [of acc racc "w @ 32 # ?u"] arg)
  ultimately show ?case by (intro exI [of _ "p # as"] exI [of _ ps]) simp
qed

lemma rel_redirs:
  "rel_cmd R pc c \<Longrightarrow> list_all2 (rel_prod R (=)) ps rs \<Longrightarrow> rel_cmd R (redirs pc ps) (redirs c rs)"
  unfolding redirs_def by (induction ps arbitrary: pc c rs) (fastforce simp: list_all2_Cons1)+

lemma parseexec_text:
  assumes "\<forall>r\<in>set rs. legal_redir r" "stop [124, 41, 38, 59] t" "wf_cmd (EXEC ws)"
  shows "\<exists>pc. (\<forall>n. parseexec (Suc n) (words_text ws @ redirs_text rs @ t) = Some (Inr (pc, skip t)))
     \<and> rel_cmd (is_word (words_text ws @ redirs_text rs @ t)) pc (redirs (EXEC ws) rs)"
proof (cases "ws = []")
  case True
  obtain ps where "parseredirs [] (redirs_text rs @ t) = Inr (ps, skip t)" "list_all2 (redir_rel (redirs_text rs @ t)) ps rs"
    using parseredirs_text [OF assms(1) stop_peek [OF assms(2)], of "[]"] by auto
  moreover have "peek (redirs_text rs @ t) [40] = (skip (redirs_text rs @ t), False)"
    using peek_stop [OF assms(2), of "[40]"] by (cases rs) (auto simp: redir_text_def split: prod.splits)
  moreover have "parseargs [] ps t = Inr (([], ps), skip t)" by (simp add: parseargs.simps [of "[]" ps t] arg_none [OF assms(2)])
  ultimately show ?thesis using True rel_redirs [of _ "EXEC []" "EXEC []" ps rs] by simp
next
  case False
  note p = words_peek [OF _ False, of "[60, 62]" "redirs_text rs @ t"] words_peek [OF _ False, of "[40]" "redirs_text rs @ t"]
  obtain as ps where "parseargs [] [] (words_text ws @ redirs_text rs @ t) = Inr ((as, ps), skip t)"
    "list_all2 (is_word (words_text ws @ redirs_text rs @ t)) as ws" "list_all2 (redir_rel (words_text ws @ redirs_text rs @ t)) ps rs"
    using parseargs_text [OF assms(1,2), of ws "[]" "[]"] assms(3) False by auto
  then show ?thesis using p assms(3) rel_redirs [of _ "EXEC as" "EXEC ws" ps rs]
    by (simp add: parseredirs.simps [of "[]" "words_text ws @ redirs_text rs @ t"] redir_none)
qed

text \<open>The result of a parser that needs fuel, once there is enough of it.\<close>

definition gives :: "(nat \<Rightarrow> 'a presult option) \<Rightarrow> 'a \<Rightarrow> u8 list \<Rightarrow> bool" where
  "gives f x t \<longleftrightarrow> (\<exists>k. \<forall>n\<ge>k. f n = Some (Inr (x, t)))"

lemma gives_ret: "gives (\<lambda>n. Some (Inr (x, t))) x t"
  by (simp add: gives_def)

lemma gives_Suc: "gives (\<lambda>n. f (Suc n)) x t \<Longrightarrow> gives f x t"
  unfolding gives_def by (metis Suc_le_D Suc_le_mono)

lemma gives_pbind:
  assumes "gives f x s" "gives (\<lambda>n. g n x s) y t"
  shows "gives (\<lambda>n. pbind (f n) (g n)) y t"
proof -
  obtain k l where "\<forall>n\<ge>k. f n = Some (Inr (x, s))" "\<forall>n\<ge>l. g n x s = Some (Inr (y, t))" using assms by (auto simp: gives_def)
  then show ?thesis unfolding gives_def by (intro exI [of _ "max k l"]) simp
qed

lemma parse_mono:
  "(\<forall>s r. parseline n s = Some r \<longrightarrow> parseline (Suc n) s = Some r)
   \<and> (\<forall>s r. parsepipe n s = Some r \<longrightarrow> parsepipe (Suc n) s = Some r)
   \<and> (\<forall>s r. parseexec n s = Some r \<longrightarrow> parseexec (Suc n) s = Some r)
   \<and> (\<forall>s r. parseblock n s = Some r \<longrightarrow> parseblock (Suc n) s = Some r)"
proof (induction n)
  case (Suc n)
  have bind: "pbind m' f' = Some r" if "pbind m f = Some r" "\<And>x. m = Some x \<Longrightarrow> m' = Some x"
    "\<And>x s r. f x s = Some r \<Longrightarrow> f' x s = Some r" for m m' :: "'x presult option" and f f' :: "'x \<Rightarrow> u8 list \<Rightarrow> 'y presult option" and r
    using that by (auto simp: pbind_def split: option.splits sum.splits)
  have "parseline (Suc (Suc n)) s = Some r" if "parseline (Suc n) s = Some r" for s r
    unfolding parseline.simps(2) [of "Suc n"]
    by (rule bind [OF that [unfolded parseline.simps(2) [of n]]])
      (use Suc in \<open>auto simp: Let_def split: prod.splits if_splits elim!: bind\<close>)
  moreover have "parsepipe (Suc (Suc n)) s = Some r" if "parsepipe (Suc n) s = Some r" for s r
    unfolding parsepipe.simps(2) [of "Suc n"]
    by (rule bind [OF that [unfolded parsepipe.simps(2) [of n]]])
      (use Suc in \<open>auto simp: Let_def split: prod.splits if_splits elim!: bind\<close>)
  moreover have "parseexec (Suc (Suc n)) s = Some r" if "parseexec (Suc n) s = Some r" for s r
    using that Suc unfolding parseexec.simps(2) [of n] parseexec.simps(2) [of "Suc n"]
    by (auto simp del: parseblock.simps split: prod.splits if_splits)
  moreover have "parseblock (Suc (Suc n)) s = Some r" if "parseblock (Suc n) s = Some r" for s r
    using that Suc unfolding parseblock.simps(2) [of n] parseblock.simps(2) [of "Suc n"]
    by (auto simp del: parseline.simps split: prod.splits if_splits elim!: bind)
  ultimately show ?case by blast
qed simp

text \<open>How the text of a command is read where a simple command (3), a pipe (2), a background command (1) or a
  list (0) is expected. The text of a simple command may be followed by redirections.\<close>

definition reads3 :: "u8 list \<Rightarrow> u8 list cmd \<Rightarrow> bool" where
  "reads3 s c \<longleftrightarrow> (\<forall>rs t. (\<forall>r\<in>set rs. legal_redir r) \<longrightarrow> stop [124, 41, 38, 59] t \<longrightarrow>
     (\<exists>pc. gives (\<lambda>n. parseexec n (s @ redirs_text rs @ t)) pc (skip t)
        \<and> rel_cmd (is_word (s @ redirs_text rs @ t)) pc (redirs c rs)))"

definition reads2 :: "u8 list \<Rightarrow> u8 list cmd \<Rightarrow> bool" where
  "reads2 s c \<longleftrightarrow> (\<forall>t. stop [41, 38, 59] t \<longrightarrow>
     (\<exists>pc. gives (\<lambda>n. parsepipe n (s @ t)) pc (skip t) \<and> rel_cmd (is_word (s @ t)) pc c))"

definition reads1 :: "u8 list \<Rightarrow> u8 list cmd \<Rightarrow> bool" where
  "reads1 s c \<longleftrightarrow> (\<forall>t. stop [41, 38, 59] t \<longrightarrow>
     (\<exists>pc0 pc u. gives (\<lambda>n. parsepipe n (s @ t)) pc0 u \<and> parsebacks pc0 u = parsebacks pc t \<and> rel_cmd (is_word (s @ t)) pc c))"

definition reads0 :: "u8 list \<Rightarrow> u8 list cmd \<Rightarrow> bool" where
  "reads0 s c \<longleftrightarrow> (\<forall>t. stop [41] t \<longrightarrow>
     (\<exists>pc. gives (\<lambda>n. parseline n (s @ t)) pc (skip t) \<and> rel_cmd (is_word (s @ t)) pc c))"

lemma stop_mono: "stop S t \<Longrightarrow> set S \<subseteq> set S' \<Longrightarrow> stop S' t"
  by (auto simp: stop_def)

lemma stop_Cons [simp]: "c \<in> set S \<Longrightarrow> c \<in> {124, 40, 41, 59, 38, 60, 62} \<Longrightarrow> stop S (c # t)"
  by (simp add: stop_def cur_def)

lemma rel_word_app: "rel_cmd (is_word t) pc c \<Longrightarrow> rel_cmd (is_word (s @ t)) pc c"
  by (erule cmd.rel_mono_strong) (rule is_word_app)

lemma rel_word_Cons: "rel_cmd (is_word t) pc c \<Longrightarrow> rel_cmd (is_word (x # t)) pc c"
  using rel_word_app [of t pc c "[x]"] by simp

lemma parsepipe_single:
  assumes "gives (\<lambda>n. parseexec n s) pc (skip t)" "stop [41, 38, 59] t"
  shows "gives (\<lambda>n. parsepipe n s) pc (skip t)"
proof (rule gives_Suc)
  show "gives (\<lambda>n. parsepipe (Suc n) s) pc (skip t)" unfolding parsepipe.simps
    by (rule gives_pbind [OF assms(1)]) (use peek_stop [OF assms(2), of "[124]"] gives_ret in simp)
qed

lemma reads3_2: "reads3 s c \<Longrightarrow> reads2 s c"
  unfolding reads2_def
proof (intro allI impI)
  fix t assume r: "reads3 s c" and t: "stop [41, 38, 59] t"
  obtain pc where "gives (\<lambda>n. parseexec n (s @ redirs_text [] @ t)) pc (skip t)" "rel_cmd (is_word (s @ redirs_text [] @ t)) pc (redirs c [])"
    using r [unfolded reads3_def, rule_format, of "[]" t] stop_mono [OF t, of "[124, 41, 38, 59]"] by auto
  then show "\<exists>pc. gives (\<lambda>n. parsepipe n (s @ t)) pc (skip t) \<and> rel_cmd (is_word (s @ t)) pc c"
    using parsepipe_single [OF _ t, of "s @ t" pc] by (auto simp: redirs_def)
qed

lemma reads2_pipe: "reads3 s a \<Longrightarrow> reads2 u b \<Longrightarrow> reads2 (s @ [124] @ u) (PIPE a b)"
  unfolding reads2_def
proof (intro allI impI)
  fix t assume a: "reads3 s a" and b: "\<forall>t. stop [41, 38, 59] t \<longrightarrow>
     (\<exists>pc. gives (\<lambda>n. parsepipe n (u @ t)) pc (skip t) \<and> rel_cmd (is_word (u @ t)) pc b)" and t: "stop [41, 38, 59] t"
  obtain pb where pb: "gives (\<lambda>n. parsepipe n (u @ t)) pb (skip t)" "rel_cmd (is_word (u @ t)) pb b" using b t by blast
  obtain pa where pa: "gives (\<lambda>n. parseexec n (s @ 124 # u @ t)) pa (124 # u @ t)" "rel_cmd (is_word (s @ 124 # u @ t)) pa a"
    using a [unfolded reads3_def, rule_format, of "[]" "124 # u @ t"] by (auto simp: redirs_def)
  have "gives (\<lambda>n. parsepipe (Suc n) (s @ 124 # u @ t)) (PIPE pa pb) (skip t)" unfolding parsepipe.simps
    by (rule gives_pbind [OF pa(1)], simp) (rule gives_pbind [OF pb(1)], rule gives_ret)
  then show "\<exists>pc. gives (\<lambda>n. parsepipe n ((s @ [124] @ u) @ t)) pc (skip t) \<and> rel_cmd (is_word ((s @ [124] @ u) @ t)) pc (PIPE a b)"
    using pa(2) rel_word_app [OF rel_word_Cons [OF pb(2)]] by (intro exI [of _ "PIPE pa pb"]) (simp add: gives_Suc)
qed

lemma reads2_1: "reads2 s c \<Longrightarrow> reads1 s c"
  unfolding reads2_def reads1_def using parsebacks_skip by blast

lemma reads1_back: "reads1 s c \<Longrightarrow> reads1 (s @ [38]) (BACK c)"
  unfolding reads1_def
proof (intro allI impI)
  fix t assume r: "\<forall>t. stop [41, 38, 59] t \<longrightarrow> (\<exists>pc0 pc u. gives (\<lambda>n. parsepipe n (s @ t)) pc0 u
     \<and> parsebacks pc0 u = parsebacks pc t \<and> rel_cmd (is_word (s @ t)) pc c)"
  obtain pc0 pc u where "gives (\<lambda>n. parsepipe n (s @ 38 # t)) pc0 u" "parsebacks pc0 u = parsebacks pc (38 # t)" "rel_cmd (is_word (s @ 38 # t)) pc c"
    using r [rule_format, of "38 # t"] by auto
  then show "\<exists>pc0 pc u. gives (\<lambda>n. parsepipe n ((s @ [38]) @ t)) pc0 u \<and> parsebacks pc0 u = parsebacks pc t \<and> rel_cmd (is_word ((s @ [38]) @ t)) pc (BACK c)"
    by (intro exI [of _ pc0] exI [of _ "BACK pc"] exI [of _ u]) (simp add: parsebacks.simps [of pc "38 # t"])
qed

lemma reads1_0: "reads1 s c \<Longrightarrow> reads0 s c"
  unfolding reads0_def
proof (intro allI impI)
  fix t assume r: "reads1 s c" and t: "stop [41] t"
  obtain pc0 pc u where pc: "gives (\<lambda>n. parsepipe n (s @ t)) pc0 u" "parsebacks pc0 u = parsebacks pc t" "rel_cmd (is_word (s @ t)) pc c"
    using r [unfolded reads1_def, rule_format, of t] stop_mono [OF t, of "[41, 38, 59]"] by auto
  have "parsebacks pc t = (pc, skip t)" using peek_stop [OF t, of "[38]"] by (simp add: parsebacks.simps [of pc t])
  then have "gives (\<lambda>n. parseline (Suc n) (s @ t)) pc (skip t)" unfolding parseline.simps
    by (intro gives_pbind [OF pc(1)]) (use peek_stop [OF t, of "[59]"] pc(2) gives_ret in simp)
  then show "\<exists>pc. gives (\<lambda>n. parseline n (s @ t)) pc (skip t) \<and> rel_cmd (is_word (s @ t)) pc c"
    using pc(3) gives_Suc [of "\<lambda>n. parseline n (s @ t)" pc "skip t"] by blast
qed

lemma reads0_list: "reads1 s a \<Longrightarrow> reads0 u b \<Longrightarrow> reads0 (s @ [59] @ u) (LIST a b)"
  unfolding reads0_def
proof (intro allI impI)
  fix t assume a: "reads1 s a" and b: "\<forall>t. stop [41] t \<longrightarrow>
     (\<exists>pc. gives (\<lambda>n. parseline n (u @ t)) pc (skip t) \<and> rel_cmd (is_word (u @ t)) pc b)" and t: "stop [41] t"
  obtain pb where pb: "gives (\<lambda>n. parseline n (u @ t)) pb (skip t)" "rel_cmd (is_word (u @ t)) pb b" using b t by blast
  obtain pa0 pa v where pa: "gives (\<lambda>n. parsepipe n (s @ 59 # u @ t)) pa0 v" "parsebacks pa0 v = parsebacks pa (59 # u @ t)"
    "rel_cmd (is_word (s @ 59 # u @ t)) pa a" using a [unfolded reads1_def, rule_format, of "59 # u @ t"] by auto
  have "parsebacks pa (59 # u @ t) = (pa, 59 # u @ t)" by (simp add: parsebacks.simps [of pa "59 # u @ t"])
  then have "gives (\<lambda>n. parseline (Suc n) (s @ 59 # u @ t)) (LIST pa pb) (skip t)" unfolding parseline.simps
    by (intro gives_pbind [OF pa(1)], simp add: pa(2)) (rule gives_pbind [OF pb(1)], rule gives_ret)
  then show "\<exists>pc. gives (\<lambda>n. parseline n ((s @ [59] @ u) @ t)) pc (skip t) \<and> rel_cmd (is_word ((s @ [59] @ u) @ t)) pc (LIST a b)"
    using pa(3) rel_word_app [OF rel_word_Cons [OF pb(2)]] by (intro exI [of _ "LIST pa pb"]) (simp add: gives_Suc)
qed

lemma reads3_paren: "reads0 s c \<Longrightarrow> reads3 (paren True s) c"
  unfolding reads3_def
proof (intro allI impI)
  fix rs t assume r: "reads0 s c" and rs: "\<forall>r\<in>set rs. legal_redir r" and t: "stop [124, 41, 38, 59] t"
  let ?v = "redirs_text rs @ t"
  obtain pc where pc: "gives (\<lambda>n. parseline n (s @ 41 # ?v)) pc (41 # ?v)" "rel_cmd (is_word (s @ 41 # ?v)) pc c"
    using r [unfolded reads0_def, rule_format, of "41 # ?v"] by auto
  obtain ps where ps: "parseredirs [] ?v = Inr (ps, skip t)" "list_all2 (redir_rel ?v) ps rs"
    using parseredirs_text [OF rs stop_peek [OF t], of "[]"] by auto
  have "gives (\<lambda>n. parseblock (Suc n) (40 # s @ 41 # ?v)) (redirs pc ps) (skip t)" unfolding parseblock.simps
    by simp (rule gives_pbind [OF pc(1)], use ps(1) gives_ret in simp)
  then have "gives (\<lambda>n. parseblock n (40 # s @ 41 # ?v)) (redirs pc ps) (skip t)" by (rule gives_Suc)
  then have "gives (\<lambda>n. parseexec (Suc n) (40 # s @ 41 # ?v)) (redirs pc ps) (skip t)" by simp
  then have "gives (\<lambda>n. parseexec n (40 # s @ 41 # ?v)) (redirs pc ps) (skip t)" by (rule gives_Suc)
  moreover have "list_all2 (redir_rel (40 # s @ 41 # ?v)) ps rs"
    by (rule list.rel_mono_strong [OF ps(2)]) (auto simp: rel_prod_sel intro: is_word_app is_word_Cons)
  ultimately show "\<exists>pc. gives (\<lambda>n. parseexec n (paren True s @ ?v)) pc (skip t) \<and> rel_cmd (is_word (paren True s @ ?v)) pc (redirs c rs)"
    using rel_redirs [OF rel_word_Cons [OF pc(2)]] by (intro exI [of _ "redirs pc ps"]) (simp add: paren_def)
qed

lemma reads3_exec: "wf_cmd (EXEC ws) \<Longrightarrow> reads3 (words_text ws) (EXEC ws)"
  unfolding reads3_def
proof (intro allI impI)
  fix rs t assume a: "wf_cmd (EXEC ws)" "\<forall>r\<in>set rs. legal_redir r" "stop [124, 41, 38, 59] t"
  obtain pc where pc: "\<And>n. parseexec (Suc n) (words_text ws @ redirs_text rs @ t) = Some (Inr (pc, skip t))"
    "rel_cmd (is_word (words_text ws @ redirs_text rs @ t)) pc (redirs (EXEC ws) rs)"
    using parseexec_text [OF a(2,3,1)] by blast
  have "gives (\<lambda>n. parseexec n (words_text ws @ redirs_text rs @ t)) pc (skip t)"
    by (rule gives_Suc, subst pc(1)) (rule gives_ret)
  then show "\<exists>pc. gives (\<lambda>n. parseexec n (words_text ws @ redirs_text rs @ t)) pc (skip t)
        \<and> rel_cmd (is_word (words_text ws @ redirs_text rs @ t)) pc (redirs (EXEC ws) rs)" using pc(2) by blast
qed

lemma reads3_redir:
  assumes "reads3 s c" "legal_redir (w, mode, fd)"
  shows "reads3 (s @ redir_text (w, mode, fd)) (REDIR c w mode fd)"
  unfolding reads3_def
proof (intro allI impI)
  fix rs t assume a: "\<forall>r\<in>set rs. legal_redir r" "stop [124, 41, 38, 59] t"
  show "\<exists>pc. gives (\<lambda>n. parseexec n ((s @ redir_text (w, mode, fd)) @ redirs_text rs @ t)) pc (skip t)
        \<and> rel_cmd (is_word ((s @ redir_text (w, mode, fd)) @ redirs_text rs @ t)) pc (redirs (REDIR c w mode fd) rs)"
    using assms(1) [unfolded reads3_def, rule_format, of "(w, mode, fd) # rs" t] assms(2) a by (auto simp: redirs_def)
qed

lemma paren_False: "paren False s = s"
  by (simp add: paren_def)

lemma reads_text:
  "wf_cmd c \<Longrightarrow> reads0 (cmd_text 0 c) c \<and> reads1 (cmd_text 1 c) c \<and> reads2 (cmd_text 2 c) c \<and> reads3 (cmd_text 3 c) c"
proof (induction c)
  case (EXEC ws)
  then show ?case using reads3_exec reads3_2 reads2_1 reads1_0 by simp
next
  case (REDIR c w mode fd)
  then show ?case using reads3_redir reads3_2 reads2_1 reads1_0 by simp
next
  case (PIPE a b)
  then have "reads2 (cmd_text 3 a @ [124] @ cmd_text 2 b) (PIPE a b)" using reads2_pipe [of "cmd_text 3 a" a "cmd_text 2 b" b] by simp
  then show ?case using reads2_1 reads1_0 reads3_paren by (simp add: paren_False)
next
  case (LIST a b)
  then have "reads0 (cmd_text 1 a @ [59] @ cmd_text 0 b) (LIST a b)" using reads0_list [of "cmd_text 1 a" a "cmd_text 0 b" b] by simp
  then show ?case using reads3_paren reads3_2 reads2_1 by (simp add: paren_False)
next
  case (BACK a)
  then have "reads1 (cmd_text 1 a @ [38]) (BACK a)" using reads1_back [of "cmd_text 1 a" a] by simp
  then show ?case using reads1_0 reads3_paren reads3_2 by (simp add: paren_False)
qed

section \<open>Round trip\<close>

lemma parse_mono_le: "parseline n s = Some r \<Longrightarrow> n \<le> m \<Longrightarrow> parseline m s = Some r"
  by (rule dec_induct [of n m "\<lambda>m. parseline m s = Some r"]) (use parse_mono in blast)+

lemma gives_parsecmd:
  assumes "gives (\<lambda>n. parseline n s) pc []"
  shows "parsecmd s = Some (Inr pc)"
proof -
  let ?n = "4 * length s + 4"
  obtain k where k: "\<forall>n\<ge>k. parseline n s = Some (Inr (pc, []))" using assms by (auto simp: gives_def)
  have "done_in (length s) (parseline ?n s)" using parse_done [of ?n] by simp
  then obtain r where r: "parseline ?n s = Some r" by (auto simp: done_in_def split: option.splits)
  then have "r = Inr (pc, [])" using parse_mono_le [OF r, of "max k ?n"] k by simp
  then show ?thesis using r by (simp add: parsecmd_def peek_def)
qed

lemma parsecmd_text:
  "wf_cmd c \<Longrightarrow> skip t = [] \<Longrightarrow>
   \<exists>pc. parsecmd (cmd_text 0 c @ t) = Some (Inr pc) \<and> rel_cmd (is_word (cmd_text 0 c @ t)) pc c"
  using reads_text [of c, THEN conjunct1, unfolded reads0_def, rule_format, of t] gives_parsecmd by (auto simp: stop_def)

text \<open>The bytes of a NUL-terminated string at a position.\<close>

definition string_at :: "bytes \<Rightarrow> nat \<Rightarrow> u8 list \<Rightarrow> bool" where
  "string_at b i w \<longleftrightarrow> (\<forall>j<length w. b (i + j) = w ! j \<and> w ! j \<noteq> 0) \<and> b (i + length w) = 0"

lemma nulterminate_args:
  "foldl (\<lambda>b (q, eq). b(n - eq := 0)) b ps i = (if i \<in> (\<lambda>p. n - snd p) ` set ps then 0 else b i)"
  by (induction ps arbitrary: b) auto

lemma nulterminate_eq: "nulterminate n pc b i = (if i \<in> (\<lambda>p. n - snd p) ` set_cmd pc then 0 else b i)"
proof (induction pc arbitrary: b)
  case (EXEC ps)
  then show ?case by (simp add: nulterminate_args)
next
  case (REDIR pc p mode fd)
  then show ?case by (cases p) auto
qed auto

text \<open>The end of a word is not inside a word.\<close>

lemma word_end_outside:
  assumes "is_word s p w" "is_word s p' w'" "j < length w"
  shows "length s - fst p + j \<noteq> length s - snd p'"
proof
  assume e: "length s - fst p + j = length s - snd p'"
  obtain pre post where 1: "s = pre @ w @ post" "p = (length w + length post, length post)" "\<forall>c\<in>set w. word_char c"
    using assms(1) by (auto simp: is_word_def)
  obtain pre' post' where 2: "s = pre' @ w' @ post'" "p' = (length w' + length post', length post')"
    "post' \<noteq> [] \<longrightarrow> \<not> word_char (hd post')" using assms(2) by (auto simp: is_word_def)
  have i: "length pre + j = length pre' + length w'" using e 1(1,2) 2(1,2) by (metis add_diff_cancel_right' append.assoc fst_conv length_append snd_conv add.assoc)
  have "s ! (length pre + j) = w ! j" using assms(3) 1(1) by (simp add: nth_append)
  moreover have "length pre + j < length s" using assms(3) 1(1) by simp
  then have "post' \<noteq> []" using i 2(1) by auto
  then have "s ! (length pre + j) = hd post'" using i 2(1) by (simp add: nth_append hd_conv_nth)
  ultimately show False using 1(3) 2(3) \<open>post' \<noteq> []\<close> assms(3) nth_mem by metis
qed

lemma rel_cmd_set: "rel_cmd R pc c \<Longrightarrow> p \<in> set_cmd pc \<Longrightarrow> \<exists>w. R p w"
  by (fastforce simp: cmd.in_rel cmd.set_map)

lemma nulterminate_string:
  assumes "0 \<notin> set s" "\<forall>j<length s. b j = s ! j" "rel_cmd (is_word s) pc c"
  shows "rel_cmd (\<lambda>p w. string_at (nulterminate (length s) pc b) (length s - fst p) w \<and> length s - fst p + length w \<le> length s) pc c"
proof (rule cmd.rel_mono_strong [OF assms(3)])
  fix p w assume p: "p \<in> set_cmd pc" "w \<in> set_cmd c" "is_word s p w"
  obtain pre post where w: "s = pre @ w @ post" "p = (length w + length post, length post)"
    using p(3) by (auto simp: is_word_def)
  have i: "length s - fst p = length pre" "length s - snd p = length pre + length w" by (simp_all add: w)
  have out: "length pre + j \<noteq> length s - snd p'" if j: "j < length w" and q: "p' \<in> set_cmd pc" for j p'
  proof -
    obtain w' where "is_word s p' w'" using rel_cmd_set [OF assms(3) q] by blast
    then show ?thesis using word_end_outside [OF p(3) _ j] i(1) by metis
  qed
  have "b (length pre + j) = w ! j \<and> w ! j \<noteq> 0" if "j < length w" for j
  proof -
    have "s ! (length pre + j) = w ! j" "length pre + j < length s" using that w(1) by (simp_all add: nth_append)
    then show ?thesis using assms(1,2) nth_mem by metis
  qed
  then show "string_at (nulterminate (length s) pc b) (length s - fst p) w \<and> length s - fst p + length w \<le> length s"
    using out p(1) w(1) unfolding string_at_def i(1) by (auto simp: nulterminate_eq simp flip: i(2))
qed

section \<open>Every line\<close>

text \<open>A parsed command over the words of the line \<open>s\<close> that the shell could have been asked for.\<close>

definition words_ok :: "u8 list \<Rightarrow> word_ptr cmd \<Rightarrow> bool" where
  "words_ok s pc \<longleftrightarrow> (\<exists>c. wf_cmd c \<and> rel_cmd (is_word s) pc c)"

lemma words_ok_simps:
  "words_ok s a \<Longrightarrow> words_ok s b \<Longrightarrow> words_ok s (PIPE a b)" "words_ok s a \<Longrightarrow> words_ok s b \<Longrightarrow> words_ok s (LIST a b)"
  "words_ok s a \<Longrightarrow> words_ok s (BACK a)"
  unfolding words_ok_def by (meson cmd.rel_intros wf_cmd.simps)+

lemma is_word_suffix: "suffix t s \<Longrightarrow> is_word t p w \<Longrightarrow> is_word s p w"
  by (auto simp: suffix_def intro: is_word_app)

lemma words_ok_suffix: "suffix t s \<Longrightarrow> words_ok t pc \<Longrightarrow> words_ok s pc"
  by (auto simp: suffix_def words_ok_def intro: rel_word_app)

lemma suffix_no_0: "suffix t s \<Longrightarrow> 0 \<notin> set s \<Longrightarrow> 0 \<notin> set (t :: u8 list)"
  by (auto simp: suffix_def)

lemma suffix_skip: "suffix (skip s) s"
  by (simp add: skip_def suffix_dropWhile)

lemma peek_suffix: "peek s toks = (t, b) \<Longrightarrow> suffix t s"
  using suffix_skip by (auto simp: peek_def Let_def)

lemma suffix_skips: "suffix u (skip s) \<Longrightarrow> suffix (skip u) s"
  by (meson suffix_order.trans suffix_skip)

lemma gettoken_suffix:
  assumes "gettoken s = (r, p, t)"
  shows "suffix t s"
proof -
  have "suffix (tl (skip s)) (skip s)" "suffix (tl (tl (skip s))) (skip s)" "suffix (dropWhile word_char (skip s)) (skip s)"
    by (meson suffix_tl suffix_order.trans suffix_dropWhile)+
  then show ?thesis using assms suffix_skips [of "skip s" s]
    by (auto simp: gettoken_def Let_def intro: suffix_skips suffix_skip split: if_splits)
qed

lemma gettoken_is_word:
  assumes "gettoken s = (97, p, t)" "0 \<notin> set s"
  shows "\<exists>w. legal w \<and> is_word s p w"
proof -
  let ?s = "skip s" and ?w = "takeWhile word_char (skip s)" and ?post = "dropWhile word_char (skip s)"
  have c: "cur ?s \<notin> {0, 124, 40, 41, 59, 38, 60, 62}" and p: "p = (length ?s, length ?post)"
    using assms(1) by (auto simp: gettoken_def Let_def split: if_splits)
  then obtain c u where s: "?s = c # u" by (cases ?s) (auto simp: cur_def)
  have "c \<notin> set whitespace" using s hd_dropWhile [of "\<lambda>c. c \<in> set whitespace" s] by (simp add: skip_def)
  then have "word_char c" using c s by (auto simp: word_char_def symbols_def cur_def)
  then have n: "?w \<noteq> []" by (simp add: s)
  have "length ?s = length ?w + length ?post" by (metis length_append takeWhile_dropWhile_id)
  then have "is_word ?s p ?w" unfolding is_word_def p
    using n hd_dropWhile [of word_char ?s] by (intro conjI exI [of _ "[]"] exI [of _ ?post]) (auto dest: set_takeWhileD)
  moreover have "0 \<notin> set ?s" by (rule suffix_no_0 [OF suffix_skip assms(2)])
  then have "legal ?w" using n by (auto simp: legal_def dest: set_takeWhileD)
  ultimately show ?thesis using is_word_suffix [OF suffix_skip] by blast
qed

lemma redir_sound:
  assumes "redir s = Inr (r, t)" "0 \<notin> set s"
  shows "suffix t s \<and> (\<forall>x. r = Some x \<longrightarrow> (\<exists>y. legal_redir y \<and> redir_rel s x y))"
proof -
  obtain u p where p: "peek s [60, 62] = (u, p)" by fastforce
  obtain tok w1 s1 where g1: "gettoken u = (tok, w1, s1)" by (metis prod_cases3)
  obtain tok' w s2 where g2: "gettoken s1 = (tok', w, s2)" by (metis prod_cases3)
  have f: "suffix u s" "suffix s1 s" "suffix s2 s"
    using peek_suffix [OF p] gettoken_suffix [OF g1] gettoken_suffix [OF g2] by (meson suffix_order.trans)+
  have "\<exists>v. legal v \<and> is_word s w v" if "tok' = 97"
    using gettoken_is_word [of s1 w s2] g2 that suffix_no_0 [OF f(2) assms(2)] is_word_suffix [OF f(2)] by blast
  then show ?thesis using assms(1) f by (fastforce simp: redir_def p g1 g2 legal_redir_def split: if_splits)
qed

lemma parseredirs_sound:
  "parseredirs acc s = Inr (acc', t) \<Longrightarrow> 0 \<notin> set s \<Longrightarrow>
   suffix t s \<and> (\<exists>ps rs. acc' = acc @ ps \<and> list_all2 (redir_rel s) ps rs \<and> (\<forall>r\<in>set rs. legal_redir r))"
proof (induction "length s" arbitrary: acc s rule: less_induct)
  case less
  obtain r u where r: "redir s = Inr (r, u)"
    using less.prems by (cases "redir s") (auto simp: parseredirs.simps [of acc s])
  note u = redir_sound [OF r less.prems(2)]
  show ?case
  proof (cases r)
    case None
    then show ?thesis using less.prems r u by (simp add: parseredirs.simps [of acc s])
  next
    case (Some x)
    then have n: "parseredirs (acc @ [x]) u = Inr (acc', t)" "length u < length s"
      using less.prems r redir_le(2) [OF r] by (simp_all add: parseredirs.simps [of acc s])
    obtain y where y: "legal_redir y" "redir_rel s x y" using u Some by blast
    obtain ps rs where ps: "acc' = (acc @ [x]) @ ps" "list_all2 (redir_rel u) ps rs" "\<forall>r\<in>set rs. legal_redir r" and t: "suffix t u"
      using less.hyps [OF n(2,1)] suffix_no_0 [OF conjunct1 [OF u] less.prems(2)] by blast
    have "list_all2 (redir_rel s) ps rs"
      by (rule list.rel_mono_strong [OF ps(2)]) (use u in \<open>auto simp: rel_prod_sel intro: is_word_suffix\<close>)
    then show ?thesis using t u y ps suffix_order.trans
      by (intro conjI exI [of _ "x # ps"] exI [of _ "y # rs"]) auto
  qed
qed

lemma arg_sound:
  assumes "arg s = Inr (r, t)" "0 \<notin> set s"
  shows "suffix t s \<and> (\<forall>p. r = Some p \<longrightarrow> (\<exists>w. legal w \<and> is_word s p w))"
proof -
  obtain u p where p: "peek s [124, 41, 38, 59] = (u, p)" by fastforce
  obtain tok w v where g: "gettoken u = (tok, w, v)" by (metis prod_cases3)
  have f: "suffix u s" "suffix v s" using peek_suffix [OF p] gettoken_suffix [OF g] by (meson suffix_order.trans)+
  have "\<exists>x. legal x \<and> is_word s w x" if "tok = 97"
    using gettoken_is_word [of u w v] g that suffix_no_0 [OF f(1) assms(2)] is_word_suffix [OF f(1)] by blast
  then show ?thesis using assms(1) f by (auto simp: arg_def p g split: if_splits)
qed

lemma parseargs_sound:
  "parseargs acc racc s = Inr ((acc', racc'), t) \<Longrightarrow> 0 \<notin> set s \<Longrightarrow> length acc < MAXARGS \<Longrightarrow>
   suffix t s \<and> (\<exists>as ws ps rs. acc' = acc @ as \<and> length acc' < MAXARGS \<and> racc' = racc @ ps
     \<and> list_all2 (is_word s) as ws \<and> (\<forall>w\<in>set ws. legal w)
     \<and> list_all2 (redir_rel s) ps rs \<and> (\<forall>r\<in>set rs. legal_redir r))"
proof (induction "length s" arbitrary: acc racc s rule: less_induct)
  case less
  obtain r u where r: "arg s = Inr (r, u)"
    using less.prems(1) by (cases "arg s") (auto simp: parseargs.simps [of acc racc s])
  note u = arg_sound [OF r less.prems(2)]
  show ?case
  proof (cases r)
    case None
    then show ?thesis using less.prems r u by (auto simp: parseargs.simps [of acc racc s])
  next
    case (Some p)
    then obtain racc1 v where v: "length acc + 1 < MAXARGS" "parseredirs racc u = Inr (racc1, v)"
      "parseargs (acc @ [p]) racc1 v = Inr ((acc', racc'), t)"
      using less.prems(1) r by (auto simp: parseargs.simps [of acc racc s] not_le split: if_splits sum.splits)
    obtain w where w: "legal w" "is_word s p w" using u Some by blast
    have nu: "0 \<notin> set u" by (rule suffix_no_0 [OF conjunct1 [OF u] less.prems(2)])
    obtain ps rs where ps: "racc1 = racc @ ps" "list_all2 (redir_rel u) ps rs" "\<forall>r\<in>set rs. legal_redir r" and vu: "suffix v u"
      using parseredirs_sound [OF v(2) nu] by blast
    have "length v < length s" using arg_le(2) [OF r] parseredirs_le [OF v(2)] Some by simp
    then obtain as ws ps' rs' where as: "acc' = (acc @ [p]) @ as" "length acc' < MAXARGS" "racc' = racc1 @ ps'"
      "list_all2 (is_word v) as ws" "\<forall>w\<in>set ws. legal w" "list_all2 (redir_rel v) ps' rs'" "\<forall>r\<in>set rs'. legal_redir r"
      and tv: "suffix t v"
      using less.hyps [OF _ v(3) suffix_no_0 [OF vu nu]] v(1) by auto
    have us: "suffix u s" and vs: "suffix v s" using u vu suffix_order.trans by blast+
    have "list_all2 (redir_rel s) ps rs" "list_all2 (redir_rel s) ps' rs'"
      by (rule list.rel_mono_strong [OF ps(2)] list.rel_mono_strong [OF as(6)],
          use us vs in \<open>auto simp: rel_prod_sel intro: is_word_suffix\<close>)+
    then have "list_all2 (redir_rel s) (ps @ ps') (rs @ rs')" by (rule list_all2_appendI)
    moreover have "list_all2 (is_word s) (p # as) (w # ws)"
      using w(2) list.rel_mono_strong [OF as(4)] is_word_suffix [OF vs] by simp
    moreover have "suffix t s" using tv vs suffix_order.trans by blast
    ultimately show ?thesis using as(1-3,5,7) ps(1,3) w(1)
      by (intro conjI exI [of _ "p # as"] exI [of _ "w # ws"] exI [of _ "ps @ ps'"] exI [of _ "rs @ rs'"]) auto
  qed
qed

lemma parsebacks_sound: "parsebacks pc s = (pc', t) \<Longrightarrow> words_ok z pc \<Longrightarrow> suffix t s \<and> words_ok z pc'"
proof (induction "length s" arbitrary: pc s rule: less_induct)
  case less
  obtain u p where p: "peek s [38] = (u, p)" by fastforce
  obtain r w v where g: "gettoken u = (r, w, v)" by (metis prod_cases3)
  show ?case
  proof (cases p)
    case False
    then show ?thesis using less.prems p peek_suffix [OF p] by (simp add: parsebacks.simps [of pc s])
  next
    case True
    then have "length v < length s" "parsebacks (BACK pc) v = (pc', t)"
      using less.prems p g peek_token [of u s "[38]" r w v] by (simp_all add: parsebacks.simps [of pc s])
    then show ?thesis using less.hyps [of v "BACK pc"] less.prems(2) words_ok_simps(3) peek_suffix [OF p] gettoken_suffix [OF g]
      by (meson suffix_order.trans)
  qed
qed

lemma wf_redirs: "wf_cmd c \<Longrightarrow> \<forall>r\<in>set rs. legal_redir r \<Longrightarrow> wf_cmd (redirs c rs)"
  unfolding redirs_def by (induction rs arbitrary: c) auto

lemma words_ok_redirs:
  "words_ok s pc \<Longrightarrow> list_all2 (redir_rel s) ps rs \<Longrightarrow> \<forall>r\<in>set rs. legal_redir r \<Longrightarrow> words_ok s (redirs pc ps)"
  unfolding words_ok_def using rel_redirs wf_redirs by blast

definition sound :: "u8 list \<Rightarrow> word_ptr cmd presult option \<Rightarrow> bool" where
  "sound s m \<longleftrightarrow> (\<forall>pc t. m = Some (Inr (pc, t)) \<longrightarrow> suffix t s \<and> words_ok s pc)"

lemma sound_simps [simp]:
  "sound s None" "sound s (Some (Inl e))" "sound s (Some (Inr (pc, t))) \<longleftrightarrow> suffix t s \<and> words_ok s pc"
  by (auto simp: sound_def)

lemma sound_suffix: "suffix t s \<Longrightarrow> sound t m \<Longrightarrow> sound s m"
  unfolding sound_def using suffix_order.trans words_ok_suffix by blast

lemma sound_pbind:
  assumes "sound t m" "suffix t s" "\<And>pc u. suffix u s \<Longrightarrow> words_ok s pc \<Longrightarrow> sound s (f pc u)"
  shows "sound s (pbind m f)"
proof (cases m)
  case (Some r)
  then show ?thesis using assms sound_suffix [OF assms(2,1)] by (cases r) auto
qed simp

lemma token_suffix:
  obtains u p r w v where "peek s toks = (u, p)" "gettoken u = (r, w, v)" "suffix u s" "suffix v s"
proof -
  obtain u p where p: "peek s toks = (u, p)" by fastforce
  obtain r w v where g: "gettoken u = (r, w, v)" by (metis prod_cases3)
  show ?thesis using that [OF p g peek_suffix [OF p]] peek_suffix [OF p] gettoken_suffix [OF g] suffix_order.trans by blast
qed

lemma parseexec_sound:
  assumes "0 \<notin> set u" "suffix u s"
  shows "sound s (case parseredirs [] u of Inl e \<Rightarrow> Some (Inl e)
     | Inr (rs, t) \<Rightarrow> (case parseargs [] rs t of Inl e \<Rightarrow> Some (Inl e)
        | Inr ((args, rs), t) \<Rightarrow> Some (Inr (redirs (EXEC args) rs, t))))"
proof (rule sound_suffix [OF assms(2)], simp split: sum.split prod.split, intro allI impI)
  fix ps v as ps' t assume p: "parseredirs [] u = Inr (ps, v)" and a: "parseargs [] ps v = Inr ((as, ps'), t)"
  obtain rs where rs: "list_all2 (redir_rel u) ps rs" "\<forall>r\<in>set rs. legal_redir r" and v: "suffix v u"
    using parseredirs_sound [OF p assms(1)] by auto
  obtain ws qs rs' where ws: "length as < MAXARGS" "ps' = ps @ qs" "list_all2 (is_word v) as ws" "\<forall>w\<in>set ws. legal w"
    "list_all2 (redir_rel v) qs rs'" "\<forall>r\<in>set rs'. legal_redir r" and t: "suffix t v"
    using parseargs_sound [OF a suffix_no_0 [OF v assms(1)]] by auto
  have "words_ok u (EXEC as)" unfolding words_ok_def
    using ws(1,4) list.rel_mono_strong [OF ws(3)] is_word_suffix [OF v] list_all2_lengthD [OF ws(3)]
    by (intro exI [of _ "EXEC ws"]) simp
  moreover have "list_all2 (redir_rel u) qs rs'"
    by (rule list.rel_mono_strong [OF ws(5)]) (use v in \<open>auto simp: rel_prod_sel intro: is_word_suffix\<close>)
  then have "list_all2 (redir_rel u) ps' (rs @ rs')" using rs(1) ws(2) by (simp add: list_all2_appendI)
  ultimately show "suffix t u \<and> words_ok u (redirs (EXEC as) ps')"
    using words_ok_redirs [of u "EXEC as" ps' "rs @ rs'"] rs(2) ws(6) suffix_order.trans [OF t v] by auto
qed

lemma block_redirs_sound:
  assumes "words_ok s pc" "suffix v s" "0 \<notin> set s"
  shows "sound s (case parseredirs [] v of Inl e \<Rightarrow> Some (Inl e) | Inr (rs, s) \<Rightarrow> Some (Inr (redirs pc rs, s)))"
proof (simp split: sum.split prod.split, intro allI impI)
  fix ps t assume p: "parseredirs [] v = Inr (ps, t)"
  obtain rs where rs: "list_all2 (redir_rel v) ps rs" "\<forall>r\<in>set rs. legal_redir r" and t: "suffix t v"
    using parseredirs_sound [OF p suffix_no_0 [OF assms(2,3)]] by auto
  have "list_all2 (redir_rel s) ps rs"
    by (rule list.rel_mono_strong [OF rs(1)]) (use assms(2) in \<open>auto simp: rel_prod_sel intro: is_word_suffix\<close>)
  then show "suffix t s \<and> words_ok s (redirs pc ps)"
    using words_ok_redirs [OF assms(1) _ rs(2)] t assms(2) suffix_order.trans by blast
qed

lemma parse_sound:
  "(\<forall>s. 0 \<notin> set s \<longrightarrow> sound s (parseline n s)) \<and> (\<forall>s. 0 \<notin> set s \<longrightarrow> sound s (parsepipe n s))
   \<and> (\<forall>s. 0 \<notin> set s \<longrightarrow> sound s (parseexec n s)) \<and> (\<forall>s. 0 \<notin> set s \<longrightarrow> sound s (parseblock n s))"
proof (induction n)
  case (Suc n)
  have L: "sound t (parseline n t)" and P: "sound t (parsepipe n t)" and B: "sound s (parseblock n t)"
    if "suffix t s" "0 \<notin> set s" for t s
    using Suc suffix_no_0 [OF that] sound_suffix [OF that(1)] by simp_all
  have E: "sound s (parseexec n s)" if "0 \<notin> set s" for s using Suc that by simp
  have "sound s (parseline (Suc n) s)" if z: "0 \<notin> set s" for s
    unfolding parseline.simps
  proof (rule sound_pbind [OF P [OF _ z]])
    fix pc t assume t: "suffix t s" "words_ok s pc"
    obtain pc' t' where b: "parsebacks pc t = (pc', t')" by fastforce
    obtain u p r w v where k: "peek t' [59] = (u, p)" "gettoken u = (r, w, v)" "suffix u t'" "suffix v t'"
      using token_suffix [of t' "[59]"] by metis
    have s: "words_ok s pc'" "suffix u s" "suffix v s" using parsebacks_sound [OF b t(2)] t(1) k(3,4) by (auto intro: suffix_order.trans)
    have "sound s (pbind (parseline n v) (\<lambda>right s. Some (Inr (LIST pc' right, s))))"
      by (rule sound_pbind [OF L [OF s(3) z] s(3)]) (simp add: words_ok_simps s)
    then show "sound s (let (cmd, s) = parsebacks pc t; (s, p) = peek s [59] in
        if p then let (_, _, s) = gettoken s in pbind (parseline n s) (\<lambda>right s. Some (Inr (LIST cmd right, s)))
        else Some (Inr (cmd, s)))" using s by (simp add: b k(1,2))
  qed simp_all
  moreover have "sound s (parsepipe (Suc n) s)" if z: "0 \<notin> set s" for s
    unfolding parsepipe.simps
  proof (rule sound_pbind [OF E [OF z]])
    fix pc t assume t: "suffix t s" "words_ok s pc"
    obtain u p r w v where k: "peek t [124] = (u, p)" "gettoken u = (r, w, v)" "suffix u t" "suffix v t"
      using token_suffix [of t "[124]"] by metis
    have s: "suffix u s" "suffix v s" using t(1) k(3,4) by (auto intro: suffix_order.trans)
    have "sound s (pbind (parsepipe n v) (\<lambda>right s. Some (Inr (PIPE pc right, s))))"
      by (rule sound_pbind [OF P [OF s(2) z] s(2)]) (simp add: words_ok_simps t)
    then show "sound s (let (s, p) = peek t [124] in
        if p then let (_, _, s) = gettoken s in pbind (parsepipe n s) (\<lambda>right s. Some (Inr (PIPE pc right, s)))
        else Some (Inr (pc, s)))" using s t by (simp add: k(1,2))
  qed simp
  moreover have "sound s (parseexec (Suc n) s)" if z: "0 \<notin> set s" for s
  proof -
    obtain u p where k: "peek s [40] = (u, p)" "suffix u s" using token_suffix [of s "[40]"] by metis
    then show ?thesis using B [OF k(2) z] parseexec_sound [OF suffix_no_0 [OF k(2) z] k(2)] by simp
  qed
  moreover have "sound s (parseblock (Suc n) s)" if z: "0 \<notin> set s" for s
  proof -
    obtain u p r w v where k: "peek s [40] = (u, p)" "gettoken u = (r, w, v)" "suffix v s"
      using token_suffix [of s "[40]"] by metis
    have "sound s (pbind (parseline n v) (\<lambda>cmd s. let (s, p) = peek s [41] in
      if \<not> p then Some (Inl ''syntax - missing )'') else let (_, _, s) = gettoken s in
      case parseredirs [] s of Inl e \<Rightarrow> Some (Inl e) | Inr (rs, s) \<Rightarrow> Some (Inr (redirs cmd rs, s))))"
    proof (rule sound_pbind [OF L [OF k(3) z] k(3)])
      fix pc t assume t: "suffix t s" "words_ok s pc"
      obtain u' p' r' w' v' where k': "peek t [41] = (u', p')" "gettoken u' = (r', w', v')" "suffix v' t"
        using token_suffix [of t "[41]"] by metis
      have v': "suffix v' s" using t(1) k'(3) suffix_order.trans by blast
      have "sound s (case parseredirs [] v' of Inl e \<Rightarrow> Some (Inl e) | Inr (rs, s) \<Rightarrow> Some (Inr (redirs pc rs, s)))"
        by (rule block_redirs_sound [OF t(2) v' z])
      then show "sound s (let (s, p) = peek t [41] in
        if \<not> p then Some (Inl ''syntax - missing )'') else let (_, _, s) = gettoken s in
        case parseredirs [] s of Inl e \<Rightarrow> Some (Inl e) | Inr (rs, s) \<Rightarrow> Some (Inr (redirs pc rs, s)))"
        by (simp add: k'(1,2))
    qed
    then show ?thesis by (simp add: k(1,2))
  qed
  ultimately show ?case by blast
qed simp

lemma parsecmd_words_ok:
  assumes "0 \<notin> set s" "parsecmd s = Some (Inr pc)"
  shows "words_ok s pc"
proof -
  have "sound s (parseline (4 * length s + 4) s)" using parse_sound assms(1) by blast
  then show ?thesis using assms(2) by (auto simp: parsecmd_def Let_def split: option.splits sum.splits prod.splits if_splits)
qed

end
