(* ===== verification/Shell.thy ===== *)
theory Shell
  imports Sh
begin

text \<open>
  The rest of \<^verbatim>\<open>sh.c\<close>: what a parsed command does (\<open>runcmd\<close>) and the loop over the input (\<open>main\<close>), with
  \<open>gets\<close> of \<^verbatim>\<open>ulib.c\<close>.

  A program is the tree of the system calls it makes, each with what happens for its possible results.
  \<open>run\<close> is the meaning of such a tree for a process with a table of open files, when \<open>exec\<close>, \<open>fork\<close> and the
  file system do not fail: descriptors are given out lowest first, a child has a copy of its parent's table.
  The theorems say which commands are executed, with which files open as descriptors.
\<close>

section \<open>Programs\<close>

datatype script =
    Exit
  | Exec "u8 list list" script
  | Print string "u8 list list" script
  | Close int script
  | Open "u8 list" u32 "int \<Rightarrow> script"
  | Dup int script
  | Pipe "(int \<times> int) option \<Rightarrow> script"
  | Fork "int \<Rightarrow> script"
  | Wait script
  | Chdir "u8 list" "int \<Rightarrow> script"

definition sh_panic :: "string \<Rightarrow> script" where
  "sh_panic s = Print (s @ [CHR 0x0A]) [] Exit"

definition fork1 :: "(int \<Rightarrow> script) \<Rightarrow> script" where
  "fork1 k = Fork (\<lambda>pid. if pid = -1 then sh_panic ''fork'' else k pid)"

text \<open>The call never returns, so what follows \<open>runcmd\<close> in a child is dead code.\<close>

fun runcmd :: "u8 list cmd \<Rightarrow> script" where
  "runcmd (EXEC argv) =
     (case argv of
        [] \<Rightarrow> Exit
      | a # _ \<Rightarrow> Exec argv (Print (''exec %s failed'' @ [CHR 0x0A]) [a] Exit))"
| "runcmd (REDIR cmd file mode fd) =
     Close (int fd) (Open file mode (\<lambda>r.
     if r < 0 then Print (''open %s failed'' @ [CHR 0x0A]) [file] Exit
     else runcmd cmd))"
| "runcmd (LIST left right) =
     fork1 (\<lambda>pid. if pid = 0 then runcmd left else Wait (runcmd right))"
| "runcmd (PIPE left right) =
     Pipe (\<lambda>p. case p of
       None \<Rightarrow> sh_panic ''pipe''
     | Some (p0, p1) \<Rightarrow>
         fork1 (\<lambda>pid.
         if pid = 0 then Close 1 (Dup p1 (Close p0 (Close p1 (runcmd left))))
         else fork1 (\<lambda>pid.
         if pid = 0 then Close 0 (Dup p0 (Close p0 (Close p1 (runcmd right))))
         else Close p0 (Close p1 (Wait (Wait Exit))))))"
| "runcmd (BACK cmd) =
     fork1 (\<lambda>pid. if pid = 0 then runcmd cmd else Exit)"

section \<open>The main loop\<close>

text \<open>\<open>gets\<close> with the bytes that \<open>read\<close> still delivers; the line without its NUL, and the bytes left.\<close>

fun gets :: "nat \<Rightarrow> nat \<Rightarrow> u8 list \<Rightarrow> u8 list \<times> u8 list" where
  "gets i mx [] = ([], [])"
| "gets i mx (c # inp) =
     (if \<not> i + 1 < mx then ([], c # inp)
      else if c = 10 \<or> c = 13 then ([c], inp)
      else let (line, rest) = gets (i + 1) mx inp in (c # line, rest))"

definition getcmd :: "nat \<Rightarrow> u8 list \<Rightarrow> (u8 list \<times> u8 list) option" where
  "getcmd nbuf inp =
     (let (line, rest) = gets 0 nbuf inp;
          buf = takeWhile (\<lambda>c. c \<noteq> 0) line
      in if buf = [] then None else Some (buf, rest))"

text \<open>The string at a word of the line \<open>b\<close> of \<open>n\<close> characters.\<close>

definition word_at :: "bytes \<Rightarrow> nat \<Rightarrow> word_ptr \<Rightarrow> u8 list" where
  "word_at b n p = takeWhile (\<lambda>c. c \<noteq> 0) (map b [n - fst p..<Suc n])"

text \<open>The child of one command line. What is printed of a line with leftovers before the \<open>panic\<close> is left out.\<close>

definition run_line :: "u8 list \<Rightarrow> script" where
  "run_line buf =
     (case parsecmd buf of
        None \<Rightarrow> Exit
      | Some (Inl e) \<Rightarrow> sh_panic e
      | Some (Inr cmd) \<Rightarrow>
          runcmd (map_cmd (word_at (nulterminate (length buf) cmd (\<lambda>i. if i < length buf then buf ! i else 0)) (length buf)) cmd))"

lemma gets_less: "gets i mx inp = (line, rest) \<Longrightarrow> line \<noteq> [] \<Longrightarrow> length rest < length inp"
proof (induction inp arbitrary: i line)
  case (Cons c inp)
  show ?case
  proof (cases "i + 1 < mx \<and> c \<noteq> 10 \<and> c \<noteq> 13")
    case True
    obtain l where l: "gets (i + 1) mx inp = (l, rest)" using Cons.prems True by (auto split: prod.splits)
    have "length rest \<le> length inp"
    proof (cases "l = []")
      case True
      then show ?thesis using l by (cases inp) (auto split: if_splits prod.splits)
    qed (use Cons.IH [OF l] in simp)
    then show ?thesis by simp
  qed (use Cons.prems in \<open>auto split: if_splits\<close>)
qed simp

lemma getcmd_less: "getcmd n inp = Some (buf, rest) \<Longrightarrow> length rest < length inp"
  using gets_less [of 0 n inp] by (fastforce simp: getcmd_def Let_def split: prod.splits if_splits)

function main_loop :: "u8 list \<Rightarrow> script" where
  "main_loop inp =
     (case getcmd 100 inp of
        None \<Rightarrow> Exit
      | Some (buf, rest) \<Rightarrow>
          if take 3 buf = [99, 100, 32] then
            Chdir (drop 3 (butlast buf)) (\<lambda>r.
            if r < 0 then Print (''cannot cd %s'' @ [CHR 0x0A]) [drop 3 (butlast buf)] (main_loop rest)
            else main_loop rest)
          else fork1 (\<lambda>pid. if pid = 0 then run_line buf else Wait (main_loop rest)))"
  by pat_completeness auto
termination by (relation "measure length") (auto dest: getcmd_less)

declare main_loop.simps [simp del]

text \<open>The loop that opens the console ends when a descriptor is 3 or more, or \<open>open\<close> fails. Descriptors are
  given out once, so that four rounds do.\<close>

definition console :: "u8 list" where
  "console = [99, 111, 110, 115, 111, 108, 101]"

fun open_console :: "nat \<Rightarrow> script \<Rightarrow> script" where
  "open_console 0 s = Exit"
| "open_console (Suc n) s =
     Open console O_RDWR (\<lambda>fd.
     if fd \<ge> 0 then (if fd \<ge> 3 then Close fd s else open_console n s) else s)"

definition sh_main :: "u8 list \<Rightarrow> script" where
  "sh_main inp = open_console 4 (main_loop inp)"

section \<open>The meaning of programs\<close>

datatype object =
    Named "u8 list" u32
  | PipeRead nat
  | PipeWrite nat

type_synonym table = "int \<Rightarrow> object option"

definition free_fd :: "table \<Rightarrow> int option" where
  "free_fd t = find (\<lambda>fd. t fd = None) [0..15]"

text \<open>What happens, in an order in which every child runs before its parent goes on: a program is executed or
  a process waits, with its open files, and a change of directory or a message. Pipes are numbered.\<close>

datatype event =
    Executed "u8 list list" table
  | Waited table
  | Changed "u8 list"
  | Printed string "u8 list list"

primrec run :: "script \<Rightarrow> table \<Rightarrow> nat \<Rightarrow> event list \<times> nat" where
  "run Exit t k = ([], k)"
| "run (Exec argv s) t k = ([Executed argv t], k)"
| "run (Print fmt ws s) t k = (let (es, k) = run s t k in (Printed fmt ws # es, k))"
| "run (Close fd s) t k = run s (t(fd := None)) k"
| "run (Open path mode f) t k =
     (case free_fd t of
        None \<Rightarrow> run (f (-1)) t k
      | Some fd \<Rightarrow> run (f fd) (t(fd \<mapsto> Named path mode)) k)"
| "run (Dup fd s) t k =
     (case (t fd, free_fd t) of
        (Some x, Some fd') \<Rightarrow> run s (t(fd' \<mapsto> x)) k
      | _ \<Rightarrow> run s t k)"
| "run (Pipe f) t k =
     (case free_fd t of
        None \<Rightarrow> run (f None) t k
      | Some a \<Rightarrow>
          (case free_fd (t(a \<mapsto> PipeRead k)) of
             None \<Rightarrow> run (f None) t k
           | Some b \<Rightarrow> run (f (Some (a, b))) (t(a \<mapsto> PipeRead k, b \<mapsto> PipeWrite k)) (k + 1)))"
| "run (Fork f) t k =
     (let (xs, k) = run (f 0) t k;
          (ys, k) = run (f 1) t k
      in (xs @ ys, k))"
| "run (Wait s) t k = (let (es, k) = run s t k in (Waited t # es, k))"
| "run (Chdir path f) t k = (let (es, k) = run (f 0) t k in (Changed path # es, k))"

text \<open>The three standard descriptors and nothing else.\<close>

definition std :: "object \<Rightarrow> object \<Rightarrow> object \<Rightarrow> table" where
  "std i o' e = [0 \<mapsto> i, 1 \<mapsto> o', 2 \<mapsto> e]"

text \<open>What a command means: which programs run with which standard input and output.\<close>

fun denote :: "u8 list cmd \<Rightarrow> object \<Rightarrow> object \<Rightarrow> object \<Rightarrow> nat \<Rightarrow> event list \<times> nat" where
  "denote (EXEC ws) i o' e k = (if ws = [] then [] else [Executed ws (std i o' e)], k)"
| "denote (REDIR c w mode fd) i o' e k =
     (if fd = 0 then denote c (Named w mode) o' e k else denote c i (Named w mode) e k)"
| "denote (LIST a b) i o' e k =
     (let (xs, k) = denote a i o' e k; (ys, k) = denote b i o' e k in (xs @ Waited (std i o' e) # ys, k))"
| "denote (PIPE a b) i o' e k =
     (let (xs, l) = denote a i (PipeWrite k) e (k + 1); (ys, m) = denote b (PipeRead k) o' e l
      in (xs @ ys @ [Waited (std i o' e), Waited (std i o' e)], m))"
| "denote (BACK c) i o' e k = denote c i o' e k"

lemma fds: "[0..15 :: int] = [0, 1, 2, 3, 4, 5, 6, 7, 8, 9, 10, 11, 12, 13, 14, 15]"
  by code_simp

lemma free_std:
  "free_fd (std i o' e) = Some 3" "free_fd ((std i o' e)(3 \<mapsto> x)) = Some 4"
  "free_fd ((std i o' e)(0 := None)) = Some 0" "free_fd ((std i o' e)(1 := None)) = Some 1"
  "free_fd ((std i o' e)(3 \<mapsto> x, 4 \<mapsto> y, 0 := None)) = Some 0" "free_fd ((std i o' e)(3 \<mapsto> x, 4 \<mapsto> y, 1 := None)) = Some 1"
  by (simp_all add: free_fd_def fds std_def)

lemma std_upd:
  "(std i o' e)(0 \<mapsto> x) = std x o' e" "(std i o' e)(1 \<mapsto> x) = std i x e"
  "(std i o' e)(1 \<mapsto> x, 3 := None, 4 := None) = std i x e" "(std i o' e)(0 \<mapsto> x, 3 := None, 4 := None) = std x o' e"
  "(std i o' e)(3 := None, 4 := None) = std i o' e"
  by (auto simp: std_def)

lemma runcmd_denote: "wf_cmd c \<Longrightarrow> run (runcmd c) (std i o' e) k = denote c i o' e k"
proof (induction c arbitrary: i o' k)
  case (EXEC ws)
  then show ?case by (cases ws) simp_all
next
  case (REDIR c w mode fd)
  have "fd = 0 \<or> fd = 1" using REDIR.prems by (auto simp: legal_redir_def)
  then show ?case using REDIR by (auto simp: free_std std_upd)
next
  case (PIPE a b)
  then show ?case by (simp add: free_std std_upd fork1_def split: prod.splits)
next
  case (LIST a b)
  then show ?case by (simp add: fork1_def split: prod.splits)
next
  case (BACK c)
  then show ?case by (simp add: fork1_def split: prod.splits)
qed

section \<open>Lines\<close>

lemma word_at_string:
  assumes "string_at b (n - fst p) w \<and> n - fst p + length w \<le> n"
  shows "word_at b n p = w"
proof -
  let ?i = "n - fst p"
  obtain d where d: "n = ?i + length w + d" using assms le_Suc_ex by blast
  have "[?i..<?i + length w + Suc d] = [?i..<?i + length w] @ [?i + length w..<?i + length w + Suc d]"
    by (rule upt_add_eq_append) simp
  then have "[?i..<Suc n] = [?i..<?i + length w] @ (?i + length w) # [Suc (?i + length w)..<Suc n]"
    using d upt_conv_Cons [of "?i + length w" "Suc n"] by simp
  moreover have "map b [?i..<?i + length w] = w"
    using assms by (intro nth_equalityI) (auto simp: string_at_def)
  moreover have "\<forall>c\<in>set w. c \<noteq> 0" using assms by (auto simp: string_at_def in_set_conv_nth)
  ultimately show ?thesis using assms by (simp add: word_at_def string_at_def)
qed

lemma run_line_words:
  assumes "0 \<notin> set s" "parsecmd s = Some (Inr pc)" "rel_cmd (is_word s) pc c"
  shows "run_line s = runcmd c"
proof -
  let ?b = "nulterminate (length s) pc (\<lambda>i. if i < length s then s ! i else 0)"
  have "rel_cmd (\<lambda>p w. word_at ?b (length s) p = w) pc c"
    by (rule cmd.rel_mono_strong [OF nulterminate_string [OF assms(1) _ assms(3), of "\<lambda>i. if i < length s then s ! i else 0"]]) (simp_all add: word_at_string)
  then have "rel_cmd (=) (map_cmd (word_at ?b (length s)) pc) c" by (simp add: cmd.rel_map(1))
  then show ?thesis using assms(2) by (simp add: run_line_def cmd.rel_eq)
qed

lemma legal_chars: "legal w \<Longrightarrow> 0 \<notin> set w \<and> 10 \<notin> set w \<and> 13 \<notin> set w"
proof -
  assume "legal w"
  moreover have "\<not> word_char 10" "\<not> word_char 13" by (simp_all add: word_char_def whitespace_def)
  ultimately show ?thesis unfolding legal_def by blast
qed

lemma set_redir_text: "legal_redir r \<Longrightarrow> 0 \<notin> set (redir_text r) \<and> 10 \<notin> set (redir_text r) \<and> 13 \<notin> set (redir_text r)"
  using legal_chars [of "fst r"] by (cases r) (simp add: redir_text_def legal_redir_def)

lemma set_words_text: "\<forall>w\<in>set ws. legal w \<Longrightarrow> 0 \<notin> set (words_text ws) \<and> 10 \<notin> set (words_text ws) \<and> 13 \<notin> set (words_text ws)"
  by (induction ws) (simp_all add: legal_chars)

lemma set_cmd_text: "wf_cmd c \<Longrightarrow> 0 \<notin> set (cmd_text l c) \<and> 10 \<notin> set (cmd_text l c) \<and> 13 \<notin> set (cmd_text l c)"
proof (induction c arbitrary: l)
  case (REDIR c w mode fd)
  then show ?case using set_redir_text [of "(w, mode, fd)"] by simp
qed (simp_all add: set_words_text paren_def)

lemma run_line_text:
  assumes "wf_cmd c"
  shows "\<exists>pc. parsecmd (cmd_text 0 c @ [10]) = Some (Inr pc) \<and> rel_cmd (is_word (cmd_text 0 c @ [10])) pc c
    \<and> run_line (cmd_text 0 c @ [10]) = runcmd c"
proof -
  obtain pc where "parsecmd (cmd_text 0 c @ [10]) = Some (Inr pc)" "rel_cmd (is_word (cmd_text 0 c @ [10])) pc c"
    using parsecmd_text [OF assms, of "[10]"] by (auto simp: skip_def whitespace_def)
  then show ?thesis using run_line_words [of "cmd_text 0 c @ [10]" pc c] set_cmd_text [OF assms] by simp
qed

lemma gets_line: "i + length l + 1 < mx \<Longrightarrow> 10 \<notin> set l \<Longrightarrow> 13 \<notin> set l \<Longrightarrow> gets i mx (l @ 10 # rest) = (l @ [10], rest)"
  by (induction l arbitrary: i) auto

lemma getcmd_line:
  assumes "length l < 99" "0 \<notin> set l" "10 \<notin> set l" "13 \<notin> set l"
  shows "getcmd 100 (l @ 10 # rest) = Some (l @ [10], rest)"
proof -
  have "takeWhile (\<lambda>c. c \<noteq> 0) (l @ [10]) = l @ [10]" using assms(2) by (auto simp: takeWhile_eq_all_conv)
  then show ?thesis using gets_line [of 0 l 100 rest] assms by (simp add: getcmd_def)
qed

fun denote_all :: "u8 list cmd list \<Rightarrow> object \<Rightarrow> object \<Rightarrow> object \<Rightarrow> nat \<Rightarrow> event list \<times> nat" where
  "denote_all [] i o' e k = ([], k)"
| "denote_all (c # cs) i o' e k =
     (let (xs, k) = denote c i o' e k; (ys, k) = denote_all cs i o' e k in (xs @ Waited (std i o' e) # ys, k))"

definition fits :: "u8 list cmd \<Rightarrow> bool" where
  "fits c \<longleftrightarrow> wf_cmd c \<and> length (cmd_text 0 c) < 99 \<and> take 3 (cmd_text 0 c) \<noteq> [99, 100, 32]"

lemma main_loop_denote:
  "\<forall>c\<in>set cs. fits c \<Longrightarrow>
   run (main_loop (concat (map (\<lambda>c. cmd_text 0 c @ [10]) cs))) (std i o' e) k = denote_all cs i o' e k"
proof (induction cs arbitrary: k)
  case Nil
  then show ?case by (simp add: main_loop.simps [of "[]"] getcmd_def)
next
  case (Cons c cs)
  let ?r = "concat (map (\<lambda>c. cmd_text 0 c @ [10]) cs)"
  have c: "wf_cmd c" "length (cmd_text 0 c) < 99" "take 3 (cmd_text 0 c) \<noteq> [99, 100, 32]" using Cons.prems by (auto simp: fits_def)
  have "take 3 (cmd_text 0 c @ [10]) \<noteq> [99, 100, 32]"
    using c(3) append1_eq_conv [of "cmd_text 0 c" 10 "[99, 100]" 32] by (cases "3 \<le> length (cmd_text 0 c)") simp_all
  moreover have "getcmd 100 (cmd_text 0 c @ 10 # ?r) = Some (cmd_text 0 c @ [10], ?r)"
    using getcmd_line [OF c(2)] set_cmd_text [OF c(1)] by simp
  moreover have "run_line (cmd_text 0 c @ [10]) = runcmd c" using run_line_text [OF c(1)] by blast
  ultimately show ?case using Cons
    by (simp add: main_loop.simps [of "cmd_text 0 c @ 10 # ?r"] fork1_def runcmd_denote [OF c(1)] split: prod.splits)
qed

definition opened :: "table \<Rightarrow> int \<Rightarrow> object" where
  "opened t fd = (case t fd of None \<Rightarrow> Named console O_RDWR | Some x \<Rightarrow> x)"

lemma sh_main_opens:
  assumes "\<forall>fd. fd \<notin> {0, 1, 2} \<longrightarrow> t fd = None"
  shows "run (open_console 4 s) t k = run s (std (opened t 0) (opened t 1) (opened t 2)) k"
proof -
  have n: "t 3 = None" using assms by simp
  have e: "std (opened t 0) (opened t 1) (opened t 2) = (\<lambda>fd. if fd \<in> {0, 1, 2} then Some (opened t fd) else t fd)"
    using assms by (auto simp: std_def fun_eq_iff)
  show ?thesis unfolding e
    by (cases "t 0"; cases "t 1"; cases "t 2")
      (simp_all add: eval_nat_numeral free_fd_def fds n, (rule arg_cong [where f = "\<lambda>t. run s t k"], auto simp: fun_eq_iff n opened_def)+)
qed

section \<open>Properties\<close>



text \<open>C6: every command the shell can execute can be written down: the text of the command tree, followed by a
  newline, parses to a tree of the same shape over the same words, and the shell runs that command. Lists,
  background commands and pipes below a pipe or a redirection are written in parentheses.\<close>

theorem parsecmd_roundtrip:
  assumes "wf_cmd c"
  shows "\<exists>pc. parsecmd (cmd_text 0 c @ [10]) = Some (Inr pc) \<and> rel_cmd (is_word (cmd_text 0 c @ [10])) pc c
    \<and> run_line (cmd_text 0 c @ [10]) = runcmd c"
  by (rule run_line_text [OF assms])

definition sample :: "u8 list cmd" where
  "sample = PIPE (EXEC [[108, 115], [97]]) (REDIR (BACK (EXEC [[119, 99]])) [102] (O_WRONLY OR O_CREATE) 1)"

theorem parsecmd_roundtrip_witness:
  "cmd_text 0 sample = [108, 115, 32, 97, 32, 124, 40, 119, 99, 32, 38, 41, 62, 102, 32]
   \<and> (\<exists>pc. parsecmd (cmd_text 0 sample @ [10]) = Some (Inr pc) \<and> rel_cmd (is_word (cmd_text 0 sample @ [10])) pc sample
        \<and> run_line (cmd_text 0 sample @ [10]) = runcmd sample)"
proof -
  have "wf_cmd sample" by code_simp
  moreover have "cmd_text 0 sample = [108, 115, 32, 97, 32, 124, 40, 119, 99, 32, 38, 41, 62, 102, 32]" by code_simp
  ultimately show ?thesis using parsecmd_roundtrip by blast
qed

text \<open>C5: the shell started with at most the descriptors 0, 1 and 2 open, on an input of commands one per line,
  executes exactly the programs of the commands, each with the standard input and output that redirections and
  pipes give it, standard error as it was, and no other descriptor: in particular no process is left with an end
  of a pipe it does not use, neither a program that is executed nor a shell that waits. The shell waits for
  each command before it reads the next, and stops at the end of the input.\<close>

theorem sh_main_runs:
  assumes "\<forall>c\<in>set cs. fits c" "\<forall>fd. fd \<notin> {0, 1, 2} \<longrightarrow> t fd = None"
  shows "run (sh_main (concat (map (\<lambda>c. cmd_text 0 c @ [10]) cs))) t k
    = denote_all cs (opened t 0) (opened t 1) (opened t 2) k"
  unfolding sh_main_def sh_main_opens [OF assms(2)] by (rule main_loop_denote [OF assms(1)])

theorem sh_main_runs_witness:
  "\<exists>tty. run (sh_main (cmd_text 0 sample @ [10])) (\<lambda>fd. None) 7
    = ([Executed [[108, 115], [97]] (std tty (PipeWrite 7) tty),
        Executed [[119, 99]] (std (PipeRead 7) (Named [102] 0x201) tty),
        Waited (std tty tty tty), Waited (std tty tty tty), Waited (std tty tty tty)], 8)"
proof -
  have f: "fits sample" by code_simp
  show ?thesis using sh_main_runs [of "[sample]" "\<lambda>fd. None" 7] f
    by (intro exI [of _ "Named console O_RDWR"]) (simp add: opened_def, simp add: sample_def)
qed

end
