(* ===== verification/Spec2Isabelle.thy ===== *)
theory Spec2Isabelle
  imports Boot Uvm Grep Content Shell
begin

text \<open>
  A verification development for the xv6 kernel of this repository. The theories follow
  the source files.

  \<^item> \<^verbatim>\<open>Prelude\<close>: C integers, outcomes of kernel code, bytes.
  \<^item> \<^verbatim>\<open>Params\<close>: constants and on-disk structures of \<^verbatim>\<open>param.h\<close>, \<^verbatim>\<open>fs.h\<close>, \<^verbatim>\<open>stat.h\<close>, \<^verbatim>\<open>memlayout.h\<close>.
  \<^item> \<^verbatim>\<open>Spinlock\<close>: \<^verbatim>\<open>spinlock.c\<close>.
  \<^item> \<^verbatim>\<open>Kalloc\<close>: \<^verbatim>\<open>kalloc.c\<close>.
  \<^item> \<^verbatim>\<open>Proc\<close>: the scheduling primitives of \<^verbatim>\<open>proc.c\<close>.
  \<^item> \<^verbatim>\<open>Bio\<close>: \<^verbatim>\<open>bio.c\<close> over \<^verbatim>\<open>memide.c\<close>.
  \<^item> \<^verbatim>\<open>Log\<close>: \<^verbatim>\<open>log.c\<close>.
\<close>

end
